(* ===== verification/Prelude.thy ===== *)
theory Prelude
  imports Main "HOL-Library.Word" "HOL-Library.AList"
begin

text \<open>
  Shared vocabulary of the development: Rust's \<^verbatim>\<open>Result\<close> with panics as a third outcome,
  slices and checked machine arithmetic, big-endian byte strings, the fixed-size byte arrays
  that \<^verbatim>\<open>byte_array_newtype!\<close> declares, and hash maps as association lists.

  \<^item> \<^verbatim>\<open>usize\<close> is a natural number: the sources need a 64-bit target
    (\<^verbatim>\<open>usize::from_be_bytes\<close> of eight bytes), so a \<^verbatim>\<open>Vec\<close> holds fewer than \<open>2 ^ 64\<close> elements;
    the theorems that depend on that bound state it.
  \<^item> \<open>+\<close> on machine integers follows the dev profile that the README's \<^verbatim>\<open>cargo run\<close> uses:
    an overflow panics.
  \<^item> A \<^verbatim>\<open>HashMap\<close> is an association list with distinct keys; the order of the list stands for
    the unspecified iteration order, so a result that must not depend on that order has a
    theorem saying so.
\<close>

section \<open>Outcomes: Ok, Err and panics\<close>

datatype ('a, 'e) outcome = Ok 'a | Err 'e | Panic

named_theorems outcome_iffs \<open>success of a composed computation, split into its steps\<close>

text \<open>Rust's \<^verbatim>\<open>?\<close> operator: continue on success, return the error or unwind otherwise.\<close>

primrec and_then :: "('a, 'e) outcome \<Rightarrow> ('a \<Rightarrow> ('b, 'e) outcome) \<Rightarrow> ('b, 'e) outcome" where
  "and_then (Ok x) f = f x"
| "and_then (Err e) f = Err e"
| "and_then Panic f = Panic"

primrec map_err :: "('e \<Rightarrow> 'f) \<Rightarrow> ('a, 'e) outcome \<Rightarrow> ('a, 'f) outcome" where
  "map_err g (Ok x) = Ok x"
| "map_err g (Err e) = Err (g e)"
| "map_err g Panic = Panic"

primrec ok_or :: "'e \<Rightarrow> 'a option \<Rightarrow> ('a, 'e) outcome" where
  "ok_or e (Some x) = Ok x"
| "ok_or e None = Err e"

primrec or_panic :: "'a option \<Rightarrow> ('a, 'e) outcome" where
  "or_panic (Some x) = Ok x"
| "or_panic None = Panic"

text \<open>\<^verbatim>\<open>iter().map(f).collect::<Result<Vec<_>, _>>()\<close>, and the loops that push with \<^verbatim>\<open>?\<close>.\<close>

primrec try_collect :: "('a \<Rightarrow> ('b, 'e) outcome) \<Rightarrow> 'a list \<Rightarrow> ('b list, 'e) outcome" where
  "try_collect f [] = Ok []"
| "try_collect f (x # xs) =
     and_then (f x) (\<lambda>y. and_then (try_collect f xs) (\<lambda>ys. Ok (y # ys)))"

text \<open>A \<^verbatim>\<open>for\<close> loop over a list that updates a state and may return early with \<^verbatim>\<open>?\<close>.\<close>

primrec try_fold :: "('s \<Rightarrow> 'a \<Rightarrow> ('s, 'e) outcome) \<Rightarrow> 's \<Rightarrow> 'a list \<Rightarrow> ('s, 'e) outcome" where
  "try_fold f s [] = Ok s"
| "try_fold f s (x # xs) = and_then (f s x) (\<lambda>s'. try_fold f s' xs)"

lemma and_then_cong [fundef_cong]:
  "m = m' \<Longrightarrow> (\<And>x. m' = Ok x \<Longrightarrow> f x = g x) \<Longrightarrow> and_then m f = and_then m' g"
  by (cases m') auto

lemma try_collect_cong [fundef_cong]:
  "xs = ys \<Longrightarrow> (\<And>x. x \<in> set ys \<Longrightarrow> f x = g x) \<Longrightarrow> try_collect f xs = try_collect g ys"
  by (induction ys arbitrary: xs) auto

lemma and_then_Ok_iff [outcome_iffs]:
  "and_then m f = Ok y \<longleftrightarrow> (\<exists>x. m = Ok x \<and> f x = Ok y)"
  by (cases m) auto

lemma and_then_Panic_iff [outcome_iffs]:
  "and_then m f = Panic \<longleftrightarrow> m = Panic \<or> (\<exists>x. m = Ok x \<and> f x = Panic)"
  by (cases m) auto

lemma and_then_Err_iff [outcome_iffs]:
  "and_then m f = Err e \<longleftrightarrow> m = Err e \<or> (\<exists>x. m = Ok x \<and> f x = Err e)"
  by (cases m) auto

lemma map_err_Ok_iff [simp]: "map_err g m = Ok x \<longleftrightarrow> m = Ok x"
  by (cases m) auto

lemma map_err_Panic_iff [simp]: "map_err g m = Panic \<longleftrightarrow> m = Panic"
  by (cases m) auto

lemma map_err_Err_iff: "map_err g m = Err e \<longleftrightarrow> (\<exists>e'. m = Err e' \<and> e = g e')"
  by (cases m) auto

lemma ok_or_Ok_iff [simp]: "ok_or e m = Ok x \<longleftrightarrow> m = Some x"
  by (cases m) auto

lemma ok_or_Err_iff [simp]: "ok_or e m = Err e' \<longleftrightarrow> m = None \<and> e' = e"
  by (cases m) auto

lemma ok_or_not_Panic [simp]: "ok_or e m \<noteq> Panic"
  by (cases m) auto

lemma or_panic_Ok_iff [simp]: "or_panic m = Ok x \<longleftrightarrow> m = Some x"
  by (cases m) auto

lemma or_panic_Panic_iff [simp]: "or_panic m = Panic \<longleftrightarrow> m = None"
  by (cases m) auto

lemma or_panic_not_Err [simp]: "or_panic m \<noteq> Err e"
  by (cases m) auto

lemma try_collect_map_Ok:
  "(\<And>x. x \<in> set xs \<Longrightarrow> f (g x) = Ok x) \<Longrightarrow> try_collect f (map g xs) = Ok xs"
  by (induction xs) auto

lemma try_collect_Ok_map:
  "(\<And>x. x \<in> set xs \<Longrightarrow> f x = Ok (g x)) \<Longrightarrow> try_collect f xs = Ok (map g xs)"
  by (induction xs) auto

lemma try_collect_not_Panic:
  "(\<And>x. x \<in> set xs \<Longrightarrow> f x \<noteq> Panic) \<Longrightarrow> try_collect f xs \<noteq> Panic"
  by (induction xs) (auto simp: outcome_iffs)

lemma try_collect_Ok_iff:
  "try_collect f xs = Ok ys \<longleftrightarrow> list_all2 (\<lambda>x y. f x = Ok y) xs ys"
  by (induction xs arbitrary: ys)
     (auto simp: outcome_iffs list_all2_Cons1)

section \<open>Methods that mutate their receiver\<close>

text \<open>
  A method with \<^verbatim>\<open>&mut self\<close> is a function from the state to an outcome and the state it leaves,
  also when it returns early with an error: \<^verbatim>\<open>?\<close> keeps the mutations made so far.
\<close>

type_synonym ('a, 'e, 's) action = "'s \<Rightarrow> ('a, 'e) outcome \<times> 's"

definition then_do :: "('a, 'e, 's) action \<Rightarrow> ('a \<Rightarrow> ('b, 'e, 's) action) \<Rightarrow> ('b, 'e, 's) action" where
  "then_do m f s =
     (case m s of
        (Ok x, s') \<Rightarrow> f x s'
      | (Err e, s') \<Rightarrow> (Err e, s')
      | (Panic, s') \<Rightarrow> (Panic, s'))"

definition pure :: "('a, 'e) outcome \<Rightarrow> ('a, 'e, 's) action" where
  "pure m s = (m, s)"

definition reading :: "('s \<Rightarrow> ('a, 'e) outcome) \<Rightarrow> ('a, 'e, 's) action" where
  "reading f s = (f s, s)"

definition mutate :: "('s \<Rightarrow> 's) \<Rightarrow> (unit, 'e, 's) action" where
  "mutate f s = (Ok (), f s)"

text \<open>A \<^verbatim>\<open>for\<close> loop over a list that mutates the state and threads a value.\<close>

primrec for_each :: "('b \<Rightarrow> 'a \<Rightarrow> ('b, 'e, 's) action) \<Rightarrow> 'b \<Rightarrow> 'a list \<Rightarrow> ('b, 'e, 's) action" where
  "for_each f acc [] = pure (Ok acc)"
| "for_each f acc (x # xs) = then_do (f acc x) (\<lambda>acc'. for_each f acc' xs)"

lemma then_do_simps [simp]:
  "then_do (pure (Ok x)) f s = f x s"
  "then_do (pure (Err e)) f s = (Err e, s)"
  "then_do (pure Panic) f s = (Panic, s)"
  "then_do (mutate g) f s = f () (g s)"
  by (simp_all add: then_do_def pure_def mutate_def)

lemma action_simps [simp]:
  "pure m s = (m, s)" "reading h s = (h s, s)" "mutate g s = (Ok (), g s)"
  by (simp_all add: pure_def reading_def mutate_def)

lemma then_do_Ok_iff [outcome_iffs]:
  "then_do m f s = (Ok y, s'') \<longleftrightarrow> (\<exists>x s'. m s = (Ok x, s') \<and> f x s' = (Ok y, s''))"
  by (auto simp: then_do_def split: prod.split outcome.split)

lemma then_do_Err_iff:
  "then_do m f s = (Err e, s'') \<longleftrightarrow>
     m s = (Err e, s'') \<or> (\<exists>x s'. m s = (Ok x, s') \<and> f x s' = (Err e, s''))"
  by (auto simp: then_do_def split: prod.split outcome.split)

lemma then_do_Panic_iff:
  "then_do m f s = (Panic, s'') \<longleftrightarrow>
     m s = (Panic, s'') \<or> (\<exists>x s'. m s = (Ok x, s') \<and> f x s' = (Panic, s''))"
  by (auto simp: then_do_def split: prod.split outcome.split)

text \<open>An invariant that a step keeps, whatever it returns, is kept by sequences and loops.\<close>

definition keeps :: "('s \<Rightarrow> bool) \<Rightarrow> ('a, 'e, 's) action \<Rightarrow> bool" where
  "keeps P m \<longleftrightarrow> (\<forall>s. P s \<longrightarrow> P (snd (m s)))"

lemma keepsI: "(\<And>s. P s \<Longrightarrow> P (snd (m s))) \<Longrightarrow> keeps P m"
  by (simp add: keeps_def)

lemma keepsD: "keeps P m \<Longrightarrow> P s \<Longrightarrow> P (snd (m s))"
  by (simp add: keeps_def)

lemma keeps_pure [intro]: "keeps P (pure m)"
  by (simp add: keeps_def)

lemma keeps_reading [intro]: "keeps P (reading f)"
  by (simp add: keeps_def)

lemma keeps_mutate: "(\<And>s. P s \<Longrightarrow> P (g s)) \<Longrightarrow> keeps P (mutate g)"
  by (simp add: keeps_def)

lemma keeps_then_do [intro]: "keeps P m \<Longrightarrow> (\<And>x. keeps P (f x)) \<Longrightarrow> keeps P (then_do m f)"
proof (rule keepsI)
  fix s
  assume m: "keeps P m" and f: "\<And>x. keeps P (f x)" and "P s"
  obtain r s' where r: "m s = (r, s')" by (cases "m s")
  with keepsD [OF m \<open>P s\<close>] have "P s'" by simp
  then show "P (snd (then_do m f s))"
    using keepsD [OF f] r by (cases r) (simp_all add: then_do_def)
qed

lemma keeps_for_each [intro]:
  "(\<And>acc x. x \<in> set xs \<Longrightarrow> keeps P (f acc x)) \<Longrightarrow> keeps P (for_each f acc xs)"
  by (induction xs arbitrary: acc) auto

section \<open>Machine integers\<close>

type_synonym u8 = "8 word"
type_synonym u32 = "32 word"
type_synonym u64 = "64 word"
type_synonym u128 = "128 word"
type_synonym usize = nat
type_synonym bytes = "u8 list"

definition checked_add :: "'a::len word \<Rightarrow> 'a word \<Rightarrow> 'a word option" where
  "checked_add a b = (if unat a + unat b < 2 ^ LENGTH('a) then Some (a + b) else None)"

definition checked_sub :: "'a::len word \<Rightarrow> 'a word \<Rightarrow> 'a word option" where
  "checked_sub a b = (if b \<le> a then Some (a - b) else None)"

definition checked_mul :: "'a::len word \<Rightarrow> 'a word \<Rightarrow> 'a word option" where
  "checked_mul a b = (if unat a * unat b < 2 ^ LENGTH('a) then Some (a * b) else None)"

text \<open>The overflow-checked \<open>+\<close> of the dev profile.\<close>

definition add_or_panic :: "'a::len word \<Rightarrow> 'a word \<Rightarrow> ('a word, 'e) outcome" where
  "add_or_panic a b = or_panic (checked_add a b)"

lemma checked_add_eq_Some:
  "checked_add (a :: 'a::len word) b = Some c \<longleftrightarrow>
     unat a + unat b < 2 ^ LENGTH('a) \<and> unat c = unat a + unat b"
proof -
  have "unat (a + b) = unat a + unat b" if "unat a + unat b < 2 ^ LENGTH('a)"
    using that by (simp add: unat_word_ariths)
  then show ?thesis
    by (auto simp: checked_add_def word_unat_eq_iff)
qed

lemma checked_sub_eq_Some:
  "checked_sub a b = Some c \<longleftrightarrow> unat b \<le> unat a \<and> unat c = unat a - unat b"
proof -
  have "unat (a - b) = unat a - unat b" if "b \<le> a"
    using that by (rule unat_sub)
  then show ?thesis
    by (auto simp: checked_sub_def word_le_nat_alt word_unat_eq_iff)
qed

lemma checked_mul_eq_Some:
  "checked_mul (a :: 'a::len word) b = Some c \<longleftrightarrow>
     unat a * unat b < 2 ^ LENGTH('a) \<and> unat c = unat a * unat b"
proof -
  have "unat (a * b) = unat a * unat b" if "unat a * unat b < 2 ^ LENGTH('a)"
    using that by (simp add: unat_word_ariths)
  then show ?thesis
    by (auto simp: checked_mul_def word_unat_eq_iff)
qed

text \<open>The result bounds itself.\<close>

lemma checked_add_unat: "checked_add (a :: 'a::len word) b = Some c \<longleftrightarrow> unat c = unat a + unat b"
  by (metis checked_add_eq_Some unsigned_less)

lemma checked_mul_unat: "checked_mul (a :: 'a::len word) b = Some c \<longleftrightarrow> unat c = unat a * unat b"
  by (metis checked_mul_eq_Some unsigned_less)

lemma checked_add_eq_None:
  "checked_add (a :: 'a::len word) b = None \<longleftrightarrow> 2 ^ LENGTH('a) \<le> unat a + unat b"
  by (auto simp: checked_add_def)

lemma checked_mul_eq_None:
  "checked_mul (a :: 'a::len word) b = None \<longleftrightarrow> 2 ^ LENGTH('a) \<le> unat a * unat b"
  by (auto simp: checked_mul_def)

lemma checked_sub_eq_None: "checked_sub a b = None \<longleftrightarrow> unat a < unat b"
  by (auto simp: checked_sub_def word_le_nat_alt)

lemma ex_unat: "n < 2 ^ LENGTH('a) \<Longrightarrow> \<exists>w :: 'a::len word. unat w = n"
  by (intro exI [of _ "of_nat n"]) (simp add: unat_of_nat)

lemma checked_add_ex:
  "unat a + unat b < 2 ^ LENGTH('a) \<Longrightarrow>
     \<exists>c. checked_add (a :: 'a::len word) b = Some c \<and> unat c = unat a + unat b"
  using ex_unat [of "unat a + unat b", where ?'a = 'a] by (auto simp: checked_add_eq_Some)

lemma checked_mul_ex:
  "unat a * unat b < 2 ^ LENGTH('a) \<Longrightarrow>
     \<exists>c. checked_mul (a :: 'a::len word) b = Some c \<and> unat c = unat a * unat b"
  using ex_unat [of "unat a * unat b", where ?'a = 'a] by (auto simp: checked_mul_eq_Some)

lemma checked_sub_ex: "b \<le> a \<Longrightarrow> \<exists>c. checked_sub a b = Some c"
  by (simp add: checked_sub_def)

lemma unat_ucast_up:
  "LENGTH('a) \<le> LENGTH('b) \<Longrightarrow> unat (ucast (w :: 'a::len word) :: 'b::len word) = unat w"
proof -
  assume le: "LENGTH('a) \<le> LENGTH('b)"
  have "unat w < 2 ^ LENGTH('a)" by simp
  also have "\<dots> \<le> 2 ^ LENGTH('b)" using le by simp
  finally show ?thesis
    by (simp add: unsigned_ucast_eq take_bit_nat_eq_self)
qed

lemma unat_add_of_nat: "unat c + n < 2 ^ LENGTH('a) \<Longrightarrow> unat (c + of_nat n :: 'a::len word) = unat c + n"
  by (simp add: unat_word_ariths unat_of_nat)

lemma add_or_panic_of_nat:
  "unat c + n < 2 ^ LENGTH('a) \<Longrightarrow> add_or_panic c (of_nat n) = Ok (c + of_nat n :: 'a::len word)"
  by (simp add: add_or_panic_def checked_add_def unat_of_nat)

text \<open>Case analysis on a hex digit.\<close>

lemma nibble_induct:
  assumes "(n :: u8) < 16"
    and "list_all P [0, 1, 2, 3, 4, 5, 6, 7, 8, 9, 10, 11, 12, 13, 14, 15]"
  shows "P n"
proof -
  have "unat n < 16"
    using assms(1) by (simp add: word_less_nat_alt)
  then have "unat n = 0 \<or> unat n = 1 \<or> unat n = 2 \<or> unat n = 3 \<or> unat n = 4 \<or> unat n = 5
      \<or> unat n = 6 \<or> unat n = 7 \<or> unat n = 8 \<or> unat n = 9 \<or> unat n = 10 \<or> unat n = 11
      \<or> unat n = 12 \<or> unat n = 13 \<or> unat n = 14 \<or> unat n = 15"
    by presburger
  then have "(of_nat (unat n) :: u8) \<in> set [0, 1, 2, 3, 4, 5, 6, 7, 8, 9, 10, 11, 12, 13, 14, 15]"
    by (elim disjE) simp_all
  then have "n \<in> set [0, 1, 2, 3, 4, 5, 6, 7, 8, 9, 10, 11, 12, 13, 14, 15]"
    by (simp only: word_nat_cases of_nat_unat ucast_id)
  with assms(2) show ?thesis
    by (simp only: list_all_iff)
qed

section \<open>Slices\<close>

definition index :: "'a list \<Rightarrow> usize \<Rightarrow> ('a, 'e) outcome" where
  "index xs i = (if i < length xs then Ok (xs ! i) else Panic)"

definition slice_from :: "'a list \<Rightarrow> usize \<Rightarrow> ('a list, 'e) outcome" where
  "slice_from xs i = (if i \<le> length xs then Ok (drop i xs) else Panic)"

definition slice_to :: "'a list \<Rightarrow> usize \<Rightarrow> ('a list, 'e) outcome" where
  "slice_to xs i = (if i \<le> length xs then Ok (take i xs) else Panic)"

definition slice_range :: "'a list \<Rightarrow> usize \<Rightarrow> usize \<Rightarrow> ('a list, 'e) outcome" where
  "slice_range xs i j = (if i \<le> j \<and> j \<le> length xs then Ok (take (j - i) (drop i xs)) else Panic)"

text \<open>\<^verbatim>\<open>xs[i] = v\<close> on an array.\<close>

definition store :: "'a list \<Rightarrow> usize \<Rightarrow> 'a \<Rightarrow> ('a list, 'e) outcome" where
  "store xs i v = (if i < length xs then Ok (xs[i := v]) else Panic)"

lemmas slice_defs = index_def slice_from_def slice_to_def slice_range_def store_def

text \<open>\<^verbatim>\<open>iter().position(p)\<close>.\<close>

fun position :: "('a \<Rightarrow> bool) \<Rightarrow> 'a list \<Rightarrow> usize option" where
  "position p [] = None"
| "position p (x # xs) = (if p x then Some 0 else map_option Suc (position p xs))"

definition unwrap_or :: "'a option \<Rightarrow> 'a \<Rightarrow> 'a" where
  "unwrap_or m d = (case m of Some x \<Rightarrow> x | None \<Rightarrow> d)"

lemma drop_position:
  "drop (unwrap_or (position p xs) (length xs)) xs = dropWhile (\<lambda>x. \<not> p x) xs"
  by (induction xs) (auto simp: unwrap_or_def split: option.splits)

lemma position_le: "unwrap_or (position p xs) (length xs) \<le> length xs"
  by (induction xs) (auto simp: unwrap_or_def split: option.splits)

section \<open>Big-endian byte strings\<close>

text \<open>The number a byte string denotes, and the \<open>n\<close> low bytes of a number, most significant first.\<close>

definition be_val :: "bytes \<Rightarrow> nat" where
  "be_val bs = foldl (\<lambda>acc b. acc * 256 + unat b) 0 bs"

fun be_digits :: "nat \<Rightarrow> nat \<Rightarrow> bytes" where
  "be_digits 0 x = []"
| "be_digits (Suc n) x = be_digits n (x div 256) @ [of_nat (x mod 256)]"

definition to_be_bytes :: "'a::len word \<Rightarrow> bytes" where
  "to_be_bytes w = be_digits (LENGTH('a) div 8) (unat w)"

definition from_be_bytes :: "bytes \<Rightarrow> 'a::len word" where
  "from_be_bytes bs = of_nat (be_val bs)"

lemma be_val_Nil [simp]: "be_val [] = 0"
  by (simp add: be_val_def)

lemma be_val_snoc [simp]: "be_val (bs @ [b]) = be_val bs * 256 + unat b"
  by (simp add: be_val_def)

lemma length_be_digits [simp]: "length (be_digits n x) = n"
  by (induction n arbitrary: x) auto

lemma unat_u8_mod: "unat (of_nat (x mod 256) :: u8) = x mod 256"
  by (simp add: unat_of_nat)

lemma be_val_be_digits: "be_val (be_digits n x) = x mod 256 ^ n"
proof (induction n arbitrary: x)
  case 0
  then show ?case by simp
next
  case (Suc n)
  have "be_val (be_digits (Suc n) x) = x div 256 mod 256 ^ n * 256 + x mod 256"
    by (simp add: Suc.IH unat_u8_mod)
  also have "\<dots> = x mod (256 * 256 ^ n)"
    by (simp add: mod_mult2_eq)
  finally show ?case by simp
qed

lemma be_val_less: "be_val bs < 256 ^ length bs"
proof (induction bs rule: rev_induct)
  case Nil
  then show ?case by simp
next
  case (snoc b bs)
  have "unat b < 256"
    using unsigned_less [of b, where ?'a = nat] by simp
  moreover have "be_val bs * 256 + 256 \<le> 256 ^ length bs * 256"
    using snoc by (metis Suc_leI add.commute mult_Suc mult_le_mono1)
  ultimately show ?case by simp
qed

lemma be_digits_be_val: "be_digits (length bs) (be_val bs) = bs"
proof (induction bs rule: rev_induct)
  case Nil
  then show ?case by simp
next
  case (snoc b bs)
  have "unat b < 256"
    using unsigned_less [of b, where ?'a = nat] by simp
  with snoc show ?case by simp
qed

lemma be_val_zeros: "be_val (replicate k 0 @ bs) = be_val bs"
proof (induction bs rule: rev_induct)
  case Nil
  show ?case
  proof (induction k)
    case (Suc k)
    have "be_val (replicate (Suc k) 0) = be_val (replicate k 0 @ [0])"
      by (simp add: replicate_append_same)
    with Suc show ?case by simp
  qed simp
next
  case (snoc b bs)
  then show ?case
    by (simp flip: append_assoc)
qed

lemma be_val_strip: "be_val (dropWhile (\<lambda>b. b = 0) bs) = be_val bs"
proof -
  have "takeWhile (\<lambda>b. b = 0) bs = replicate (length (takeWhile (\<lambda>b. b = 0) bs)) 0"
    by (metis (mono_tags, lifting) replicate_length_same set_takeWhileD)
  then have "be_val bs = be_val (replicate (length (takeWhile (\<lambda>b. b = 0) bs)) 0
       @ dropWhile (\<lambda>b. b = 0) bs)"
    by (metis takeWhile_dropWhile_id)
  then show ?thesis
    by (simp add: be_val_zeros)
qed

lemma from_to_be_bytes:
  assumes "8 dvd LENGTH('a)"
  shows "from_be_bytes (to_be_bytes w) = (w :: 'a::len word)"
proof -
  have "(256 :: nat) ^ (LENGTH('a) div 8) = 2 ^ (8 * (LENGTH('a) div 8))"
    by (simp add: power_mult)
  with assms have "be_val (to_be_bytes w) = unat w mod 2 ^ LENGTH('a)"
    by (simp add: to_be_bytes_def be_val_be_digits)
  also have "\<dots> = unat w"
    by simp
  finally show ?thesis
    by (simp add: from_be_bytes_def)
qed

lemma length_to_be_bytes [simp]: "length (to_be_bytes (w :: 'a::len word)) = LENGTH('a) div 8"
  by (simp add: to_be_bytes_def)

section \<open>Fixed-size byte arrays\<close>

text \<open>
  \<^verbatim>\<open>struct $name([u8; $size])\<close> of \<^verbatim>\<open>byte_array_newtype!\<close>, with the size as a type argument:
  \<^verbatim>\<open>Address\<close>, \<^verbatim>\<open>B256\<close> and \<^verbatim>\<open>Bloom\<close> are its instances at 20, 32 and 256.
\<close>

typedef (overloaded) ('n::len) byte_array = "{bs :: bytes. length bs = LENGTH('n)}"
  morphisms as_bytes Abs_byte_array
  by (rule exI [of _ "replicate LENGTH('n) 0"]) simp

text \<open>
  The array that holds the given bytes; a list of another length is cut or padded, so the
  function is total, but the model only applies it to lists of the right length.
\<close>

definition byte_array :: "bytes \<Rightarrow> 'n::len byte_array" where
  "byte_array bs = Abs_byte_array (take LENGTH('n) (bs @ replicate LENGTH('n) 0))"

lemma length_as_bytes [simp]: "length (as_bytes (a :: 'n::len byte_array)) = LENGTH('n)"
  using as_bytes [of a] by simp

lemma as_bytes_byte_array:
  "as_bytes (byte_array bs :: 'n::len byte_array) = take LENGTH('n) (bs @ replicate LENGTH('n) 0)"
  by (simp add: byte_array_def Abs_byte_array_inverse)

lemma as_bytes_byte_array_id [simp]:
  "length bs = LENGTH('n) \<Longrightarrow> as_bytes (byte_array bs :: 'n::len byte_array) = bs"
  by (simp add: as_bytes_byte_array)

lemma byte_array_as_bytes [simp]: "byte_array (as_bytes a) = a"
  by (simp add: byte_array_def as_bytes_inverse)

lemma as_bytes_eq_iff: "as_bytes a = as_bytes b \<longleftrightarrow> a = b"
  by (simp add: as_bytes_inject)

lemma byte_array_eq_iff:
  "length xs = LENGTH('n) \<Longrightarrow> length ys = LENGTH('n) \<Longrightarrow>
     (byte_array xs :: 'n::len byte_array) = byte_array ys \<longleftrightarrow> xs = ys"
  by (metis as_bytes_byte_array_id)

instantiation byte_array :: (len) equal
begin

definition equal_byte_array :: "'a byte_array \<Rightarrow> 'a byte_array \<Rightarrow> bool" where
  "equal_byte_array a b = (as_bytes a = as_bytes b)"

instance
  by standard (simp add: equal_byte_array_def as_bytes_eq_iff)

end

lemma byte_array_abstype [code abstype]: "Abs_byte_array (as_bytes a) = a"
  by (rule as_bytes_inverse)

declare as_bytes_byte_array [code]

type_synonym address = "20 byte_array"
type_synonym b256 = "32 byte_array"
type_synonym bloom = "256 byte_array"

section \<open>Hash maps\<close>

type_synonym ('k, 'v) hash_map = "('k \<times> 'v) list"

definition hm_contains :: "('k, 'v) hash_map \<Rightarrow> 'k \<Rightarrow> bool" where
  "hm_contains m k \<longleftrightarrow> map_of m k \<noteq> None"

text \<open>The invariant every hash map of the model keeps: no key occurs twice.\<close>

abbreviation hm_ok :: "('k, 'v) hash_map \<Rightarrow> bool" where
  "hm_ok m \<equiv> distinct (map fst m)"

lemma hm_ok_update: "hm_ok m \<Longrightarrow> hm_ok (AList.update k v m)"
  by (rule distinct_update)

lemma hm_ok_delete: "hm_ok m \<Longrightarrow> hm_ok (AList.delete k m)"
  by (rule distinct_delete)

lemma length_hm_delete: "k \<in> fst ` set m \<Longrightarrow> length (AList.delete k m) < length m"
  by (induction m) (auto simp: le_imp_less_Suc length_delete_le)

lemmas hm_simps = update_conv' delete_conv' hm_contains_def

end
