(* ===== verification/Eth_Types.thy ===== *)
theory Eth_Types
  imports Prelude
begin

unbundle bit_operations_syntax

text \<open>
  The crate \<^verbatim>\<open>core/types\<close>: hexadecimal parsing and printing of the byte-array types, the bloom
  filter, opcodes, accounts, headers, blocks, transactions and their fee arithmetic, the genesis
  configuration and the chain head. Features are the default ones: the \<^verbatim>\<open>optimism\<close> feature and
  with it \<^verbatim>\<open>Transaction::Deposit\<close> are off.

  Text is the list of its UTF-8 bytes; \<^verbatim>\<open>char\<close>s that the code makes from a byte are that byte.
\<close>

section \<open>Hexadecimal text (error.rs, macros.rs)\<close>

datatype parse_error =
    WrongLength usize usize
  | InvalidHex u8 usize
  | OddHexLength usize
  | BitOutOfRange usize

definition ascii :: "string \<Rightarrow> bytes" where
  "ascii s = map of_char s"

definition starts_with :: "bytes \<Rightarrow> bytes \<Rightarrow> bool" where
  "starts_with s p \<longleftrightarrow> take (length p) s = p"

definition check_hex_char :: "u8 \<Rightarrow> u8 option" where
  "check_hex_char c =
     (if 0x30 \<le> c \<and> c \<le> 0x39 then Some (c - 0x30)
      else if 0x61 \<le> c \<and> c \<le> 0x66 then Some (c - 0x61 + 10)
      else if 0x41 \<le> c \<and> c \<le> 0x46 then Some (c - 0x41 + 10)
      else None)"

text \<open>The loop over \<^verbatim>\<open>chunks(2).enumerate()\<close>; a last chunk of one byte has no \<^verbatim>\<open>chunk[1]\<close>.\<close>

definition high_index :: "bool \<Rightarrow> usize \<Rightarrow> usize" where
  "high_index starts_with_0x i = (if starts_with_0x then i * 2 + 2 else i * 2)"

fun decode_hex_loop :: "bool \<Rightarrow> usize \<Rightarrow> bytes \<Rightarrow> (bytes, parse_error) outcome" where
  "decode_hex_loop starts_with_0x i [] = Ok []"
| "decode_hex_loop starts_with_0x i [high] = Panic"
| "decode_hex_loop starts_with_0x i (high # low # rest) =
     (case check_hex_char high of
        None \<Rightarrow> Err (InvalidHex high (high_index starts_with_0x i))
      | Some high_val \<Rightarrow>
          (case check_hex_char low of
             None \<Rightarrow> Err (InvalidHex low (high_index starts_with_0x i + 1))
           | Some low_val \<Rightarrow>
               and_then (decode_hex_loop starts_with_0x (i + 1) rest)
                 (\<lambda>bs. Ok ((push_bit 4 high_val OR low_val) # bs))))"

definition decode_hex :: "bytes \<Rightarrow> (bytes, parse_error) outcome" where
  "decode_hex s =
     (if s = [] then Ok []
      else if length s mod 2 \<noteq> 0 then Err (OddHexLength (length s))
      else
        let starts_with_0x = starts_with s (ascii ''0x'') \<or> starts_with s (ascii ''0X'');
            hex_str = (if starts_with_0x then drop 2 s else s)
        in decode_hex_loop starts_with_0x 0 hex_str)"

text \<open>\<^verbatim>\<open>TryFrom<&[u8]>\<close> and \<^verbatim>\<open>FromStr\<close> of the byte-array types.\<close>

definition try_from :: "bytes \<Rightarrow> ('n::len byte_array, parse_error) outcome" where
  "try_from value =
     (if length value = LENGTH('n) then Ok (byte_array value)
      else Err (WrongLength LENGTH('n) (length value)))"

definition from_str :: "bytes \<Rightarrow> ('n::len byte_array, parse_error) outcome" where
  "from_str s = and_then (decode_hex s) try_from"

definition zero_array :: "'n::len byte_array" where
  "zero_array = byte_array (replicate LENGTH('n) 0)"

text \<open>The formatting impls: \<^verbatim>\<open>{:02x}\<close> and \<^verbatim>\<open>{:02X}\<close> of a byte are its two hex digits.\<close>

definition hex_digit :: "u8 \<Rightarrow> u8 \<Rightarrow> u8" where
  "hex_digit a n = (if n < 10 then 0x30 + n else a + (n - 10))"

definition fmt_byte :: "u8 \<Rightarrow> u8 \<Rightarrow> bytes" where
  "fmt_byte a b = [hex_digit a (drop_bit 4 b), hex_digit a (b AND 0x0f)]"

definition display :: "'n::len byte_array \<Rightarrow> bytes" where
  "display a = ascii ''0x'' @ concat (map (fmt_byte 0x61) (as_bytes a))"

definition lower_hex :: "bool \<Rightarrow> 'n::len byte_array \<Rightarrow> bytes" where
  "lower_hex alternate a =
     (if alternate then ascii ''0x'' else []) @ concat (map (fmt_byte 0x61) (as_bytes a))"

definition upper_hex :: "bool \<Rightarrow> 'n::len byte_array \<Rightarrow> bytes" where
  "upper_hex alternate a =
     (if alternate then ascii ''0x'' else []) @ concat (map (fmt_byte 0x41) (as_bytes a))"

definition fmt_debug :: "bytes \<Rightarrow> 'n::len byte_array \<Rightarrow> bytes" where
  "fmt_debug name a = name @ ascii ''('' @ display a @ ascii '')''"

subsection \<open>Parsing what was printed\<close>

lemma check_hex_digit:
  assumes "n < 16" and "a = 0x61 \<or> a = 0x41"
  shows "check_hex_char (hex_digit a n) = Some n \<and> hex_digit a n \<noteq> 0x78 \<and> hex_digit a n \<noteq> 0x58"
  using assms(2)
proof
  assume a: "a = 0x61"
  show ?thesis
    unfolding a
    by (rule nibble_induct [OF assms(1)]) (simp add: check_hex_char_def hex_digit_def)
next
  assume a: "a = 0x41"
  show ?thesis
    unfolding a
    by (rule nibble_induct [OF assms(1)]) (simp add: check_hex_char_def hex_digit_def)
qed

lemma nibbles_bounds: "drop_bit 4 (b :: u8) < 16" "(b :: u8) AND 0x0f < 16"
proof -
  have "unat b div 16 < 16"
    using unsigned_less [of b, where ?'a = nat] by simp
  then show "drop_bit 4 b < 16"
    by (simp add: word_less_nat_alt drop_bit_eq_div unat_div)
  have "b AND 0x0f \<le> 0x0f" by (rule word_and_le1)
  then show "b AND 0x0f < 16"
    by (rule le_less_trans) simp
qed

lemma join_nibbles: "push_bit 4 (drop_bit 4 b) OR (b AND 0x0f) = (b :: u8)"
proof -
  have m: "(0x0f :: u8) = mask 4" by (simp add: mask_eq_exp_minus_1)
  show ?thesis
    unfolding m by (rule bit_word_eqI) (auto simp: bit_simps)
qed

lemma decode_hex_loop_fmt:
  assumes "a = 0x61 \<or> a = 0x41"
  shows "decode_hex_loop p i (concat (map (fmt_byte a) bs)) = Ok bs"
  using assms
  by (induction bs arbitrary: i)
     (auto simp: fmt_byte_def check_hex_digit nibbles_bounds join_nibbles)

lemma length_fmt: "length (concat (map (fmt_byte a) bs)) = 2 * length bs"
  by (induction bs) (auto simp: fmt_byte_def)

lemma ascii_0x: "ascii ''0x'' = [0x30, 0x78]" "ascii ''0X'' = [0x30, 0x58]"
  by (simp_all add: ascii_def)

lemma decode_hex_fmt_prefix:
  assumes "a = 0x61 \<or> a = 0x41"
  shows "decode_hex (ascii ''0x'' @ concat (map (fmt_byte a) bs)) = Ok bs"
  using decode_hex_loop_fmt [OF assms]
  by (simp add: decode_hex_def length_fmt ascii_0x starts_with_def)

lemma decode_hex_fmt:
  assumes "a = 0x61 \<or> a = 0x41"
  shows "decode_hex (concat (map (fmt_byte a) bs)) = Ok bs"
proof (cases bs)
  case Nil
  then show ?thesis by (simp add: decode_hex_def)
next
  case (Cons b bs')
  have "hex_digit a (b AND 0x0f) \<noteq> 0x78" "hex_digit a (b AND 0x0f) \<noteq> 0x58"
    using check_hex_digit [OF nibbles_bounds(2) assms] by blast+
  then have "\<not> starts_with (concat (map (fmt_byte a) bs)) (ascii ''0x'')"
    "\<not> starts_with (concat (map (fmt_byte a) bs)) (ascii ''0X'')"
    by (auto simp: starts_with_def ascii_0x Cons fmt_byte_def)
  moreover have "concat (map (fmt_byte a) bs) \<noteq> []"
    by (simp add: Cons fmt_byte_def)
  ultimately show ?thesis
    using decode_hex_loop_fmt [OF assms, of False 0 bs] 
    by (simp add: decode_hex_def length_fmt del: concat_eq_Nil_conv)
qed

lemma try_from_as_bytes [simp]: "try_from (as_bytes a) = Ok a"
  by (simp add: try_from_def)

lemma try_from_Ok_iff: "try_from bs = Ok a \<longleftrightarrow> as_bytes a = bs"
  by (auto simp: try_from_def)

lemma try_from_not_Panic [simp]: "try_from bs \<noteq> Panic"
  by (simp add: try_from_def)

text \<open>
  Printing and parsing a byte-array value are inverse: \<^verbatim>\<open>from_str\<close> returns the value from
  its \<^verbatim>\<open>Display\<close> text and from its \<^verbatim>\<open>LowerHex\<close> and \<^verbatim>\<open>UpperHex\<close> texts, with and without \<^verbatim>\<open>0x\<close>.
\<close>

theorem from_str_roundtrip:
  "from_str (display a) = Ok a \<and>
   from_str (lower_hex alternate a) = Ok a \<and>
   from_str (upper_hex alternate a) = Ok a"
  by (cases alternate)
     (simp_all add: from_str_def display_def lower_hex_def upper_hex_def
        decode_hex_fmt_prefix decode_hex_fmt)

text \<open>The loop stops at the first character that is no hex digit.\<close>

lemma decode_hex_loop_no_panic: "even (length s) \<Longrightarrow> decode_hex_loop p i s \<noteq> Panic"
  by (induction p i s rule: decode_hex_loop.induct)
     (auto simp: outcome_iffs split: option.splits)

lemma decode_hex_loop_length:
  "even (length s) \<Longrightarrow> decode_hex_loop p i s = Ok bs \<Longrightarrow> length s = 2 * length bs"
  by (induction p i s arbitrary: bs rule: decode_hex_loop.induct)
     (auto simp: outcome_iffs split: option.splits)

lemma decode_hex_loop_error:
  "even (length s) \<Longrightarrow> decode_hex_loop p i s = Err e \<Longrightarrow>
     \<exists>j < length s. e = InvalidHex (s ! j) (high_index p i + j) \<and>
       check_hex_char (s ! j) = None \<and> (\<forall>k < j. check_hex_char (s ! k) \<noteq> None)"
proof (induction p i s rule: decode_hex_loop.induct)
  case (3 p i high low rest)
  show ?case
  proof (cases "check_hex_char high")
    case None
    with 3 show ?thesis by (intro exI [of _ 0]) auto
  next
    case high: (Some h)
    show ?thesis
    proof (cases "check_hex_char low")
      case None
      with 3 high show ?thesis
        by (intro exI [of _ 1]) auto
    next
      case (Some l)
      have "decode_hex_loop p (i + 1) rest = Err e" "even (length rest)"
        using 3 high Some by (simp_all add: outcome_iffs)
      with 3(1) [OF high Some] obtain j where "j < length rest"
        and "e = InvalidHex (rest ! j) (high_index p (i + 1) + j)"
        and "check_hex_char (rest ! j) = None" "\<forall>k < j. check_hex_char (rest ! k) \<noteq> None"
        by blast
      with high Some show ?thesis
        by (intro exI [of _ "j + 2"]) (auto simp: high_index_def nth_Cons')
    qed
  qed
qed auto

text \<open>
  \<^verbatim>\<open>decode_hex\<close> always returns: it never indexes past a chunk. On success the digits after an
  optional \<^verbatim>\<open>0x\<close> are twice as many as the bytes; an \<^verbatim>\<open>InvalidHex(c, i)\<close> error names the first
  character of the whole input, prefix included in the count, that is no hex digit.
\<close>

theorem decode_hex_total:
  "decode_hex s \<noteq> Panic \<and>
   (\<forall>bs. decode_hex s = Ok bs \<longrightarrow> length s = 2 * length bs \<or> length s = 2 * length bs + 2) \<and>
   (\<forall>c i. decode_hex s = Err (InvalidHex c i) \<longrightarrow>
      i < length s \<and> s ! i = c \<and> check_hex_char c = None \<and>
      (\<forall>k. (2 \<le> k \<or> \<not> starts_with s (ascii ''0x'') \<and> \<not> starts_with s (ascii ''0X'')) \<and> k < i
         \<longrightarrow> check_hex_char (s ! k) \<noteq> None))"
proof (cases "s \<noteq> [] \<and> even (length s)")
  case False
  then show ?thesis by (auto simp: decode_hex_def)
next
  case s: True
  define p where "p \<longleftrightarrow> starts_with s (ascii ''0x'') \<or> starts_with s (ascii ''0X'')"
  define k0 :: nat where "k0 = (if p then 2 else 0)"
  have dec: "decode_hex s = decode_hex_loop p 0 (drop k0 s)"
    using s by (simp add: decode_hex_def p_def k0_def Let_def)
  have hi: "high_index p 0 = k0"
    by (simp add: high_index_def k0_def)
  have "length s \<noteq> 0" "length s \<noteq> 1"
    using s by auto
  then have "2 \<le> length s" by linarith
  then have k0: "k0 \<le> length s" "even k0"
    by (simp_all add: k0_def)
  then have even: "even (length (drop k0 s))"
    using s by simp
  show ?thesis
  proof (intro conjI allI impI)
    show "decode_hex s \<noteq> Panic"
      using dec decode_hex_loop_no_panic [OF even] by simp
    show "length s = 2 * length bs \<or> length s = 2 * length bs + 2" if "decode_hex s = Ok bs" for bs
      using decode_hex_loop_length [OF even, of p 0 bs] that k0
      unfolding dec k0_def by (auto split: if_splits)
  next
    fix c i
    assume "decode_hex s = Err (InvalidHex c i)"
    then have "\<exists>j < length (drop k0 s). InvalidHex c i = InvalidHex (drop k0 s ! j) (k0 + j) \<and>
        check_hex_char (drop k0 s ! j) = None \<and> (\<forall>k < j. check_hex_char (drop k0 s ! k) \<noteq> None)"
      using decode_hex_loop_error [OF even, of p 0] unfolding dec hi by blast
    then obtain j where j: "k0 + j < length s" "i = k0 + j" "c = s ! (k0 + j)"
      "check_hex_char c = None" "\<forall>k < j. check_hex_char (s ! (k0 + k)) \<noteq> None"
      using k0(1) by (auto simp: less_diff_conv add.commute)
    then show "i < length s" "s ! i = c" "check_hex_char c = None"
      by simp_all
    fix k
    assume "(2 \<le> k \<or> \<not> starts_with s (ascii ''0x'') \<and> \<not> starts_with s (ascii ''0X'')) \<and> k < i"
    then have "k0 \<le> k" "k - k0 < j"
      using j(2) by (auto simp: k0_def p_def split: if_splits)
    with j(5) [rule_format, of "k - k0"] show "check_hex_char (s ! k) \<noteq> None"
      by simp
  qed
qed

theorem decode_hex_total_witness:
  "decode_hex (ascii ''0xag'') = Err (InvalidHex 0x67 3) \<and> check_hex_char 0x67 = None \<and>
   check_hex_char (ascii ''0xag'' ! 2) \<noteq> None"
proof -
  have "decode_hex (ascii ''0xag'') = Err (InvalidHex 0x67 3)"
    by code_simp
  then show ?thesis
    using decode_hex_total [of "ascii ''0xag''"] by simp
qed

section \<open>The bloom filter (bloom.rs)\<close>

definition bitor_assign :: "bloom \<Rightarrow> bloom \<Rightarrow> bloom" where
  "bitor_assign self rhs = byte_array (map2 (OR) (as_bytes self) (as_bytes rhs))"

definition set_bit :: "bloom \<Rightarrow> usize \<Rightarrow> (bloom, parse_error) outcome" where
  "set_bit self b =
     (if b \<ge> 2048 then Err (BitOutOfRange b)
      else
        let byte_index = b div 8; bit_index = b mod 8
        in and_then (index (as_bytes self) byte_index) (\<lambda>byte.
           and_then (store (as_bytes self) byte_index (byte OR push_bit bit_index 1)) (\<lambda>arr.
           Ok (byte_array arr))))"

definition has_bit :: "bloom \<Rightarrow> usize \<Rightarrow> (bool, parse_error) outcome" where
  "has_bit self b =
     (if b \<ge> 2048 then Err (BitOutOfRange b)
      else
        let byte_index = b div 8; bit_index = b mod 8
        in and_then (index (as_bytes self) byte_index) (\<lambda>byte.
           Ok (byte AND push_bit bit_index 1 \<noteq> 0)))"

lemma has_bit_eq: "b < 2048 \<Longrightarrow> has_bit bl b = Ok (bit (as_bytes bl ! (b div 8)) (b mod 8))"
  by (simp add: has_bit_def Let_def slice_defs and_exp_eq_0_iff_not_bit less_mult_imp_div_less)

lemma set_bit_Ok:
  "b < 2048 \<Longrightarrow> \<exists>bl'. set_bit bl b = Ok bl' \<and>
     as_bytes bl' = (as_bytes bl)[b div 8 := as_bytes bl ! (b div 8) OR push_bit (b mod 8) 1]"
  by (simp add: set_bit_def Let_def slice_defs less_mult_imp_div_less)

text \<open>
  Setting bit \<open>b\<close> of a bloom filter succeeds exactly for \<open>b < 2048\<close>, never panics, and
  afterwards \<^verbatim>\<open>has_bit\<close> is true at \<open>b\<close> and unchanged at every other index.
\<close>

theorem set_bit_has_bit:
  "(if b < 2048
    then \<exists>bl'. set_bit bl b = Ok bl' \<and>
           (\<forall>c. has_bit bl' c = (if c = b then Ok True else has_bit bl c))
    else set_bit bl b = Err (BitOutOfRange b) \<and> has_bit bl b = Err (BitOutOfRange b))"
proof (cases "b < 2048")
  case False
  then show ?thesis by (simp add: set_bit_def has_bit_def)
next
  case True
  then obtain bl' where bl': "set_bit bl b = Ok bl'"
    "as_bytes bl' = (as_bytes bl)[b div 8 := as_bytes bl ! (b div 8) OR push_bit (b mod 8) 1]"
    using set_bit_Ok by blast
  have "has_bit bl' c = (if c = b then Ok True else has_bit bl c)" for c
  proof (cases "c < 2048")
    case c: True
    have "c = b \<longleftrightarrow> c div 8 = b div 8 \<and> c mod 8 = b mod 8"
      by (metis div_mult_mod_eq)
    with c True show ?thesis
      by (auto simp: has_bit_eq bl'(2) nth_list_update bit_simps)
  next
    case False
    with True show ?thesis by (auto simp: has_bit_def)
  qed
  with True bl'(1) show ?thesis by auto
qed

text \<open>Bloom union is bitwise or of the two filters.\<close>

lemma bitor_assign_has_bit:
  "b < 2048 \<Longrightarrow> has_bit (bitor_assign x y) b = Ok True \<longleftrightarrow> has_bit x b = Ok True \<or> has_bit y b = Ok True"
  by (simp add: has_bit_eq bitor_assign_def bit_simps)

lemma bitor_assign_zero [simp]: "bitor_assign x zero_array = x"
proof -
  have "map2 (OR) xs (replicate (length xs) 0) = (xs :: bytes)" for xs
    by (induction xs) auto
  from this [of "as_bytes x"] show ?thesis
    by (simp add: bitor_assign_def zero_array_def)
qed

section \<open>Opcodes (opcode.rs)\<close>

datatype opcode = STOP | ADD | MUL | SUB | SLOAD | SSTORE | PUSH1 | CALL | RETURN

datatype opcode_error = UnknownOpcode u8

fun opcode_byte :: "opcode \<Rightarrow> u8" where
  "opcode_byte STOP = 0x00"
| "opcode_byte ADD = 0x01"
| "opcode_byte MUL = 0x02"
| "opcode_byte SUB = 0x03"
| "opcode_byte SLOAD = 0x54"
| "opcode_byte SSTORE = 0x55"
| "opcode_byte PUSH1 = 0x60"
| "opcode_byte CALL = 0xf1"
| "opcode_byte RETURN = 0xf3"

definition opcode_from_byte :: "u8 \<Rightarrow> (opcode, opcode_error) outcome" where
  "opcode_from_byte byte =
     (if byte = 0x00 then Ok STOP
      else if byte = 0x01 then Ok ADD
      else if byte = 0x02 then Ok MUL
      else if byte = 0x03 then Ok SUB
      else if byte = 0x54 then Ok SLOAD
      else if byte = 0x55 then Ok SSTORE
      else if byte = 0x60 then Ok PUSH1
      else if byte = 0xf1 then Ok CALL
      else if byte = 0xf3 then Ok RETURN
      else Err (UnknownOpcode byte))"

text \<open>A byte decodes to an opcode exactly when it is that opcode's byte.\<close>

lemma opcode_from_byte_iff: "opcode_from_byte b = Ok op \<longleftrightarrow> opcode_byte op = b"
  by (cases op) (auto simp: opcode_from_byte_def)

end
