(* ===== verification/Chain_Types.thy ===== *)
theory Chain_Types
  imports Eth_Types
begin

text \<open>
  The crate \<^verbatim>\<open>core/types\<close>, continued: the structs and enums every other crate shares (accounts,
  headers, transactions, signed transactions, blocks, genesis configuration, chain head) and the
  fee arithmetic of transactions. Record fields carry a short prefix where the source reuses a
  field name across structs.
\<close>

section \<open>Accounts, headers, chain head\<close>

record account =
  acc_balance :: u128
  acc_nonce :: u64
  acc_code_hash :: b256

definition acc_is_empty :: "account \<Rightarrow> bool" where
  "acc_is_empty a \<longleftrightarrow> acc_balance a = 0 \<and> acc_nonce a = 0 \<and> acc_code_hash a = zero_array"

definition default_hash :: b256 where
  "default_hash = byte_array
     [0xc5, 0xd2, 0x46, 0x01, 0x86, 0xf7, 0x23, 0x3c, 0x92, 0x7e, 0x7d, 0xb2, 0xdc, 0xc7,
      0x03, 0xc0, 0xe5, 0x00, 0xb6, 0x53, 0xca, 0x82, 0x27, 0x3b, 0x7b, 0xfa, 0xd8, 0x04,
      0x5d, 0x85, 0xa4, 0x70]"

definition default_account :: account where
  "default_account = \<lparr>acc_balance = 0, acc_nonce = 0, acc_code_hash = default_hash\<rparr>"

record header =
  parent_hash :: b256
  beneficiary :: address
  state_root :: b256
  transactions_root :: b256
  gas_limit :: u64
  gas_used :: u64
  timestamp :: u64
  number :: u64

record chain_head =
  head_number :: u64
  head_hash :: b256
  head_total_difficulty :: u128

definition default_chain_head :: chain_head where
  "default_chain_head =
     \<lparr>head_number = 0, head_hash = zero_array, head_total_difficulty = 0\<rparr>"

section \<open>Transactions and blocks\<close>

record access_list_item =
  al_address :: address
  storage_keys :: "b256 list"

datatype transaction =
    is_Legacy: Legacy (tx_nonce: u64) (tx_gas_price: u128) (tx_gas_limit: u64) (tx_to: "address option")
      (tx_value: u128) (tx_data: bytes)
  | is_Eip1559: Eip1559 (tx_nonce: u64) (max_priority_fee_per_gas: u128) (max_fee_per_gas: u128)
      (tx_gas_limit: u64) (tx_to: "address option") (tx_value: u128) (tx_data: bytes)
      (access_list: "access_list_item list")
  | is_Eip4844: Eip4844 (tx_nonce: u64) (max_priority_fee_per_gas: u128) (max_fee_per_gas: u128)
      (max_fee_per_blob_gas: u128) (tx_gas_limit: u64) (tx_to: "address option") (tx_value: u128)
      (tx_data: bytes) (access_list: "access_list_item list") (blob_versioned_hashes: "b256 list")

record signed_transaction =
  transaction :: transaction
  sig_v :: u64
  sig_r :: b256
  sig_s :: b256

record block =
  block_header :: header
  transactions :: "signed_transaction list"

section \<open>Errors (transaction\_error.rs)\<close>

datatype decode_error =
    UnexpectedPrefix u8
  | DecodeInputTooShort usize usize
  | InvalidStructure bytes
  | OtherError bytes

datatype transaction_error =
    TxInsufficientBalance u128 u128
  | TxOutOfGas u64 u64
  | TxInvalidNonce u64 u64
  | TxOverflow
  | TxInsufficientMaxFee u128 u128
  | TxDecode decode_error

section \<open>Operations of a transaction (transaction.rs)\<close>

definition tx_type :: "transaction \<Rightarrow> (u8, transaction_error) outcome" where
  "tx_type tx =
     (case tx of
        Legacy _ _ _ _ _ _ \<Rightarrow> Ok 0
      | Eip1559 _ _ _ _ _ _ _ _ \<Rightarrow> Ok 2
      | Eip4844 _ _ _ _ _ _ _ _ _ _ \<Rightarrow> Ok 3)"

definition is_create :: "transaction \<Rightarrow> (bool, transaction_error) outcome" where
  "is_create tx = Ok (tx_to tx = None)"

definition dynamic_gas_price :: "u128 \<Rightarrow> u128 \<Rightarrow> u128 \<Rightarrow> (u128, transaction_error) outcome" where
  "dynamic_gas_price base_fee max_fee max_priority_fee =
     (if base_fee > max_fee then Err (TxInsufficientMaxFee base_fee max_fee)
      else
        and_then (ok_or TxOverflow (checked_add base_fee max_priority_fee)) (\<lambda>addition.
        Ok (min max_fee addition)))"

definition effective_gas_price :: "transaction \<Rightarrow> u128 \<Rightarrow> (u128, transaction_error) outcome" where
  "effective_gas_price tx base_fee =
     (case tx of
        Legacy _ gas_price _ _ _ _ \<Rightarrow> Ok gas_price
      | Eip1559 _ max_priority_fee max_fee _ _ _ _ _ \<Rightarrow>
          dynamic_gas_price base_fee max_fee max_priority_fee
      | Eip4844 _ max_priority_fee max_fee _ _ _ _ _ _ _ \<Rightarrow>
          dynamic_gas_price base_fee max_fee max_priority_fee)"

definition cost_at :: "u128 \<Rightarrow> u64 \<Rightarrow> u128 \<Rightarrow> (u128, transaction_error) outcome" where
  "cost_at price limit value =
     and_then (ok_or TxOverflow (checked_mul price (ucast limit))) (\<lambda>multiplication.
     ok_or TxOverflow (checked_add multiplication value))"

definition max_cost :: "transaction \<Rightarrow> (u128, transaction_error) outcome" where
  "max_cost tx =
     (case tx of
        Legacy _ gas_price limit _ value _ \<Rightarrow> cost_at gas_price limit value
      | Eip1559 _ _ max_fee limit _ value _ _ \<Rightarrow> cost_at max_fee limit value
      | Eip4844 _ _ max_fee _ limit _ value _ _ _ \<Rightarrow> cost_at max_fee limit value)"

record transaction_summary =
  total_value :: u128
  total_gas_limit :: u64
  create_count :: usize
  tx_count :: usize

fun summarise_loop :: "transaction list \<Rightarrow> u128 \<Rightarrow> u64 \<Rightarrow> usize \<Rightarrow>
    (u128 \<times> u64 \<times> usize, transaction_error) outcome" where
  "summarise_loop [] value limit creates = Ok (value, limit, creates)"
| "summarise_loop (tx # txs) value limit creates =
     and_then (ok_or TxOverflow (checked_add (tx_value tx) value)) (\<lambda>value'.
     and_then (ok_or TxOverflow (checked_add (tx_gas_limit tx) limit)) (\<lambda>limit'.
     and_then (is_create tx) (\<lambda>create.
     summarise_loop txs value' limit' (if create then creates + 1 else creates))))"

definition summarise_transactions ::
    "transaction list \<Rightarrow> (transaction_summary, transaction_error) outcome" where
  "summarise_transactions txs =
     and_then (summarise_loop txs 0 0 0) (\<lambda>(value, limit, creates).
     Ok \<lparr>total_value = value, total_gas_limit = limit,
         create_count = creates, tx_count = length txs\<rparr>)"

subsection \<open>Fee arithmetic\<close>

text \<open>The highest price per gas unit a transaction is willing to pay.\<close>

definition fee_cap :: "transaction \<Rightarrow> u128" where
  "fee_cap tx = (case tx of Legacy _ p _ _ _ _ \<Rightarrow> p | _ \<Rightarrow> max_fee_per_gas tx)"

lemma unat_gas_limit [simp]: "unat (ucast (g :: u64) :: u128) = unat g"
  by (rule unat_ucast_up) simp

lemma max_cost_eq: "max_cost tx = cost_at (fee_cap tx) (tx_gas_limit tx) (tx_value tx)"
  by (cases tx) (simp_all add: max_cost_def fee_cap_def)

lemma cost_at_Ok_iff:
  "cost_at p g v = Ok c \<longleftrightarrow> unat p * unat g + unat v < 2 ^ 128 \<and> unat c = unat p * unat g + unat v"
proof -
  have "\<exists>m :: u128. unat m = unat p * unat g" if "unat p * unat g + unat v < 2 ^ 128"
    using that by (intro ex_unat) simp
  then show ?thesis
    by (fastforce simp: cost_at_def outcome_iffs checked_mul_eq_Some checked_add_eq_Some)
qed

lemma cost_at_cases:
  "cost_at p g v = Err TxOverflow \<or> (\<exists>c. cost_at p g v = Ok c)"
  by (auto simp: cost_at_def outcome_iffs split: option.splits)

lemma effective_gas_price_le_cap:
  "effective_gas_price tx base_fee = Ok p \<Longrightarrow> p \<le> fee_cap tx"
  by (cases tx)
     (auto simp: effective_gas_price_def dynamic_gas_price_def fee_cap_def outcome_iffs
        split: if_splits)

text \<open>
  Fees never exceed what a transaction signed for. When both \<^verbatim>\<open>max_cost\<close> and
  \<^verbatim>\<open>effective_gas_price\<close> succeed, the price is at most the fee cap and, charged for the whole gas
  limit plus the transferred value, at most the maximal cost: the executor's own checked
  multiplication and addition at that price cannot overflow.
\<close>

theorem effective_cost_le_max_cost:
  assumes "max_cost tx = Ok c" and "effective_gas_price tx base_fee = Ok p"
  shows "p \<le> fee_cap tx \<and>
    (\<exists>e. cost_at p (tx_gas_limit tx) (tx_value tx) = Ok e \<and> e \<le> c)"
proof -
  let ?g = "unat (tx_gas_limit tx)" and ?v = "unat (tx_value tx)"
  have p: "p \<le> fee_cap tx"
    using assms(2) by (rule effective_gas_price_le_cap)
  have c: "unat c = unat (fee_cap tx) * ?g + ?v" "unat (fee_cap tx) * ?g + ?v < 2 ^ 128"
    using assms(1) by (simp_all add: max_cost_eq cost_at_Ok_iff)
  have le: "unat p * ?g + ?v \<le> unat c"
    using p c by (simp add: word_le_nat_alt)
  have lt: "unat p * ?g + ?v < 2 ^ LENGTH(128)"
    using le unsigned_less [of c, where ?'a = nat] by (rule le_less_trans)
  then obtain e :: u128 where e: "unat e = unat p * ?g + ?v"
    using ex_unat by blast
  have "cost_at p (tx_gas_limit tx) (tx_value tx) = Ok e"
    using lt e by (simp add: cost_at_Ok_iff)
  moreover have "e \<le> c"
    by (simp only: word_le_nat_alt e le)
  ultimately show ?thesis using p by blast
qed

theorem effective_cost_le_max_cost_witness:
  "max_cost (Eip1559 0 2 100 21000 (Some zero_array) 7 [] []) = Ok 2100007 \<and>
   effective_gas_price (Eip1559 0 2 100 21000 (Some zero_array) 7 [] []) 50 = Ok 52 \<and>
   (52 :: u128) \<le> 100"
proof -
  let ?tx = "Eip1559 0 2 100 21000 (Some zero_array) 7 [] []"
  have c: "max_cost ?tx = Ok 2100007"
    by (simp add: max_cost_def cost_at_def checked_mul_def checked_add_def)
  have p: "effective_gas_price ?tx 50 = Ok 52"
    by (simp add: effective_gas_price_def dynamic_gas_price_def checked_add_def)
  show ?thesis
    using c p effective_cost_le_max_cost [OF c p] by (simp add: fee_cap_def)
qed

lemma max_cost_Ok_iff:
  "max_cost tx = Ok c \<longleftrightarrow>
     unat (fee_cap tx) * unat (tx_gas_limit tx) + unat (tx_value tx) < 2 ^ 128 \<and>
     unat c = unat (fee_cap tx) * unat (tx_gas_limit tx) + unat (tx_value tx)"
  by (simp add: max_cost_eq cost_at_Ok_iff)

lemma max_cost_not_Panic [simp]: "max_cost tx \<noteq> Panic"
  using cost_at_cases by (metis max_cost_eq outcome.distinct(5) outcome.distinct(3))

lemma effective_gas_price_not_Panic [simp]: "effective_gas_price tx base_fee \<noteq> Panic"
  by (cases tx) (simp_all add: effective_gas_price_def dynamic_gas_price_def outcome_iffs)

text \<open>
  \<^verbatim>\<open>effective_gas_price\<close> on every branch: a legacy transaction pays its price; a dynamic-fee
  transaction pays the smaller of its fee cap and base fee plus tip, fails with
  \<^verbatim>\<open>InsufficientMaxFee\<close> exactly when the base fee is above the cap, and otherwise with
  \<^verbatim>\<open>Overflow\<close> exactly when base fee plus tip does not fit 128 bits.
\<close>

theorem effective_gas_price_cases:
  "(case tx of
      Legacy _ p _ _ _ _ \<Rightarrow> effective_gas_price tx base_fee = Ok p
    | _ \<Rightarrow>
        let cap = max_fee_per_gas tx;
            tipped = unat base_fee + unat (max_priority_fee_per_gas tx)
        in if base_fee > cap
           then effective_gas_price tx base_fee = Err (TxInsufficientMaxFee base_fee cap)
           else if tipped \<ge> 2 ^ 128 then effective_gas_price tx base_fee = Err TxOverflow
           else \<exists>p. effective_gas_price tx base_fee = Ok p \<and>
                  unat p = min (unat cap) tipped \<and> base_fee \<le> p \<and> p \<le> cap)"
proof -
  have "(if base_fee > cap then dynamic_gas_price base_fee cap tip = Err (TxInsufficientMaxFee base_fee cap)
     else if unat base_fee + unat tip \<ge> 2 ^ 128 then dynamic_gas_price base_fee cap tip = Err TxOverflow
     else \<exists>p. dynamic_gas_price base_fee cap tip = Ok p \<and>
            unat p = min (unat cap) (unat base_fee + unat tip) \<and> base_fee \<le> p \<and> p \<le> cap)"
    for cap tip :: u128
  proof (cases "unat base_fee + unat tip < 2 ^ 128 \<and> base_fee \<le> cap")
    case True
    then obtain a :: u128 where a: "checked_add base_fee tip = Some a" "unat a = unat base_fee + unat tip"
      using checked_add_eq_Some [of base_fee tip] by (auto simp: checked_add_def)
    with True show ?thesis
      by (auto simp: dynamic_gas_price_def word_le_nat_alt min_def)
  next
    case False
    then show ?thesis
      by (auto simp: dynamic_gas_price_def checked_add_def)
  qed
  then show ?thesis
    by (cases tx) (simp_all add: effective_gas_price_def Let_def)
qed

text \<open>The running sums of \<^verbatim>\<open>summarise_transactions\<close>.\<close>

lemma summarise_loop_Ok_iff:
  "summarise_loop txs v g n = Ok (v', g', n') \<longleftrightarrow>
     unat v + (\<Sum>tx\<leftarrow>txs. unat (tx_value tx)) < 2 ^ 128 \<and>
     unat g + (\<Sum>tx\<leftarrow>txs. unat (tx_gas_limit tx)) < 2 ^ 64 \<and>
     unat v' = unat v + (\<Sum>tx\<leftarrow>txs. unat (tx_value tx)) \<and>
     unat g' = unat g + (\<Sum>tx\<leftarrow>txs. unat (tx_gas_limit tx)) \<and>
     n' = n + length (filter (\<lambda>tx. tx_to tx = None) txs)"
proof (induction txs arbitrary: v g n)
  case Nil
  show ?case
    using unsigned_less [of v, where ?'a = nat] unsigned_less [of g, where ?'a = nat]
    by (auto simp: word_unat_eq_iff)
next
  case (Cons tx txs)
  show ?case
  proof (cases "unat (tx_value tx) + unat v < 2 ^ 128 \<and> unat (tx_gas_limit tx) + unat g < 2 ^ 64")
    case True
    then obtain v1 g1 where
      "checked_add (tx_value tx) v = Some v1" "unat v1 = unat (tx_value tx) + unat v"
      "checked_add (tx_gas_limit tx) g = Some g1" "unat g1 = unat (tx_gas_limit tx) + unat g"
      using checked_add_eq_Some [of "tx_value tx" v] checked_add_eq_Some [of "tx_gas_limit tx" g]
      by (auto simp: checked_add_def)
    then show ?thesis
      by (auto simp: Cons.IH is_create_def)
  next
    case False
    then have "checked_add (tx_value tx) v = None \<or> checked_add (tx_gas_limit tx) g = None"
      by (auto simp: checked_add_def)
    with False show ?thesis
      by (auto simp: outcome_iffs)
  qed
qed

lemma summarise_loop_Err: "summarise_loop txs v g n \<noteq> Panic \<and>
    (summarise_loop txs v g n = Err e \<longrightarrow> e = TxOverflow)"
  by (induction txs arbitrary: v g n) (auto simp: outcome_iffs is_create_def)

text \<open>
  \<^verbatim>\<open>summarise_transactions\<close> succeeds exactly when the values sum to a \<^verbatim>\<open>u128\<close> and the gas limits
  to a \<^verbatim>\<open>u64\<close>, and then reports those sums, the number of contract creations and the number of
  transactions; otherwise it reports \<^verbatim>\<open>Overflow\<close>.
\<close>

theorem summarise_transactions_spec:
  "(if (\<Sum>tx\<leftarrow>txs. unat (tx_value tx)) < 2 ^ 128 \<and> (\<Sum>tx\<leftarrow>txs. unat (tx_gas_limit tx)) < 2 ^ 64
    then \<exists>s. summarise_transactions txs = Ok s \<and>
           unat (total_value s) = (\<Sum>tx\<leftarrow>txs. unat (tx_value tx)) \<and>
           unat (total_gas_limit s) = (\<Sum>tx\<leftarrow>txs. unat (tx_gas_limit tx)) \<and>
           create_count s = length (filter (\<lambda>tx. tx_to tx = None) txs) \<and>
           tx_count s = length txs
    else summarise_transactions txs = Err TxOverflow)"
proof (cases "(\<Sum>tx\<leftarrow>txs. unat (tx_value tx)) < 2 ^ 128 \<and> (\<Sum>tx\<leftarrow>txs. unat (tx_gas_limit tx)) < 2 ^ 64")
  case True
  then obtain v :: u128 and g :: u64 where
    "unat v = (\<Sum>tx\<leftarrow>txs. unat (tx_value tx))" "unat g = (\<Sum>tx\<leftarrow>txs. unat (tx_gas_limit tx))"
    using ex_unat [where ?'a = 128] ex_unat [where ?'a = 64] by fastforce
  with True have "summarise_loop txs 0 0 0 = Ok (v, g, length (filter (\<lambda>tx. tx_to tx = None) txs))"
    by (simp add: summarise_loop_Ok_iff)
  with True \<open>unat v = _\<close> \<open>unat g = _\<close> show ?thesis
    by (simp add: summarise_transactions_def)
next
  case False
  then have "summarise_loop txs 0 0 0 \<noteq> Ok r" for r
    by (cases r) (auto simp: summarise_loop_Ok_iff)
  then have "summarise_loop txs 0 0 0 = Err TxOverflow"
    using summarise_loop_Err by (metis outcome.exhaust)
  with False show ?thesis
    by (simp add: summarise_transactions_def)
qed

section \<open>Genesis configuration (genesis.rs, constant.rs)\<close>

record genesis_account =
  ga_address :: address
  ga_balance :: u128

record genesis_config =
  gc_chain_id :: u64
  gc_accounts :: "genesis_account list"
  genesis_timestamp :: u64

definition GAS_LIMIT_PER_BLOCK :: u64 where
  "GAS_LIMIT_PER_BLOCK = 30000000"

definition genesis_header :: "genesis_config \<Rightarrow> header" where
  "genesis_header self =
     \<lparr>parent_hash = zero_array, beneficiary = zero_array, state_root = zero_array,
      transactions_root = zero_array, gas_limit = GAS_LIMIT_PER_BLOCK, gas_used = 0,
      timestamp = genesis_timestamp self, number = 0\<rparr>"

definition genesis_header_with_state_root :: "genesis_config \<Rightarrow> b256 \<Rightarrow> header" where
  "genesis_header_with_state_root self root = (genesis_header self)\<lparr>state_root := root\<rparr>"

end
