(* ===== verification/Rlp.thy ===== *)
theory Rlp
  imports Chain_Types
begin

text \<open>
  The crate \<^verbatim>\<open>core/rlp-codec\<close>, files \<^verbatim>\<open>item.rs\<close>, \<^verbatim>\<open>encoder.rs\<close> and \<^verbatim>\<open>decoder.rs\<close>: RLP items, the
  encoder with its length precomputation, and the recursive decoder. The decoder's slices are
  checked, so that "does not panic" is a theorem and not an artefact of totality; its recursion
  (a loop that feeds the rest of one decoded item to the next call) is shown to terminate.
\<close>

section \<open>Items and errors (item.rs, error.rs)\<close>

datatype rlp_item = Bytes bytes | List "rlp_item list"

datatype rlp_error =
    InputTooShort usize usize
  | InvalidLength usize
  | TrailingBytes usize
  | UnexpectedType u8
  | RlpOverflow
  | InvalidString
  | RlpTransaction transaction_error

section \<open>Encoder (encoder.rs)\<close>

text \<open>The loop of \<^verbatim>\<open>encode_length\<close> pushes the low byte and shifts; the result is reversed.\<close>

fun encode_length_loop :: "usize \<Rightarrow> bytes \<Rightarrow> bytes" where
  "encode_length_loop val bs =
     (let bs' = bs @ [of_nat (val mod 256)]
      in if val \<le> 0xff then bs' else encode_length_loop (val div 256) bs')"

declare encode_length_loop.simps [simp del]

definition encode_length :: "usize \<Rightarrow> bytes" where
  "encode_length value = rev (encode_length_loop value [])"

text \<open>\<^verbatim>\<open>usize::BITS - value.leading_zeros()\<close> is the number of significant bits.\<close>

fun bit_length :: "nat \<Rightarrow> nat" where
  "bit_length n = (if n = 0 then 0 else Suc (bit_length (n div 2)))"

declare bit_length.simps [simp del]

definition encoded_length_len :: "usize \<Rightarrow> usize" where
  "encoded_length_len value = (bit_length value + 7) div 8"

definition length_prefix_len :: "usize \<Rightarrow> usize" where
  "length_prefix_len payload_len =
     (if payload_len \<le> 55 then 1 else 1 + encoded_length_len payload_len)"

definition list_prefix_len :: "usize \<Rightarrow> usize" where
  "list_prefix_len payload_len = length_prefix_len payload_len"

fun encoded_len :: "rlp_item \<Rightarrow> usize" where
  "encoded_len (Bytes data) =
     (if length data = 1 \<and> data ! 0 < 0x80 then 1
      else length_prefix_len (length data) + length data)"
| "encoded_len (List items) =
     (let payload_len = sum_list (map encoded_len items)
      in list_prefix_len payload_len + payload_len)"

text \<open>
  The functions append to a buffer; the model returns the bytes appended. A cast
  \<^verbatim>\<open>len as u8\<close> is \<open>of_nat\<close>, and the additions to \<open>0x80\<close>, \<open>0xb7\<close>, \<open>0xc0\<close>, \<open>0xf7\<close> are checked.
\<close>

definition add_rlp_list_prefix :: "usize \<Rightarrow> (bytes, 'e) outcome" where
  "add_rlp_list_prefix encoded_items_len =
     (if encoded_items_len \<le> 55 then
        and_then (add_or_panic 0xc0 (of_nat encoded_items_len)) (\<lambda>b. Ok [b])
      else
        let length_bytes = encode_length encoded_items_len
        in and_then (add_or_panic 0xf7 (of_nat (length length_bytes))) (\<lambda>b. Ok (b # length_bytes)))"

definition bytes_prefix :: "usize \<Rightarrow> (bytes, 'e) outcome" where
  "bytes_prefix len =
     (if len \<le> 55 then and_then (add_or_panic 0x80 (of_nat len)) (\<lambda>b. Ok [b])
      else
        let length_bytes = encode_length len
        in and_then (add_or_panic 0xb7 (of_nat (length length_bytes))) (\<lambda>b. Ok (b # length_bytes)))"

fun encode :: "rlp_item \<Rightarrow> (bytes, rlp_error) outcome" where
  "encode (Bytes data) =
     (if length data = 1 \<and> data ! 0 < 0x80 then Ok data
      else and_then (bytes_prefix (length data)) (\<lambda>prefix. Ok (prefix @ data)))"
| "encode (List items) =
     and_then (try_collect encode items) (\<lambda>parts.
     let encoded_items = concat parts
     in and_then (add_rlp_list_prefix (length encoded_items)) (\<lambda>prefix.
        Ok (prefix @ encoded_items)))"

section \<open>Decoder (decoder.rs)\<close>

definition decode_length :: "bytes \<Rightarrow> usize \<Rightarrow> (usize, rlp_error) outcome" where
  "decode_length slc len_of_len =
     (if len_of_len = 0 then Err (InvalidLength 0)
      else if len_of_len > length slc then Err (InputTooShort len_of_len (length slc))
      else if len_of_len > 8 then Panic
      else
        and_then (slice_to slc len_of_len) (\<lambda>ls.
        Ok (be_val (replicate (8 - len_of_len) 0 @ ls))))"

function (sequential) decode :: "bytes \<Rightarrow> (rlp_item \<times> bytes, rlp_error) outcome"
  and decode_loop :: "bytes \<Rightarrow> (rlp_item list, rlp_error) outcome" where
  "decode [] = Err (InputTooShort 1 0)"
| "decode (b # rest) =
     (if b < 0x80 then Ok (Bytes [b], rest)
      else if b < 0xb8 then
        let len = unat (b - 0x80)
        in if len > length rest then Err (InputTooShort len (length rest))
           else
             and_then (slice_range (b # rest) 1 (1 + len)) (\<lambda>data.
             and_then (slice_from (b # rest) (1 + len)) (\<lambda>remaining.
             Ok (Bytes data, remaining)))
      else if b < 0xc0 then
        let len_of_len = unat (b - 0xb7)
        in and_then (decode_length rest len_of_len) (\<lambda>payload_len.
           and_then (slice_from (b # rest) (1 + len_of_len)) (\<lambda>remaining_after_len.
           if payload_len > length remaining_after_len
           then Err (InputTooShort payload_len (length remaining_after_len))
           else
             and_then (slice_to remaining_after_len payload_len) (\<lambda>data.
             and_then (slice_from remaining_after_len payload_len) (\<lambda>remaining.
             Ok (Bytes data, remaining)))))
      else if b < 0xf8 then
        let payload_len = unat (b - 0xc0)
        in if payload_len > length rest then Err (InputTooShort payload_len (length rest))
           else
             and_then (slice_range (b # rest) 1 (payload_len + 1)) (\<lambda>payload_slice.
             and_then (decode_loop payload_slice) (\<lambda>decoded.
             and_then (slice_from (b # rest) (1 + payload_len)) (\<lambda>remaining.
             Ok (List decoded, remaining))))
      else
        let len_of_len = unat (b - 0xf7)
        in and_then (decode_length rest len_of_len) (\<lambda>payload_len.
           and_then (slice_from (b # rest) (1 + len_of_len)) (\<lambda>remaining_after_len.
           if payload_len > length remaining_after_len
           then Err (InputTooShort payload_len (length remaining_after_len))
           else
             and_then (slice_to remaining_after_len payload_len) (\<lambda>payload_slice.
             and_then (decode_loop payload_slice) (\<lambda>decoded.
             and_then (slice_from remaining_after_len payload_len) (\<lambda>remaining.
             Ok (List decoded, remaining)))))))"
| "decode_loop [] = Ok []"
| "decode_loop (b # rest) =
     and_then (decode (b # rest)) (\<lambda>(item, remaining).
     and_then (decode_loop remaining) (\<lambda>items. Ok (item # items)))"
  by pat_completeness auto

text \<open>Termination rests on a partial-correctness fact: a decoded item consumes at least a byte.\<close>

lemma decode_consumes_dom:
  "decode_decode_loop_dom (Inl bs) \<Longrightarrow> decode bs = Ok (item, rest) \<Longrightarrow> length rest < length bs"
  by (cases bs)
     (auto simp: decode.psimps slice_defs outcome_iffs Let_def split: if_splits)

termination decode
  by (relation "measure (case_sum (\<lambda>bs. 2 * length bs) (\<lambda>bs. Suc (2 * length bs)))")
     (auto simp: slice_defs outcome_iffs split: if_splits dest: decode_consumes_dom)

section \<open>The length prefix\<close>

text \<open>The number of bytes of a length, by repeated division.\<close>

fun nbytes :: "nat \<Rightarrow> nat" where
  "nbytes n = (if n \<le> 0xff then 1 else Suc (nbytes (n div 256)))"

declare nbytes.simps [simp del]

lemma encode_length_loop_eq: "encode_length_loop n bs = bs @ rev (be_digits (nbytes n) n)"
proof (induction n bs rule: encode_length_loop.induct)
  case (1 n bs)
  then show ?case
    by (simp add: encode_length_loop.simps [of n] nbytes.simps [of n] Let_def)
qed

lemma encode_length_eq: "encode_length n = be_digits (nbytes n) n"
  by (simp add: encode_length_def encode_length_loop_eq)

lemma nbytes_bound: "n < 256 ^ nbytes n"
proof (induction n rule: nbytes.induct)
  case (1 n)
  show ?case
  proof (cases "n \<le> 0xff")
    case False
    with 1 have "n div 256 < 256 ^ nbytes (n div 256)" by simp
    then have "n < 256 ^ nbytes (n div 256) * 256"
      using less_mult_imp_div_less div_less_iff_less_mult by auto
    with False show ?thesis by (simp add: nbytes.simps [of n])
  qed (simp add: nbytes.simps [of n])
qed

lemma nbytes_le: "n < 256 ^ k \<Longrightarrow> 0 < k \<Longrightarrow> nbytes n \<le> k"
proof (induction k arbitrary: n)
  case (Suc k)
  show ?case
  proof (cases "n \<le> 0xff")
    case False
    then have "0 < k" using Suc.prems by (cases k) auto
    moreover have "n div 256 < 256 ^ k"
      using Suc.prems by (simp add: less_mult_imp_div_less mult.commute)
    ultimately show ?thesis
      using Suc.IH False by (simp add: nbytes.simps [of n])
  qed (simp add: nbytes.simps [of n])
qed simp

lemma nbytes_pos [simp]: "0 < nbytes n" and nbytes_neq_0 [simp]: "nbytes n \<noteq> 0"
  by (simp_all add: nbytes.simps [of n])

lemma be_val_encode_length: "be_val (encode_length n) = n"
  by (simp add: encode_length_eq be_val_be_digits nbytes_bound)

lemma length_encode_length: "length (encode_length n) = nbytes n"
  by (simp add: encode_length_eq)

lemma nbytes_le_8: "n < 2 ^ 64 \<Longrightarrow> nbytes n \<le> 8"
  by (rule nbytes_le) simp_all

subsection \<open>The bit count of the length precomputation\<close>

lemma bit_length_le: "n < 2 ^ k \<Longrightarrow> bit_length n \<le> k"
proof (induction k arbitrary: n)
  case (Suc k)
  then have "bit_length (n div 2) \<le> k" by (simp add: less_mult_imp_div_less mult.commute)
  then show ?case by (simp add: bit_length.simps [of n])
qed (simp add: bit_length.simps)

lemma bit_length_double: "0 < n div 2 ^ k \<Longrightarrow> bit_length n = bit_length (n div 2 ^ k) + k"
proof (induction k arbitrary: n)
  case (Suc k)
  have "n div 2 ^ Suc k = n div 2 div 2 ^ k"
    by (simp add: div_mult2_eq)
  moreover have "n \<noteq> 0" using Suc.prems by (intro notI) simp
  ultimately show ?case
    using Suc by (simp add: bit_length.simps [of n])
qed simp

lemma encoded_length_len_eq: "0 < n \<Longrightarrow> encoded_length_len n = nbytes n"
proof (induction n rule: nbytes.induct)
  case (1 n)
  show ?case
  proof (cases "n \<le> 0xff")
    case True
    then have "n < 2 ^ 8" by simp
    then have "bit_length n \<le> 8" by (rule bit_length_le)
    moreover have "0 < bit_length n" using 1 by (simp add: bit_length.simps [of n])
    ultimately have "(bit_length n + 7) div 8 = 1" by simp
    with True show ?thesis by (simp add: encoded_length_len_def nbytes.simps [of n])
  next
    case False
    then have "0 < n div 2 ^ 8" by (simp add: div_greater_zero_iff)
    then have "bit_length n = bit_length (n div 256) + 8"
      using bit_length_double [of n 8] by simp
    moreover have "encoded_length_len (n div 256) = nbytes (n div 256)"
      using 1 False by (simp add: div_greater_zero_iff)
    ultimately show ?thesis
      using False by (simp add: encoded_length_len_def nbytes.simps [of n])
  qed
qed

section \<open>Encoding as a pure function\<close>

text \<open>The bytes \<^verbatim>\<open>encode\<close> appends, without the outcome: what the properties reason about.\<close>

definition prefix_bytes :: "u8 \<Rightarrow> u8 \<Rightarrow> nat \<Rightarrow> bytes" where
  "prefix_bytes short long n =
     (if n \<le> 55 then [short + of_nat n] else (long + of_nat (nbytes n)) # encode_length n)"

fun rlp_bytes :: "rlp_item \<Rightarrow> bytes" where
  "rlp_bytes (Bytes data) =
     (if length data = 1 \<and> data ! 0 < 0x80 then data
      else prefix_bytes 0x80 0xb7 (length data) @ data)"
| "rlp_bytes (List items) =
     (let payload = concat (map rlp_bytes items)
      in prefix_bytes 0xc0 0xf7 (length payload) @ payload)"

lemma length_prefix_bytes: "length (prefix_bytes s l n) = length_prefix_len n"
  by (simp add: prefix_bytes_def length_prefix_len_def length_encode_length encoded_length_len_eq)

lemma length_rlp_bytes: "length (rlp_bytes item) = encoded_len item"
proof (induction item)
  case (List items)
  then have "(\<Sum>x\<leftarrow>items. length (rlp_bytes x)) = sum_list (map encoded_len items)"
    by (intro arg_cong [where f = sum_list] map_cong) auto
  then show ?case
    by (simp add: Let_def length_concat length_prefix_bytes list_prefix_len_def comp_def)
qed (simp add: length_prefix_bytes)

lemma bytes_prefix_eq: "n < 2 ^ 64 \<Longrightarrow> bytes_prefix n = Ok (prefix_bytes 0x80 0xb7 n)"
  and list_prefix_eq: "n < 2 ^ 64 \<Longrightarrow> add_rlp_list_prefix n = Ok (prefix_bytes 0xc0 0xf7 n)"
proof -
  assume "n < 2 ^ 64"
  then have "nbytes n \<le> 8" by (rule nbytes_le_8)
  then show "bytes_prefix n = Ok (prefix_bytes 0x80 0xb7 n)"
    and "add_rlp_list_prefix n = Ok (prefix_bytes 0xc0 0xf7 n)"
    by (simp_all add: bytes_prefix_def add_rlp_list_prefix_def prefix_bytes_def Let_def
        add_or_panic_of_nat length_encode_length)
qed

lemma encoded_len_member:
  "x \<in> set items \<Longrightarrow> encoded_len x \<le> encoded_len (List items)"
  using member_le_sum_list [of "encoded_len x" "map encoded_len items"]
  by (simp add: Let_def)

lemma encoded_len_data: "length data \<le> encoded_len (Bytes data)"
  by simp

lemma encoded_len_payload: "sum_list (map encoded_len items) \<le> encoded_len (List items)"
  by (simp add: Let_def)

lemma encode_eq: "encoded_len item < 2 ^ 64 \<Longrightarrow> encode item = Ok (rlp_bytes item)"
proof (induction item)
  case (Bytes data)
  then have "length data < 2 ^ 64"
    using encoded_len_data by (rule le_less_trans [rotated])
  then show ?case by (simp add: bytes_prefix_eq)
next
  case (List items)
  have "encode x = Ok (rlp_bytes x)" if "x \<in> set items" for x
    by (rule List.IH [OF that le_less_trans [OF encoded_len_member [OF that] List.prems]])
  then have "try_collect encode items = Ok (map rlp_bytes items)"
    by (rule try_collect_Ok_map)
  moreover have "length (concat (map rlp_bytes items)) < 2 ^ 64"
    using List.prems encoded_len_payload [of items]
    by (simp add: length_concat comp_def length_rlp_bytes)
  ultimately show ?case by (simp add: Let_def list_prefix_eq)
qed

text \<open>
  The encoder's length precomputation is exact and the encoder cannot fail: for every item
  whose encoding fits a 64-bit length, \<^verbatim>\<open>encode\<close> succeeds, without panic on its prefix arithmetic,
  with exactly \<^verbatim>\<open>encoded_len\<close> bytes.
\<close>

theorem encode_length_exact:
  assumes "encoded_len item < 2 ^ 64"
  shows "\<exists>bs. encode item = Ok bs \<and> length bs = encoded_len item"
  using encode_eq [OF assms] length_rlp_bytes by blast

theorem encode_length_exact_witness:
  "encoded_len (List [Bytes [1], Bytes [0x80, 2]]) = 5 \<and>
   (\<exists>bs. encode (List [Bytes [1], Bytes [0x80, 2]]) = Ok bs \<and> length bs = 5)"
proof -
  have l: "encoded_len (List [Bytes [1], Bytes [0x80, 2]]) = 5"
    by (simp add: Let_def list_prefix_len_def length_prefix_len_def)
  then show ?thesis
    using encode_length_exact [of "List [Bytes [1], Bytes [0x80, 2]]"] by simp
qed

section \<open>Decoding\<close>

lemma decode_length_encode_length:
  "n < 2 ^ 64 \<Longrightarrow> decode_length (encode_length n @ rest) (nbytes n) = Ok n"
  using nbytes_le_8 [of n]
  by (simp add: decode_length_def slice_to_def length_encode_length be_val_zeros be_val_encode_length)

lemma short_prefix:
  "n \<le> 55 \<Longrightarrow> unat (0x80 + of_nat n :: u8) = 128 + n"
  "n \<le> 55 \<Longrightarrow> unat (0xc0 + of_nat n :: u8) = 192 + n"
  "n \<le> 8 \<Longrightarrow> unat (0xb7 + of_nat n :: u8) = 183 + n"
  "n \<le> 8 \<Longrightarrow> unat (0xf7 + of_nat n :: u8) = 247 + n"
  by (simp_all add: unat_add_of_nat)

lemma unat_of_nat_small [simp]: "n < 256 \<Longrightarrow> unat (of_nat n :: u8) = n"
  by (simp add: unat_of_nat)

lemma decode_bytes_prefix:
  assumes "length data < 2 ^ 64"
  shows "decode (prefix_bytes 0x80 0xb7 (length data) @ data @ rest) = Ok (Bytes data, rest)"
proof (cases "length data \<le> 55")
  case True
  then show ?thesis
    by (simp add: prefix_bytes_def word_less_nat_alt short_prefix slice_defs)
next
  case False
  have n: "0 < nbytes (length data)" "nbytes (length data) \<le> 8"
    using assms nbytes_le_8 by auto
  with False assms show ?thesis
    by (simp add: prefix_bytes_def word_less_nat_alt short_prefix slice_defs
        decode_length_encode_length length_encode_length)
qed

lemma decode_list_prefix:
  assumes "length payload < 2 ^ 64" and "decode_loop payload = Ok items"
  shows "decode (prefix_bytes 0xc0 0xf7 (length payload) @ payload @ rest) = Ok (List items, rest)"
proof (cases "length payload \<le> 55")
  case True
  with assms show ?thesis
    by (simp add: prefix_bytes_def word_less_nat_alt short_prefix slice_defs)
next
  case False
  have n: "0 < nbytes (length payload)" "nbytes (length payload) \<le> 8"
    using assms(1) nbytes_le_8 by auto
  with False assms show ?thesis
    by (simp add: prefix_bytes_def word_less_nat_alt short_prefix slice_defs
        decode_length_encode_length length_encode_length)
qed

lemma decode_loop_step:
  "bs \<noteq> [] \<Longrightarrow> decode bs = Ok (item, rest) \<Longrightarrow> decode_loop rest = Ok items \<Longrightarrow>
     decode_loop bs = Ok (item # items)"
  by (cases bs) simp_all

lemma rlp_bytes_nonempty [simp]: "rlp_bytes item \<noteq> []"
  by (cases item) (auto simp: prefix_bytes_def Let_def)

lemma decode_loop_concat:
  "(\<And>x rest. x \<in> set items \<Longrightarrow> decode (rlp_bytes x @ rest) = Ok (x, rest)) \<Longrightarrow>
     decode_loop (concat (map rlp_bytes items)) = Ok items"
proof (induction items)
  case (Cons x items)
  then show ?case
    by (intro decode_loop_step [of _ x "concat (map rlp_bytes items)"]) auto
qed simp

lemma decode_rlp_bytes:
  "encoded_len item < 2 ^ 64 \<Longrightarrow> decode (rlp_bytes item @ rest) = Ok (item, rest)"
proof (induction item arbitrary: rest)
  case (Bytes data)
  then have "length data < 2 ^ 64"
    using encoded_len_data by (rule le_less_trans [rotated])
  moreover have "data = [data ! 0]" if "length data = 1"
    using that by (cases data) auto
  ultimately show ?case
    using decode_bytes_prefix [of data rest] by (cases data) auto
next
  case (List items)
  have "decode (rlp_bytes x @ rest) = Ok (x, rest)" if "x \<in> set items" for x rest
    by (rule List.IH [OF that le_less_trans [OF encoded_len_member [OF that] List.prems]])
  then have "decode_loop (concat (map rlp_bytes items)) = Ok items"
    by (rule decode_loop_concat)
  moreover have "length (concat (map rlp_bytes items)) < 2 ^ 64"
    using List.prems encoded_len_payload [of items]
    by (simp add: length_concat comp_def length_rlp_bytes)
  ultimately show ?case
    using decode_list_prefix [of "concat (map rlp_bytes items)" items rest] by (simp add: Let_def)
qed

text \<open>
  C10. Decoding inverts encoding: for every item whose encoding fits a 64-bit length, \<^verbatim>\<open>encode\<close>
  succeeds and \<^verbatim>\<open>decode\<close> on its output followed by any bytes returns the item and those bytes.
\<close>

theorem decode_encode:
  assumes "encoded_len item < 2 ^ 64"
  shows "\<exists>bs. encode item = Ok bs \<and> decode (bs @ rest) = Ok (item, rest)"
  using encode_eq [OF assms] decode_rlp_bytes [OF assms] by blast

theorem decode_encode_witness:
  "\<exists>bs. encode (List [Bytes [], List [Bytes [0x80, 2]]]) = Ok bs \<and>
     decode (bs @ [7, 9]) = Ok (List [Bytes [], List [Bytes [0x80, 2]]], [7, 9])"
  by (rule decode_encode) (simp add: Let_def list_prefix_len_def length_prefix_len_def)

section \<open>The decoder on arbitrary input\<close>

lemma decode_length_not_Panic: "k \<le> 8 \<Longrightarrow> decode_length bs k \<noteq> Panic"
  by (simp add: decode_length_def slice_to_def)

lemma decode_length_Ok:
  "decode_length bs k = Ok n \<Longrightarrow> 0 < k \<and> k \<le> length bs \<and> length_prefix_len n \<le> Suc k"
proof -
  assume a: "decode_length bs k = Ok n"
  then have k: "0 < k" "k \<le> length bs" and n: "n = be_val (take k bs)"
    by (auto simp: decode_length_def slice_to_def be_val_zeros split: if_splits)
  then have "nbytes n \<le> k"
    using be_val_less [of "take k bs"] by (intro nbytes_le) simp_all
  with k show ?thesis
    by (auto simp: length_prefix_len_def encoded_length_len_eq)
qed

lemma unat_prefix_le:
  "b \<ge> 0xb8 \<Longrightarrow> b < 0xc0 \<Longrightarrow> unat (b - 0xb7 :: u8) \<le> 8"
  "b \<ge> 0xf8 \<Longrightarrow> unat (b - 0xf7 :: u8) \<le> 8"
  using unsigned_less [of b, where ?'a = nat]
  by (simp_all add: unat_sub word_le_nat_alt word_less_nat_alt)

text \<open>The five branches of \<^verbatim>\<open>decode\<close>, with the slice bounds discharged.\<close>

lemma decode_single: "b < 0x80 \<Longrightarrow> decode (b # rest) = Ok (Bytes [b], rest)"
  by simp

lemma decode_short_bytes:
  "0x80 \<le> b \<Longrightarrow> b < 0xb8 \<Longrightarrow> decode (b # rest) =
     (let len = unat (b - 0x80)
      in if len > length rest then Err (InputTooShort len (length rest))
         else Ok (Bytes (take len rest), drop len rest))"
  by (simp add: Let_def slice_defs not_less word_less_nat_alt word_le_nat_alt)

lemma decode_long_bytes:
  "0xb8 \<le> b \<Longrightarrow> b < 0xc0 \<Longrightarrow> decode (b # rest) =
     and_then (decode_length rest (unat (b - 0xb7))) (\<lambda>n.
       let rem = drop (unat (b - 0xb7)) rest
       in if n > length rem then Err (InputTooShort n (length rem))
          else Ok (Bytes (take n rem), drop n rem))"
  by (cases "decode_length rest (unat (b - 0xb7))")
     (simp_all add: Let_def slice_defs not_less word_less_nat_alt word_le_nat_alt
        decode_length_Ok)

lemma decode_short_list:
  "0xc0 \<le> b \<Longrightarrow> b < 0xf8 \<Longrightarrow> decode (b # rest) =
     (let len = unat (b - 0xc0)
      in if len > length rest then Err (InputTooShort len (length rest))
         else and_then (decode_loop (take len rest)) (\<lambda>items. Ok (List items, drop len rest)))"
  by (simp add: Let_def slice_defs not_less word_less_nat_alt word_le_nat_alt)

lemma decode_long_list:
  "0xf8 \<le> b \<Longrightarrow> decode (b # rest) =
     and_then (decode_length rest (unat (b - 0xf7))) (\<lambda>n.
       let rem = drop (unat (b - 0xf7)) rest
       in if n > length rem then Err (InputTooShort n (length rem))
          else and_then (decode_loop (take n rem)) (\<lambda>items. Ok (List items, drop n rem)))"
  by (cases "decode_length rest (unat (b - 0xf7))")
     (simp_all add: Let_def slice_defs not_less word_less_nat_alt word_le_nat_alt
        decode_length_Ok)

lemmas decode_branches =
  decode_single decode_short_bytes decode_long_bytes decode_short_list decode_long_list

lemma prefix_cases:
  fixes b :: u8
  obtains "b < 0x80" | "0x80 \<le> b" "b < 0xb8" | "0xb8 \<le> b" "b < 0xc0"
    | "0xc0 \<le> b" "b < 0xf8" | "0xf8 \<le> b"
  unfolding not_less [symmetric] by blast

text \<open>Induction on the input, one level for an item and one for a payload.\<close>

lemma decode_induct:
  assumes D: "\<And>bs. (\<And>bs'. length bs' < length bs \<Longrightarrow> Q bs') \<Longrightarrow> P bs"
    and L: "\<And>bs. P bs \<Longrightarrow> (\<And>bs'. length bs' < length bs \<Longrightarrow> Q bs') \<Longrightarrow> Q bs"
  shows "P bs" and "Q bs"
proof -
  have Q: "Q bs" for bs
    by (induction bs rule: measure_induct_rule [of length]) (metis D L)
  then show "P bs" and "Q bs" by (auto intro: D)
qed

lemma decode_consumes: "decode bs = Ok (item, rest) \<Longrightarrow> length rest < length bs"
proof (cases bs)
  case (Cons b bs')
  assume "decode bs = Ok (item, rest)"
  with Cons show ?thesis
    by (cases b rule: prefix_cases)
       (auto simp: decode_branches outcome_iffs Let_def simp del: decode.simps split: if_splits)
qed simp

lemma decode_not_Panic [simp]: "decode bs \<noteq> Panic"
  and decode_loop_not_Panic [simp]: "decode_loop bs \<noteq> Panic"
proof (induction bs and bs rule: decode_induct)
  case (1 bs)
  show ?case
  proof (cases bs)
    case (Cons b rest)
    show ?thesis
      using 1 unfolding Cons
      by (cases b rule: prefix_cases)
         (simp_all add: decode_branches outcome_iffs Let_def unat_prefix_le
          decode_length_not_Panic del: decode.simps)
  qed simp
next
  case (2 bs)
  then show ?case
    by (cases bs) (auto simp: outcome_iffs dest: decode_consumes simp del: decode.simps)
qed

text \<open>
  A decoded item never needs more bytes than were consumed: the canonical form is the shortest
  one the decoder accepts.
\<close>

lemma length_prefix_len_mono:
  assumes "m \<le> n" shows "length_prefix_len m \<le> length_prefix_len n"
proof -
  have "nbytes m \<le> nbytes n"
    using assms nbytes_bound [of n] by (intro nbytes_le) simp_all
  with assms show ?thesis
    by (simp add: length_prefix_len_def encoded_length_len_eq)
qed

lemma encoded_len_Bytes_le: "encoded_len (Bytes data) \<le> length_prefix_len (length data) + length data"
  by (auto simp: length_prefix_len_def)

lemma encoded_len_List_le:
  "sum_list (map encoded_len items) \<le> n \<Longrightarrow> encoded_len (List items) \<le> length_prefix_len n + n"
  using length_prefix_len_mono by (simp add: Let_def list_prefix_len_def add_mono)

lemma unat_short_le:
  "0x80 \<le> b \<Longrightarrow> b < 0xb8 \<Longrightarrow> unat (b - 0x80 :: u8) \<le> 55"
  "0xc0 \<le> b \<Longrightarrow> b < 0xf8 \<Longrightarrow> unat (b - 0xc0 :: u8) \<le> 55"
  by (simp_all add: unat_sub word_le_nat_alt word_less_nat_alt)

text \<open>What a successful call read, whatever the branch: a length of \<open>n\<close> bytes and its prefix.\<close>

lemma decode_Ok_cases:
  assumes "decode (b # bs) = Ok (item, rest)"
  obtains "item = Bytes [b]" "b < 0x80" "rest = bs"
    | k n where "length_prefix_len n \<le> Suc k" "k + n \<le> length bs" "rest = drop (k + n) bs"
        "item = Bytes (take n (drop k bs))"
    | k n items where "length_prefix_len n \<le> Suc k" "k + n \<le> length bs" "rest = drop (k + n) bs"
        "item = List items" "decode_loop (take n (drop k bs)) = Ok items"
proof (cases b rule: prefix_cases)
  case 1
  then show ?thesis using assms that(1) by (simp add: decode_single)
next
  case 2
  then show ?thesis
    using assms that(2) [of "unat (b - 0x80)" 0] unat_short_le
    by (simp add: decode_short_bytes length_prefix_len_def Let_def del: decode.simps split: if_splits)
next
  case 3
  then show ?thesis
    using assms that(2)
    by (auto simp: decode_long_bytes outcome_iffs Let_def add.commute simp del: decode.simps
        split: if_splits dest!: decode_length_Ok)
next
  case 4
  then show ?thesis
    using assms that(3) [of "unat (b - 0xc0)" 0] unat_short_le
    by (auto simp: decode_short_list outcome_iffs length_prefix_len_def Let_def simp del: decode.simps
        split: if_splits)
next
  case 5
  then show ?thesis
    using assms that(3)
    by (auto simp: decode_long_list outcome_iffs Let_def add.commute simp del: decode.simps
        split: if_splits dest!: decode_length_Ok)
qed

lemma decode_suffix:
  "decode bs = Ok (item, rest) \<Longrightarrow> rest = drop (length bs - length rest) bs \<and> length rest \<le> length bs"
  by (cases bs) (auto simp del: decode.simps(2) elim!: decode_Ok_cases)

lemma decode_fits:
  "decode bs = Ok (item, rest) \<longrightarrow> encoded_len item + length rest \<le> length bs" (is "?P bs")
  and decode_loop_fits:
  "decode_loop bs = Ok items \<longrightarrow> sum_list (map encoded_len items) \<le> length bs" (is "?Q bs")
proof -
  have P: "\<forall>item rest. decode bs = Ok (item, rest) \<longrightarrow> encoded_len item + length rest \<le> length bs"
    and Q: "\<forall>items. decode_loop bs = Ok items \<longrightarrow> sum_list (map encoded_len items) \<le> length bs"
    for bs
  proof (induction bs and bs rule: decode_induct)
    case (1 bs)
    show ?case
    proof (intro allI impI)
      fix item rest
      assume ok: "decode bs = Ok (item, rest)"
      then obtain b bs' where bs: "bs = b # bs'" by (cases bs) auto
      from ok [unfolded bs] show "encoded_len item + length rest \<le> length bs"
      proof (cases rule: decode_Ok_cases)
        case (2 k n)
        then show ?thesis
          using encoded_len_Bytes_le [of "take n (drop k bs')"] by (simp add: bs)
      next
        case (3 k n items)
        then have "sum_list (map encoded_len items) \<le> n"
          using 1 [of "take n (drop k bs')"] by (auto simp: bs)
        then show ?thesis
          using encoded_len_List_le [of items n] 3 by (simp add: bs)
      qed (simp add: bs)
    qed
  next
    case (2 bs)
    then show ?case
      by (cases bs) (fastforce simp: outcome_iffs simp del: decode.simps dest: decode_consumes)+
  qed
  from P Q show "?P bs" and "?Q bs" by blast+
qed

text \<open>
  C34. The decoder is total on every input from the network: it returns, it never panics, and when
  it succeeds it has consumed a non-empty prefix, returned exactly the rest, and the item's own
  encoding is no longer than what was consumed (so a decoded item always re-encodes within the
  frame it came from).
\<close>

theorem decode_total:
  "decode bs \<noteq> Panic \<and>
   (case decode bs of
      Ok (item, rest) \<Rightarrow> (\<exists>used. used \<noteq> [] \<and> bs = used @ rest \<and> encoded_len item \<le> length used)
    | _ \<Rightarrow> True)"
proof (cases "decode bs")
  case (Ok r)
  obtain item rest where r: "decode bs = Ok (item, rest)" using Ok by (cases r) simp
  let ?used = "take (length bs - length rest) bs"
  have "bs = ?used @ rest"
    using decode_suffix [OF r] append_take_drop_id [of "length bs - length rest" bs] by simp
  moreover have "?used \<noteq> []" and "encoded_len item \<le> length ?used"
    using decode_consumes [OF r] decode_fits [of bs item rest] r by auto
  ultimately have "\<exists>used. used \<noteq> [] \<and> bs = used @ rest \<and> encoded_len item \<le> length used"
    by blast
  then show ?thesis by (simp add: r)
qed simp_all

text \<open>Encodings are prefix free: the bytes determine the item and where it ends.\<close>

lemma rlp_bytes_prefix_free:
  assumes "rlp_bytes x @ rest = rlp_bytes y @ rest'"
    and "encoded_len x < 2 ^ 64" and "encoded_len y < 2 ^ 64"
  shows "x = y \<and> rest = rest'"
proof -
  have "Ok (x, rest) = (Ok (y, rest') :: (rlp_item \<times> bytes, rlp_error) outcome)"
    using decode_rlp_bytes [OF assms(2), of rest] decode_rlp_bytes [OF assms(3), of rest']
    unfolding assms(1) by (rule HOL.trans [OF sym])
  then show ?thesis by simp
qed

lemma rlp_bytes_inj:
  assumes "rlp_bytes x = rlp_bytes y" and "encoded_len x < 2 ^ 64"
  shows "x = y"
proof -
  have "encoded_len y = encoded_len x"
    using assms(1) length_rlp_bytes by metis
  then show ?thesis
    using rlp_bytes_prefix_free [of x "[]" y "[]"] assms by simp
qed

text \<open>The decoder is lenient: it accepts encodings the encoder never produces.\<close>

lemma decode_accepts_noncanonical: "decode [0x81, 0x05] = Ok (Bytes [0x05], [])"
  by (simp add: decode_short_bytes del: decode.simps)

end
