(* ===== verification/Rlp_Traits.thy ===== *)
theory Rlp_Traits
  imports Rlp
begin

text \<open>
  The crate \<^verbatim>\<open>core/rlp-codec\<close>, file \<^verbatim>\<open>traits.rs\<close>: the impls of \<^verbatim>\<open>RlpEncodable\<close> and \<^verbatim>\<open>RlpDecodable\<close>.
  The contract of the two traits is the locale \<open>rlp_codable\<close>; every impl pair is an
  interpretation of it, except that of \<^verbatim>\<open>Account\<close>, whose decoder reads the first field three times
  and is shown never to succeed.
\<close>

section \<open>The contract of the traits\<close>

text \<open>\<^verbatim>\<open>decode_list_of\<close>, and the loops over a list of items that collect with \<^verbatim>\<open>?\<close>.\<close>

definition decode_list_of ::
  "(rlp_item \<Rightarrow> ('a, rlp_error) outcome) \<Rightarrow> rlp_item \<Rightarrow> ('a list, rlp_error) outcome" where
  "decode_list_of from_rlp_item item =
     (case item of
        Bytes _ \<Rightarrow> Err (UnexpectedType 0x80)
      | List x \<Rightarrow> try_collect from_rlp_item x)"

text \<open>\<^verbatim>\<open>T::from_rlp_item(&x[i])?\<close>: the index is checked.\<close>

definition field_of ::
  "(rlp_item \<Rightarrow> ('a, rlp_error) outcome) \<Rightarrow> rlp_item list \<Rightarrow> usize \<Rightarrow> ('a, rlp_error) outcome" where
  "field_of from_rlp_item x i = and_then (index x i) from_rlp_item"

lemma field_of_simps [simp]:
  "field_of f (y # ys) 0 = f y"
  "0 < i \<Longrightarrow> field_of f (y # ys) i = field_of f ys (i - 1)"
  by (auto simp: field_of_def index_def)

lemma field_of_not_Panic:
  "i < length x \<Longrightarrow> (\<And>item. f item \<noteq> Panic) \<Longrightarrow> field_of f x i \<noteq> Panic"
  by (simp add: field_of_def index_def)

locale rlp_codable =
  fixes to_rlp_item :: "'a \<Rightarrow> rlp_item"
    and from_rlp_item :: "rlp_item \<Rightarrow> ('a, rlp_error) outcome"
  assumes from_to: "from_rlp_item (to_rlp_item x) = Ok x"
    and not_Panic: "from_rlp_item item \<noteq> Panic"
begin

lemma to_rlp_item_inject: "to_rlp_item x = to_rlp_item y \<longleftrightarrow> x = y"
  by (metis from_to outcome.inject(1))

lemma decode_list_of_map: "decode_list_of from_rlp_item (List (map to_rlp_item xs)) = Ok xs"
  by (simp add: decode_list_of_def from_to try_collect_map_Ok)

lemma decode_list_of_not_Panic: "decode_list_of from_rlp_item item \<noteq> Panic"
  by (simp add: decode_list_of_def not_Panic try_collect_not_Panic split: rlp_item.split)

lemma field_not_Panic: "i < length x \<Longrightarrow> field_of from_rlp_item x i \<noteq> Panic"
  by (rule field_of_not_Panic) (simp_all add: not_Panic)

lemma map_inject: "map to_rlp_item xs = map to_rlp_item ys \<longleftrightarrow> xs = ys"
  by (rule inj_map_eq_map) (simp add: inj_def to_rlp_item_inject)

text \<open>Through the bytes: what the encoder writes, the decoder reads back.\<close>

lemma bytes_roundtrip:
  assumes "encoded_len (to_rlp_item x) < 2 ^ 64"
  shows "\<exists>bs. encode (to_rlp_item x) = Ok bs \<and>
     and_then (decode (bs @ rest)) (\<lambda>(item, remaining).
       and_then (from_rlp_item item) (\<lambda>y. Ok (y, remaining))) = Ok (x, rest)"
  by (simp add: encode_eq [OF assms] decode_rlp_bytes [OF assms] from_to)

lemma rlp_bytes_inject:
  "encoded_len (to_rlp_item x) < 2 ^ 64 \<Longrightarrow>
     rlp_bytes (to_rlp_item x) = rlp_bytes (to_rlp_item y) \<longleftrightarrow> x = y"
  using rlp_bytes_inj to_rlp_item_inject by blast

end

named_theorems codec \<open>decoding of what an impl encoded\<close>
named_theorems codec_no_panic \<open>decoders that never panic\<close>

section \<open>Integers and booleans\<close>

text \<open>
  The impls for \<^verbatim>\<open>u64\<close> and \<^verbatim>\<open>u128\<close> are the same code at two widths. The slice
  \<^verbatim>\<open>bytes[first_nonzero..]\<close> starts at most at the end, so it is \<open>drop\<close>; so does
  \<^verbatim>\<open>arr[8 - x.len()..]\<close> after the length check.
\<close>

definition uint_to_rlp_item :: "'a::len word \<Rightarrow> rlp_item" where
  "uint_to_rlp_item w =
     (let bytes = to_be_bytes w;
          first_nonzero = unwrap_or (position (\<lambda>b. b \<noteq> 0) bytes) (length bytes)
      in Bytes (drop first_nonzero bytes))"

definition uint_from_rlp_item :: "usize \<Rightarrow> rlp_item \<Rightarrow> ('a::len word, rlp_error) outcome" where
  "uint_from_rlp_item width item =
     (case item of
        Bytes x \<Rightarrow>
          if length x > width then Err (InvalidLength (length x))
          else Ok (from_be_bytes (replicate (width - length x) 0 @ x))
      | List _ \<Rightarrow> Err (UnexpectedType 0xc0))"

definition u64_to_rlp_item :: "u64 \<Rightarrow> rlp_item" where
  "u64_to_rlp_item = uint_to_rlp_item"

definition u64_from_rlp_item :: "rlp_item \<Rightarrow> (u64, rlp_error) outcome" where
  "u64_from_rlp_item = uint_from_rlp_item 8"

definition u128_to_rlp_item :: "u128 \<Rightarrow> rlp_item" where
  "u128_to_rlp_item = uint_to_rlp_item"

definition u128_from_rlp_item :: "rlp_item \<Rightarrow> (u128, rlp_error) outcome" where
  "u128_from_rlp_item = uint_from_rlp_item 16"

definition bool_to_rlp_item :: "bool \<Rightarrow> rlp_item" where
  "bool_to_rlp_item b = (if b then Bytes [0x01] else Bytes [0x00])"

definition bool_from_rlp_item :: "rlp_item \<Rightarrow> (bool, rlp_error) outcome" where
  "bool_from_rlp_item item =
     (case item of
        Bytes x \<Rightarrow>
          if length x > 1 \<or> x = [] then Err (InvalidLength (length x))
          else
            and_then (index x 0) (\<lambda>b.
            if b = 0x00 then Ok False
            else if b = 0x01 then Ok True
            else Err (UnexpectedType b))
      | List _ \<Rightarrow> Err (UnexpectedType 0xc0))"

lemma uint_to_rlp_item_eq: "uint_to_rlp_item w = Bytes (dropWhile (\<lambda>b. b = 0) (to_be_bytes w))"
  using drop_position [of "\<lambda>b. b \<noteq> 0" "to_be_bytes w"] by (simp add: uint_to_rlp_item_def Let_def)

lemma uint_from_to:
  assumes "8 dvd LENGTH('a)" and "width = LENGTH('a) div 8"
  shows "uint_from_rlp_item width (uint_to_rlp_item (w :: 'a::len word)) = Ok w"
proof -
  have "length (dropWhile (\<lambda>b. b = 0) (to_be_bytes w)) \<le> width"
    using length_dropWhile_le [of "\<lambda>b. b = 0" "to_be_bytes w"] assms(2) by simp
  moreover have "from_be_bytes (replicate k 0 @ dropWhile (\<lambda>b. b = 0) (to_be_bytes w)) = w" for k
    using from_to_be_bytes [OF assms(1), of w]
    by (simp add: from_be_bytes_def be_val_zeros be_val_strip)
  ultimately show ?thesis
    by (simp add: uint_to_rlp_item_eq uint_from_rlp_item_def)
qed

lemma uint_not_Panic: "uint_from_rlp_item width item \<noteq> Panic"
  by (simp add: uint_from_rlp_item_def split: rlp_item.split)

interpretation u64_rlp: rlp_codable u64_to_rlp_item u64_from_rlp_item
  by unfold_locales
     (simp_all add: u64_to_rlp_item_def u64_from_rlp_item_def uint_from_to uint_not_Panic)

interpretation u128_rlp: rlp_codable u128_to_rlp_item u128_from_rlp_item
  by unfold_locales
     (simp_all add: u128_to_rlp_item_def u128_from_rlp_item_def uint_from_to uint_not_Panic)

interpretation bool_rlp: rlp_codable bool_to_rlp_item bool_from_rlp_item
  by unfold_locales
     (auto simp: bool_to_rlp_item_def bool_from_rlp_item_def index_def split: rlp_item.split)

lemma uint_len:
  "encoded_len (uint_to_rlp_item (w :: 'a::len word)) \<le>
     length_prefix_len (LENGTH('a) div 8) + LENGTH('a) div 8"
  using encoded_len_Bytes_le [of "dropWhile (\<lambda>b. b = 0) (to_be_bytes w)"]
    length_dropWhile_le [of "\<lambda>b. b = 0" "to_be_bytes w"]
    length_prefix_len_mono [of "length (dropWhile (\<lambda>b. b = 0) (to_be_bytes w))" "LENGTH('a) div 8"]
  by (simp add: uint_to_rlp_item_eq)

lemma u64_len: "encoded_len (u64_to_rlp_item n) \<le> 9"
  and u128_len: "encoded_len (u128_to_rlp_item m) \<le> 17"
  using uint_len [of n] uint_len [of m]
  by (simp_all add: u64_to_rlp_item_def u128_to_rlp_item_def length_prefix_len_def)

section \<open>Byte strings and byte arrays\<close>

definition vec_to_rlp_item :: "bytes \<Rightarrow> rlp_item" where
  "vec_to_rlp_item v = Bytes v"

definition vec_from_rlp_item :: "rlp_item \<Rightarrow> (bytes, rlp_error) outcome" where
  "vec_from_rlp_item item =
     (case item of Bytes x \<Rightarrow> Ok x | List _ \<Rightarrow> Err (UnexpectedType 0xc0))"

definition array_to_rlp_item :: "'n::len byte_array \<Rightarrow> rlp_item" where
  "array_to_rlp_item a = Bytes (as_bytes a)"

definition array_from_rlp_item :: "rlp_item \<Rightarrow> ('n::len byte_array, rlp_error) outcome" where
  "array_from_rlp_item item =
     (case item of
        Bytes x \<Rightarrow> map_err (\<lambda>_. InvalidLength (length x)) (try_from x)
      | List _ \<Rightarrow> Err (UnexpectedType 0xc0))"

definition bloom_to_rlp_item :: "bloom \<Rightarrow> rlp_item" where
  "bloom_to_rlp_item = array_to_rlp_item"

definition bloom_from_rlp_item :: "rlp_item \<Rightarrow> (bloom, rlp_error) outcome" where
  "bloom_from_rlp_item = array_from_rlp_item"

definition address_to_rlp_item :: "address \<Rightarrow> rlp_item" where
  "address_to_rlp_item = array_to_rlp_item"

definition address_from_rlp_item :: "rlp_item \<Rightarrow> (address, rlp_error) outcome" where
  "address_from_rlp_item = array_from_rlp_item"

definition b256_to_rlp_item :: "b256 \<Rightarrow> rlp_item" where
  "b256_to_rlp_item = array_to_rlp_item"

definition b256_from_rlp_item :: "rlp_item \<Rightarrow> (b256, rlp_error) outcome" where
  "b256_from_rlp_item = array_from_rlp_item"

interpretation vec_rlp: rlp_codable vec_to_rlp_item vec_from_rlp_item
  by unfold_locales
     (simp_all add: vec_to_rlp_item_def vec_from_rlp_item_def split: rlp_item.split)

lemma array_from_to: "array_from_rlp_item (array_to_rlp_item a) = Ok a"
  by (simp add: array_from_rlp_item_def array_to_rlp_item_def try_from_def)

lemma array_not_Panic: "array_from_rlp_item item \<noteq> Panic"
  by (simp add: array_from_rlp_item_def try_from_def split: rlp_item.split)

interpretation bloom_rlp: rlp_codable bloom_to_rlp_item bloom_from_rlp_item
  by unfold_locales
     (simp_all add: bloom_to_rlp_item_def bloom_from_rlp_item_def array_from_to array_not_Panic)

interpretation address_rlp: rlp_codable address_to_rlp_item address_from_rlp_item
  by unfold_locales
     (simp_all add: address_to_rlp_item_def address_from_rlp_item_def array_from_to array_not_Panic)

interpretation b256_rlp: rlp_codable b256_to_rlp_item b256_from_rlp_item
  by unfold_locales
     (simp_all add: b256_to_rlp_item_def b256_from_rlp_item_def array_from_to array_not_Panic)

lemma address_len: "encoded_len (address_to_rlp_item a) \<le> 21"
  and b256_len: "encoded_len (b256_to_rlp_item h) \<le> 33"
  by (simp_all add: address_to_rlp_item_def b256_to_rlp_item_def array_to_rlp_item_def
      length_prefix_len_def)

lemmas [codec] =
  u64_rlp.from_to u128_rlp.from_to bool_rlp.from_to vec_rlp.from_to bloom_rlp.from_to
  address_rlp.from_to b256_rlp.from_to b256_rlp.decode_list_of_map

lemmas [codec_no_panic] =
  u64_rlp.field_not_Panic u128_rlp.field_not_Panic bool_rlp.field_not_Panic
  vec_rlp.field_not_Panic address_rlp.field_not_Panic b256_rlp.field_not_Panic
  b256_rlp.decode_list_of_not_Panic

section \<open>Access lists and transactions\<close>

definition access_list_item_to_rlp_item :: "access_list_item \<Rightarrow> rlp_item" where
  "access_list_item_to_rlp_item a =
     List [address_to_rlp_item (al_address a), List (map b256_to_rlp_item (storage_keys a))]"

definition access_list_item_from_rlp_item ::
  "rlp_item \<Rightarrow> (access_list_item, rlp_error) outcome" where
  "access_list_item_from_rlp_item item =
     (case item of
        Bytes _ \<Rightarrow> Err (UnexpectedType 0x80)
      | List x \<Rightarrow>
          if length x \<noteq> 2 then Err (InvalidLength (length x))
          else
            and_then (field_of address_from_rlp_item x 0) (\<lambda>address.
            and_then (field_of (decode_list_of b256_from_rlp_item) x 1) (\<lambda>keys.
            Ok \<lparr>al_address = address, storage_keys = keys\<rparr>)))"

definition to_to_rlp_item :: "address option \<Rightarrow> rlp_item" where
  "to_to_rlp_item to = (case to of Some x \<Rightarrow> address_to_rlp_item x | None \<Rightarrow> Bytes [])"

definition decode_to :: "rlp_item \<Rightarrow> (address option, rlp_error) outcome" where
  "decode_to item =
     (case item of
        Bytes b \<Rightarrow>
          if b = [] then Ok None else and_then (address_from_rlp_item item) (\<lambda>a. Ok (Some a))
      | List _ \<Rightarrow> Err (UnexpectedType 0xc0))"

text \<open>The fields \<^verbatim>\<open>tag, nonce, gas_limit, to, value, data\<close> come first in each of the variants.\<close>

definition transaction_to_rlp_item :: "transaction \<Rightarrow> rlp_item" where
  "transaction_to_rlp_item tx =
     (case tx of
        Legacy nonce gas_price gas_lim to value data \<Rightarrow>
          List [u64_to_rlp_item 0, u64_to_rlp_item nonce, u64_to_rlp_item gas_lim,
                to_to_rlp_item to, u128_to_rlp_item value, vec_to_rlp_item data,
                u128_to_rlp_item gas_price]
      | Eip1559 nonce max_priority max_fee gas_lim to value data acc_list \<Rightarrow>
          List [u64_to_rlp_item 2, u64_to_rlp_item nonce, u64_to_rlp_item gas_lim,
                to_to_rlp_item to, u128_to_rlp_item value, vec_to_rlp_item data,
                u128_to_rlp_item max_fee, u128_to_rlp_item max_priority,
                List (map access_list_item_to_rlp_item acc_list)]
      | Eip4844 nonce max_priority max_fee max_blob gas_lim to value data acc_list blobs \<Rightarrow>
          List [u64_to_rlp_item 3, u64_to_rlp_item nonce, u64_to_rlp_item gas_lim,
                to_to_rlp_item to, u128_to_rlp_item value, vec_to_rlp_item data,
                u128_to_rlp_item max_fee, u128_to_rlp_item max_priority,
                List (map access_list_item_to_rlp_item acc_list),
                u128_to_rlp_item max_blob, List (map b256_to_rlp_item blobs)])"

definition transaction_from_rlp_item :: "rlp_item \<Rightarrow> (transaction, rlp_error) outcome" where
  "transaction_from_rlp_item item =
     (case item of
        Bytes _ \<Rightarrow> Err (UnexpectedType 0x80)
      | List x \<Rightarrow>
          if x = [] then Err (InvalidLength 0)
          else
            and_then (field_of u64_from_rlp_item x 0) (\<lambda>tag.
            if tag = 0 then
              if length x \<noteq> 7 then Err (InvalidLength (length x))
              else
                and_then (field_of u64_from_rlp_item x 1) (\<lambda>nonce.
                and_then (field_of u64_from_rlp_item x 2) (\<lambda>gas_lim.
                and_then (field_of decode_to x 3) (\<lambda>to.
                and_then (field_of u128_from_rlp_item x 4) (\<lambda>value.
                and_then (field_of vec_from_rlp_item x 5) (\<lambda>data.
                and_then (field_of u128_from_rlp_item x 6) (\<lambda>gas_price.
                Ok (Legacy nonce gas_price gas_lim to value data)))))))
            else if tag = 2 then
              if length x \<noteq> 9 then Err (InvalidLength (length x))
              else
                and_then (field_of u64_from_rlp_item x 1) (\<lambda>nonce.
                and_then (field_of u64_from_rlp_item x 2) (\<lambda>gas_lim.
                and_then (field_of decode_to x 3) (\<lambda>to.
                and_then (field_of u128_from_rlp_item x 4) (\<lambda>value.
                and_then (field_of vec_from_rlp_item x 5) (\<lambda>data.
                and_then (field_of u128_from_rlp_item x 6) (\<lambda>max_fee.
                and_then (field_of u128_from_rlp_item x 7) (\<lambda>max_priority.
                and_then (field_of (decode_list_of access_list_item_from_rlp_item) x 8) (\<lambda>acc_list.
                Ok (Eip1559 nonce max_priority max_fee gas_lim to value data acc_list)))))))))
            else if tag = 3 then
              if length x \<noteq> 11 then Err (InvalidLength (length x))
              else
                and_then (field_of u64_from_rlp_item x 1) (\<lambda>nonce.
                and_then (field_of u64_from_rlp_item x 2) (\<lambda>gas_lim.
                and_then (field_of decode_to x 3) (\<lambda>to.
                and_then (field_of u128_from_rlp_item x 4) (\<lambda>value.
                and_then (field_of vec_from_rlp_item x 5) (\<lambda>data.
                and_then (field_of u128_from_rlp_item x 6) (\<lambda>max_fee.
                and_then (field_of u128_from_rlp_item x 7) (\<lambda>max_priority.
                and_then (field_of (decode_list_of access_list_item_from_rlp_item) x 8) (\<lambda>acc_list.
                and_then (field_of u128_from_rlp_item x 9) (\<lambda>max_blob.
                and_then (field_of (decode_list_of b256_from_rlp_item) x 10) (\<lambda>blobs.
                Ok (Eip4844 nonce max_priority max_fee max_blob gas_lim to value data acc_list
                      blobs)))))))))))
            else Err (UnexpectedType 0xff)))"

interpretation access_rlp: rlp_codable access_list_item_to_rlp_item access_list_item_from_rlp_item
  by unfold_locales
     (simp_all add: access_list_item_to_rlp_item_def access_list_item_from_rlp_item_def codec
      codec_no_panic field_of_not_Panic outcome_iffs split: rlp_item.split)

lemmas [codec] = access_rlp.from_to access_rlp.decode_list_of_map

lemma address_item_shape: "\<exists>b. address_to_rlp_item a = Bytes b \<and> b \<noteq> []"
  using length_as_bytes [of a]
  by (auto simp: address_to_rlp_item_def array_to_rlp_item_def simp del: length_as_bytes)

interpretation to_rlp: rlp_codable to_to_rlp_item decode_to
proof
  show "decode_to (to_to_rlp_item to) = Ok to" for to
  proof (cases to)
    case (Some a)
    then show ?thesis
      using address_rlp.from_to [of a] address_item_shape [of a]
      by (auto simp: decode_to_def to_to_rlp_item_def)
  qed (simp add: decode_to_def to_to_rlp_item_def)
  show "decode_to item \<noteq> Panic" for item
    by (simp add: decode_to_def outcome_iffs address_rlp.not_Panic split: rlp_item.split)
qed

lemmas [codec] = to_rlp.from_to
lemmas [codec_no_panic] = to_rlp.field_not_Panic

interpretation tx_rlp: rlp_codable transaction_to_rlp_item transaction_from_rlp_item
proof
  show "transaction_from_rlp_item (transaction_to_rlp_item tx) = Ok tx" for tx
    by (cases tx) (simp_all add: transaction_from_rlp_item_def transaction_to_rlp_item_def codec)
  show "transaction_from_rlp_item item \<noteq> Panic" for item
    by (simp add: transaction_from_rlp_item_def codec_no_panic outcome_iffs field_of_not_Panic
        access_rlp.decode_list_of_not_Panic split: rlp_item.split)
qed

lemmas [codec] = tx_rlp.from_to
lemmas [codec_no_panic] = tx_rlp.field_not_Panic

section \<open>Headers, signed transactions, blocks and accounts\<close>

definition header_to_rlp_item :: "header \<Rightarrow> rlp_item" where
  "header_to_rlp_item h =
     List [b256_to_rlp_item (parent_hash h), address_to_rlp_item (beneficiary h),
           b256_to_rlp_item (state_root h), b256_to_rlp_item (transactions_root h),
           u64_to_rlp_item (gas_limit h), u64_to_rlp_item (gas_used h),
           u64_to_rlp_item (timestamp h), u64_to_rlp_item (number h)]"

definition header_from_rlp_item :: "rlp_item \<Rightarrow> (header, rlp_error) outcome" where
  "header_from_rlp_item item =
     (case item of
        Bytes _ \<Rightarrow> Err (UnexpectedType 0x80)
      | List x \<Rightarrow>
          if length x \<noteq> 8 then Err (InvalidLength (length x))
          else
            and_then (field_of b256_from_rlp_item x 0) (\<lambda>parent.
            and_then (field_of address_from_rlp_item x 1) (\<lambda>benef.
            and_then (field_of b256_from_rlp_item x 2) (\<lambda>state.
            and_then (field_of b256_from_rlp_item x 3) (\<lambda>txs_root.
            and_then (field_of u64_from_rlp_item x 4) (\<lambda>gas_lim.
            and_then (field_of u64_from_rlp_item x 5) (\<lambda>used.
            and_then (field_of u64_from_rlp_item x 6) (\<lambda>time.
            and_then (field_of u64_from_rlp_item x 7) (\<lambda>num.
            Ok \<lparr>parent_hash = parent, beneficiary = benef, state_root = state,
                transactions_root = txs_root, gas_limit = gas_lim, gas_used = used,
                timestamp = time, number = num\<rparr>)))))))))"

definition signed_transaction_to_rlp_item :: "signed_transaction \<Rightarrow> rlp_item" where
  "signed_transaction_to_rlp_item stx =
     List [transaction_to_rlp_item (transaction stx), u64_to_rlp_item (sig_v stx),
           b256_to_rlp_item (sig_r stx), b256_to_rlp_item (sig_s stx)]"

definition signed_transaction_from_rlp_item ::
  "rlp_item \<Rightarrow> (signed_transaction, rlp_error) outcome" where
  "signed_transaction_from_rlp_item item =
     (case item of
        Bytes _ \<Rightarrow> Err (UnexpectedType 0x80)
      | List x \<Rightarrow>
          if length x \<noteq> 4 then Err (InvalidLength (length x))
          else
            and_then (field_of transaction_from_rlp_item x 0) (\<lambda>tx.
            and_then (field_of u64_from_rlp_item x 1) (\<lambda>v.
            and_then (field_of b256_from_rlp_item x 2) (\<lambda>r.
            and_then (field_of b256_from_rlp_item x 3) (\<lambda>s.
            Ok \<lparr>transaction = tx, sig_v = v, sig_r = r, sig_s = s\<rparr>)))))"

definition block_to_rlp_item :: "block \<Rightarrow> rlp_item" where
  "block_to_rlp_item b =
     List [header_to_rlp_item (block_header b),
           List (map signed_transaction_to_rlp_item (transactions b))]"

definition block_from_rlp_item :: "rlp_item \<Rightarrow> (block, rlp_error) outcome" where
  "block_from_rlp_item item =
     (case item of
        Bytes _ \<Rightarrow> Err (UnexpectedType 0x80)
      | List x \<Rightarrow>
          if length x \<noteq> 2 then Err (InvalidLength (length x))
          else
            and_then (field_of header_from_rlp_item x 0) (\<lambda>hdr.
            and_then (field_of (decode_list_of signed_transaction_from_rlp_item) x 1) (\<lambda>txs.
            Ok \<lparr>block_header = hdr, transactions = txs\<rparr>)))"

definition account_to_rlp_item :: "account \<Rightarrow> rlp_item" where
  "account_to_rlp_item a =
     List [u128_to_rlp_item (acc_balance a), u64_to_rlp_item (acc_nonce a),
           b256_to_rlp_item (acc_code_hash a)]"

text \<open>All three reads are of \<^verbatim>\<open>x[0]\<close>, as in the source.\<close>

definition account_from_rlp_item :: "rlp_item \<Rightarrow> (account, rlp_error) outcome" where
  "account_from_rlp_item item =
     (case item of
        Bytes _ \<Rightarrow> Err (UnexpectedType 0x80)
      | List x \<Rightarrow>
          if length x \<noteq> 3 then Err (InvalidLength (length x))
          else
            and_then (field_of u128_from_rlp_item x 0) (\<lambda>balance.
            and_then (field_of u64_from_rlp_item x 0) (\<lambda>nonce.
            and_then (field_of b256_from_rlp_item x 0) (\<lambda>hash.
            Ok \<lparr>acc_balance = balance, acc_nonce = nonce, acc_code_hash = hash\<rparr>))))"

interpretation header_rlp: rlp_codable header_to_rlp_item header_from_rlp_item
  by unfold_locales
     (simp_all add: header_to_rlp_item_def header_from_rlp_item_def codec codec_no_panic
      outcome_iffs split: rlp_item.split)

lemmas [codec] = header_rlp.from_to
lemmas [codec_no_panic] = header_rlp.field_not_Panic

interpretation stx_rlp: rlp_codable signed_transaction_to_rlp_item signed_transaction_from_rlp_item
  by unfold_locales
     (simp_all add: signed_transaction_to_rlp_item_def signed_transaction_from_rlp_item_def codec
      codec_no_panic outcome_iffs split: rlp_item.split)

lemmas [codec] = stx_rlp.from_to stx_rlp.decode_list_of_map

interpretation block_rlp: rlp_codable block_to_rlp_item block_from_rlp_item
  by unfold_locales
     (simp_all add: block_to_rlp_item_def block_from_rlp_item_def codec codec_no_panic
      field_of_not_Panic stx_rlp.decode_list_of_not_Panic outcome_iffs split: rlp_item.split)

lemmas [codec] = block_rlp.from_to
lemmas [codec_no_panic] = block_rlp.field_not_Panic

text \<open>Headers have a bounded encoding, so hashing one never fails.\<close>

lemma length_prefix_len_156: "length_prefix_len 156 = 2"
  by (simp add: length_prefix_len_def encoded_length_len_eq nbytes.simps)

lemma header_len: "encoded_len (header_to_rlp_item h) \<le> 158"
proof -
  have "sum_list (map encoded_len
     [b256_to_rlp_item (parent_hash h), address_to_rlp_item (beneficiary h),
      b256_to_rlp_item (state_root h), b256_to_rlp_item (transactions_root h),
      u64_to_rlp_item (gas_limit h), u64_to_rlp_item (gas_used h),
      u64_to_rlp_item (timestamp h), u64_to_rlp_item (number h)]) \<le> 156"
    using b256_len [of "parent_hash h"] address_len [of "beneficiary h"] b256_len [of "state_root h"]
      b256_len [of "transactions_root h"] u64_len [of "gas_limit h"] u64_len [of "gas_used h"]
      u64_len [of "timestamp h"] u64_len [of "number h"]
    by simp
  from encoded_len_List_le [OF this] show ?thesis
    by (simp add: header_to_rlp_item_def length_prefix_len_156)
qed

lemma empty_block_len: "encoded_len (block_to_rlp_item \<lparr>block_header = h, transactions = []\<rparr>) < 2 ^ 64"
proof -
  have "sum_list (map encoded_len [header_to_rlp_item h, List []]) \<le> 256"
    using header_len [of h] by (simp add: list_prefix_len_def length_prefix_len_def)
  from encoded_len_List_le [OF this] show ?thesis
    by (simp add: block_to_rlp_item_def length_prefix_len_def encoded_length_len_eq nbytes.simps
        del: encoded_len.simps)
qed

text \<open>
  A block survives the wire: for every block whose encoding fits a 64-bit length, \<^verbatim>\<open>encode\<close> of
  its item succeeds, and \<^verbatim>\<open>decode\<close> followed by \<^verbatim>\<open>Block::from_rlp_item\<close> gives the block back and
  leaves any bytes that follow.
\<close>

theorem block_bytes_roundtrip:
  assumes "encoded_len (block_to_rlp_item b) < 2 ^ 64"
  shows "\<exists>bs. encode (block_to_rlp_item b) = Ok bs \<and>
     and_then (decode (bs @ rest)) (\<lambda>(item, remaining).
       and_then (block_from_rlp_item item) (\<lambda>b'. Ok (b', remaining))) = Ok (b, rest)"
  using assms by (rule block_rlp.bytes_roundtrip)

theorem block_bytes_roundtrip_witness:
  "\<exists>bs. encode (block_to_rlp_item \<lparr>block_header = genesis_header
         \<lparr>gc_chain_id = 1, gc_accounts = [], genesis_timestamp = 5\<rparr>, transactions = []\<rparr>) = Ok bs \<and>
     and_then (decode (bs @ [7])) (\<lambda>(item, remaining).
       and_then (block_from_rlp_item item) (\<lambda>b'. Ok (b', remaining))) =
     Ok (\<lparr>block_header = genesis_header
         \<lparr>gc_chain_id = 1, gc_accounts = [], genesis_timestamp = 5\<rparr>, transactions = []\<rparr>, [7])"
  by (rule block_bytes_roundtrip, rule empty_block_len)

text \<open>
  C35. \<^verbatim>\<open>Account::from_rlp_item\<close> never succeeds: it reads the first element for all three fields,
  and no byte string is at once at most eight bytes long (the nonce) and 32 bytes long (the code
  hash). In particular it does not decode what \<^verbatim>\<open>Account::to_rlp_item\<close> produced.
\<close>

theorem account_never_decodes: "account_from_rlp_item item \<noteq> Ok a"
  by (auto simp: account_from_rlp_item_def outcome_iffs field_of_def u64_from_rlp_item_def
      uint_from_rlp_item_def b256_from_rlp_item_def array_from_rlp_item_def try_from_def
      split: rlp_item.splits if_splits)

end
