(* ===== verification/Signing.thy ===== *)
theory Signing
  imports Rlp_Traits
begin

text \<open>
  The crate \<^verbatim>\<open>core/rlp-codec\<close>, file \<^verbatim>\<open>signing.rs\<close>: signing payloads, transaction and header hashes,
  \<^verbatim>\<open>sign\<close> and \<^verbatim>\<open>recover_sender\<close>. The hash function and the elliptic-curve operations are those of
  the crates \<^verbatim>\<open>sha3\<close> and \<^verbatim>\<open>k256\<close>: the model takes them as a record of functions, and \<open>crypto_laws\<close>
  names what their documentation promises.
\<close>

section \<open>The cryptographic operations the code calls\<close>

text \<open>
  \<^item> \<open>keccak_digest\<close>: \<^verbatim>\<open>Keccak256::new().update(data).finalize()\<close>;
  \<^item> \<open>key_valid\<close>: \<^verbatim>\<open>SigningKey::from_bytes\<close> succeeds;
  \<^item> \<open>sign_prehash\<close>: \<^verbatim>\<open>sign_prehash_recoverable\<close>, with the recovery id as its byte;
  \<^item> \<open>recovery_id_valid\<close>: \<^verbatim>\<open>RecoveryId::try_from\<close> succeeds;
  \<^item> \<open>signature_valid\<close>: \<^verbatim>\<open>Signature::from_slice\<close> succeeds;
  \<^item> \<open>recover_key\<close>: \<^verbatim>\<open>VerifyingKey::recover_from_prehash\<close>, as the bytes of the uncompressed point;
  \<^item> \<open>public_key\<close>: the uncompressed point of a key's \<^verbatim>\<open>verifying_key\<close> (no code calls it; the laws do).
\<close>

record crypto =
  keccak_digest :: "bytes \<Rightarrow> b256"
  key_valid :: "b256 \<Rightarrow> bool"
  sign_prehash :: "b256 \<Rightarrow> b256 \<Rightarrow> (64 byte_array \<times> u8) option"
  recovery_id_valid :: "u8 \<Rightarrow> bool"
  signature_valid :: "64 byte_array \<Rightarrow> bool"
  recover_key :: "b256 \<Rightarrow> 64 byte_array \<Rightarrow> u8 \<Rightarrow> bytes option"
  public_key :: "b256 \<Rightarrow> bytes"

text \<open>
  A signature that signing returned is well formed and recovers the key it was made with;
  uncompressed points are 65 bytes; the recovery ids 0 and 1 exist.
\<close>

definition crypto_laws :: "crypto \<Rightarrow> bool" where
  "crypto_laws c \<longleftrightarrow>
     (\<forall>key hash sig rid. sign_prehash c key hash = Some (sig, rid) \<longrightarrow>
        signature_valid c sig \<and> recover_key c hash sig rid = Some (public_key c key)) \<and>
     (\<forall>hash sig rid point. recover_key c hash sig rid = Some point \<longrightarrow> length point = 65) \<and>
     recovery_id_valid c 0 \<and> recovery_id_valid c 1"

section \<open>Payloads and hashes\<close>

datatype signing_error =
    InvalidPrivateKey
  | SigningFailed
  | RecoveryFailed
  | InvalidSignature
  | PayloadEncoding rlp_error

definition keccak256 :: "crypto \<Rightarrow> bytes \<Rightarrow> b256" where
  "keccak256 c data = keccak_digest c data"

definition encode_to :: "address option \<Rightarrow> rlp_item" where
  "encode_to to = (case to of Some addr \<Rightarrow> address_to_rlp_item addr | None \<Rightarrow> Bytes [])"

text \<open>The two \<^verbatim>\<open>match\<close>es that push the fields; the other variants are \<^verbatim>\<open>unreachable!\<close>.\<close>

definition legacy_fields :: "transaction \<Rightarrow> (rlp_item list, rlp_error) outcome" where
  "legacy_fields tx =
     (case tx of
        Legacy nonce gas_price gas_lim to value data \<Rightarrow>
          Ok [u64_to_rlp_item nonce, u128_to_rlp_item gas_price, u64_to_rlp_item gas_lim,
              encode_to to, u128_to_rlp_item value, vec_to_rlp_item data]
      | _ \<Rightarrow> Panic)"

definition typed_fields :: "transaction \<Rightarrow> (rlp_item list, rlp_error) outcome" where
  "typed_fields tx =
     (case tx of
        Eip1559 nonce max_priority max_fee gas_lim to value data acc_list \<Rightarrow>
          Ok [u64_to_rlp_item nonce, u128_to_rlp_item max_priority, u128_to_rlp_item max_fee,
              u64_to_rlp_item gas_lim, encode_to to, u128_to_rlp_item value,
              vec_to_rlp_item data, List (map access_list_item_to_rlp_item acc_list)]
      | Eip4844 nonce max_priority max_fee max_blob gas_lim to value data acc_list blobs \<Rightarrow>
          Ok [u64_to_rlp_item nonce, u128_to_rlp_item max_priority, u128_to_rlp_item max_fee,
              u64_to_rlp_item gas_lim, encode_to to, u128_to_rlp_item value,
              vec_to_rlp_item data, List (map access_list_item_to_rlp_item acc_list),
              u128_to_rlp_item max_blob, List (map b256_to_rlp_item blobs)]
      | _ \<Rightarrow> Panic)"

definition legacy_to_wire :: "signed_transaction \<Rightarrow> (bytes, rlp_error) outcome" where
  "legacy_to_wire signed_tx =
     and_then (legacy_fields (transaction signed_tx)) (\<lambda>fields.
     encode (List (fields @ [u64_to_rlp_item (sig_v signed_tx), b256_to_rlp_item (sig_r signed_tx),
                             b256_to_rlp_item (sig_s signed_tx)])))"

definition typed_to_wire :: "signed_transaction \<Rightarrow> (bytes, rlp_error) outcome" where
  "typed_to_wire signed_tx =
     and_then (typed_fields (transaction signed_tx)) (\<lambda>fields.
     and_then (map_err RlpTransaction (tx_type (transaction signed_tx))) (\<lambda>ty.
     and_then (encode (List (fields @ [u64_to_rlp_item (sig_v signed_tx),
                 b256_to_rlp_item (sig_r signed_tx), b256_to_rlp_item (sig_s signed_tx)]))) (\<lambda>bs.
     Ok (ty # bs))))"

definition signed_transaction_hash ::
  "crypto \<Rightarrow> signed_transaction \<Rightarrow> (b256, signing_error) outcome" where
  "signed_transaction_hash c stx =
     and_then (map_err PayloadEncoding
       (case transaction stx of
          Legacy _ _ _ _ _ _ \<Rightarrow> legacy_to_wire stx
        | _ \<Rightarrow> typed_to_wire stx)) (\<lambda>bytes.
     Ok (keccak256 c bytes))"

definition hash_header :: "crypto \<Rightarrow> header \<Rightarrow> (b256, rlp_error) outcome" where
  "hash_header c h =
     and_then (encode (header_to_rlp_item h)) (\<lambda>buffer. Ok (keccak256 c buffer))"

definition legacy_to_encoded_bytes :: "transaction \<Rightarrow> u64 \<Rightarrow> (bytes, rlp_error) outcome" where
  "legacy_to_encoded_bytes tx chain_id =
     and_then (legacy_fields tx) (\<lambda>fields.
     encode (List (fields @ [u64_to_rlp_item chain_id, u64_to_rlp_item 0, u64_to_rlp_item 0])))"

definition typed_to_encoded_bytes :: "transaction \<Rightarrow> u64 \<Rightarrow> (bytes, rlp_error) outcome" where
  "typed_to_encoded_bytes tx chain_id =
     and_then (typed_fields tx) (\<lambda>fields.
     and_then (map_err RlpTransaction (tx_type tx)) (\<lambda>ty.
     and_then (encode (List (u64_to_rlp_item chain_id # fields))) (\<lambda>bs.
     Ok (ty # bs))))"

text \<open>The \<^verbatim>\<open>match\<close> with which both \<^verbatim>\<open>sign\<close> and \<^verbatim>\<open>recover_sender\<close> begin.\<close>

definition signing_payload :: "transaction \<Rightarrow> u64 \<Rightarrow> (bytes, signing_error) outcome" where
  "signing_payload tx chain_id =
     map_err PayloadEncoding
       (case tx of
          Legacy _ _ _ _ _ _ \<Rightarrow> legacy_to_encoded_bytes tx chain_id
        | _ \<Rightarrow> typed_to_encoded_bytes tx chain_id)"

section \<open>Signing and recovery\<close>

text \<open>\<^verbatim>\<open>recovery_id.to_byte() as u64 + chain_id.checked_mul(2)? + 35\<close>; the additions are unguarded.\<close>

definition signature_v :: "transaction \<Rightarrow> u8 \<Rightarrow> u64 \<Rightarrow> (u64, signing_error) outcome" where
  "signature_v tx recovery_id chain_id =
     (case tx of
        Legacy _ _ _ _ _ _ \<Rightarrow>
          and_then (ok_or InvalidSignature (checked_mul chain_id 2)) (\<lambda>twice.
          and_then (add_or_panic (ucast recovery_id) twice) (\<lambda>x.
          add_or_panic x 35))
      | _ \<Rightarrow> Ok (ucast recovery_id))"

definition sign ::
  "crypto \<Rightarrow> transaction \<Rightarrow> bytes \<Rightarrow> u64 \<Rightarrow> (signed_transaction, signing_error) outcome" where
  "sign c tx private_key_bytes chain_id =
     and_then (signing_payload tx chain_id) (\<lambda>payload.
     let hash_bytes = keccak256 c payload in
     and_then (map_err (\<lambda>_. InvalidPrivateKey) (try_from private_key_bytes)) (\<lambda>key.
     if \<not> key_valid c key then Err InvalidPrivateKey
     else
       and_then (ok_or SigningFailed (sign_prehash c key hash_bytes)) (\<lambda>(signature, recovery_id).
       and_then (slice_to (as_bytes signature) 32) (\<lambda>r_slice.
       and_then (map_err (\<lambda>_. InvalidSignature) (try_from r_slice)) (\<lambda>r.
       and_then (slice_from (as_bytes signature) 32) (\<lambda>s_slice.
       and_then (map_err (\<lambda>_. InvalidSignature) (try_from s_slice)) (\<lambda>s.
       and_then (signature_v tx recovery_id chain_id) (\<lambda>v.
       Ok \<lparr>transaction = tx, sig_v = v, sig_r = r, sig_s = s\<rparr>))))))))"

definition recovery_id_byte :: "signed_transaction \<Rightarrow> u64 \<Rightarrow> (u64, signing_error) outcome" where
  "recovery_id_byte stx chain_id =
     (case transaction stx of
        Legacy _ _ _ _ _ _ \<Rightarrow>
          and_then (ok_or InvalidSignature (checked_mul chain_id 2)) (\<lambda>twice.
          ok_or InvalidSignature
            (Option.bind (checked_sub (sig_v stx) twice) (\<lambda>x. checked_sub x 35)))
      | _ \<Rightarrow> Ok (sig_v stx))"

definition recover_sender ::
  "crypto \<Rightarrow> signed_transaction \<Rightarrow> u64 \<Rightarrow> (address, signing_error) outcome" where
  "recover_sender c stx chain_id =
     and_then (signing_payload (transaction stx) chain_id) (\<lambda>payload.
     let hash_bytes = keccak256 c payload in
     and_then (recovery_id_byte stx chain_id) (\<lambda>id_byte.
     if id_byte > 1 then Err InvalidSignature
     else if \<not> recovery_id_valid c (ucast id_byte) then Err SigningFailed
     else
       let signature = byte_array (as_bytes (sig_r stx) @ as_bytes (sig_s stx)) in
       if \<not> signature_valid c signature then Err SigningFailed
       else
         and_then (ok_or RecoveryFailed (recover_key c hash_bytes signature (ucast id_byte))) (\<lambda>point.
         and_then (slice_from point 1) (\<lambda>point_bytes.
         and_then (slice_from (as_bytes (keccak256 c point_bytes)) 12) (\<lambda>tail.
         map_err (\<lambda>_. RecoveryFailed) (try_from tail))))))"

section \<open>The payload is unambiguous\<close>

text \<open>The payload without the outcome: its fields, the item, and the bytes.\<close>

definition tx_fields :: "transaction \<Rightarrow> rlp_item list" where
  "tx_fields tx =
     (case tx of
        Legacy nonce gas_price gas_lim to value data \<Rightarrow>
          [u64_to_rlp_item nonce, u128_to_rlp_item gas_price, u64_to_rlp_item gas_lim,
           to_to_rlp_item to, u128_to_rlp_item value, vec_to_rlp_item data]
      | Eip1559 nonce max_priority max_fee gas_lim to value data acc_list \<Rightarrow>
          [u64_to_rlp_item nonce, u128_to_rlp_item max_priority, u128_to_rlp_item max_fee,
           u64_to_rlp_item gas_lim, to_to_rlp_item to, u128_to_rlp_item value,
           vec_to_rlp_item data, List (map access_list_item_to_rlp_item acc_list)]
      | Eip4844 nonce max_priority max_fee max_blob gas_lim to value data acc_list blobs \<Rightarrow>
          [u64_to_rlp_item nonce, u128_to_rlp_item max_priority, u128_to_rlp_item max_fee,
           u64_to_rlp_item gas_lim, to_to_rlp_item to, u128_to_rlp_item value,
           vec_to_rlp_item data, List (map access_list_item_to_rlp_item acc_list),
           u128_to_rlp_item max_blob, List (map b256_to_rlp_item blobs)])"

definition signing_item :: "transaction \<Rightarrow> u64 \<Rightarrow> rlp_item" where
  "signing_item tx chain_id =
     (if is_Legacy tx
      then List (tx_fields tx @ [u64_to_rlp_item chain_id, u64_to_rlp_item 0, u64_to_rlp_item 0])
      else List (u64_to_rlp_item chain_id # tx_fields tx))"

definition type_prefix :: "transaction \<Rightarrow> bytes" where
  "type_prefix tx = (if is_Legacy tx then [] else if is_Eip1559 tx then [2] else [3])"

lemma encode_to_eq: "encode_to = to_to_rlp_item"
  by (simp add: fun_eq_iff encode_to_def to_to_rlp_item_def)

lemma signing_payload_eq:
  "encoded_len (signing_item tx chain_id) < 2 ^ 64 \<Longrightarrow>
     signing_payload tx chain_id = Ok (type_prefix tx @ rlp_bytes (signing_item tx chain_id))"
  by (cases tx)
     (simp_all add: signing_payload_def legacy_to_encoded_bytes_def typed_to_encoded_bytes_def
      legacy_fields_def typed_fields_def tx_type_def signing_item_def tx_fields_def
      type_prefix_def encode_to_eq encode_eq del: encode.simps rlp_bytes.simps encoded_len.simps)

lemma hd_list_bytes:
  assumes "encoded_len (List items) < 2 ^ 64"
  shows "0xc0 \<le> hd (rlp_bytes (List items))"
proof -
  have "length (concat (map rlp_bytes items)) < 2 ^ 64"
    using assms encoded_len_payload [of items]
    by (simp add: length_concat comp_def length_rlp_bytes)
  then show ?thesis
    using nbytes_le_8 [of "length (concat (map rlp_bytes items))"]
    by (simp add: prefix_bytes_def Let_def word_le_nat_alt short_prefix)
qed

lemma signing_item_inject:
  "signing_item tx chain_id = signing_item tx' chain_id' \<Longrightarrow>
   type_prefix tx = type_prefix tx' \<Longrightarrow> tx = tx' \<and> chain_id = chain_id'"
  by (cases tx; cases tx')
     (simp_all add: signing_item_def type_prefix_def tx_fields_def u64_rlp.to_rlp_item_inject
      u128_rlp.to_rlp_item_inject to_rlp.to_rlp_item_inject vec_rlp.to_rlp_item_inject
      access_rlp.map_inject b256_rlp.map_inject)

lemma signing_item_List: "\<exists>items. signing_item tx chain_id = List items"
  by (simp add: signing_item_def)

lemma type_prefix_bytes_inject:
  assumes len: "encoded_len (signing_item tx chain_id) < 2 ^ 64"
      "encoded_len (signing_item tx' chain_id') < 2 ^ 64"
    and eq: "type_prefix tx @ rlp_bytes (signing_item tx chain_id) =
      type_prefix tx' @ rlp_bytes (signing_item tx' chain_id')"
  shows "type_prefix tx = type_prefix tx'"
proof -
  have hd: "0xc0 \<le> hd (rlp_bytes (signing_item tx chain_id))"
    "0xc0 \<le> hd (rlp_bytes (signing_item tx' chain_id'))"
    using hd_list_bytes signing_item_List len by metis+
  have ne: "hd (rlp_bytes (signing_item tx chain_id)) \<notin> {2, 3}"
    "hd (rlp_bytes (signing_item tx' chain_id')) \<notin> {2, 3}"
    using hd by auto
  from arg_cong [OF eq, of hd] show ?thesis
    using ne by (auto simp: type_prefix_def split: if_splits)
qed

lemma to_len: "encoded_len (to_to_rlp_item to) \<le> 21"
  using address_len by (cases to) (simp_all add: to_to_rlp_item_def length_prefix_len_def)

text \<open>A plain transfer is short, whoever pays whom.\<close>

lemma transfer_signing_len:
  "encoded_len (signing_item (Legacy nonce price gas to v []) chain_id) < 2 ^ 64"
proof -
  have "sum_list (map encoded_len
      (tx_fields (Legacy nonce price gas to v []) @
        [u64_to_rlp_item chain_id, u64_to_rlp_item 0, u64_to_rlp_item 0])) \<le> 156"
    using u64_len [of nonce] u64_len [of gas] u64_len [of chain_id] u64_len [of 0] to_len [of to]
      u128_len [of price] u128_len [of v]
    by (simp add: tx_fields_def vec_to_rlp_item_def length_prefix_len_def)
  from encoded_len_List_le [OF this] show ?thesis
    by (simp add: signing_item_def length_prefix_len_156 del: encoded_len.simps)
qed

text \<open>
  C36. What is signed determines the transaction and the chain: two payloads are equal only for the
  same transaction on the same chain, whatever the transaction types. (A typed payload starts
  with its type, a legacy one with a list prefix; RLP is prefix free and every field impl is
  injective.)
\<close>

theorem signing_payload_injective:
  assumes "encoded_len (signing_item tx chain_id) < 2 ^ 64"
    and "encoded_len (signing_item tx' chain_id') < 2 ^ 64"
    and "signing_payload tx chain_id = signing_payload tx' chain_id'"
  shows "tx = tx' \<and> chain_id = chain_id'"
proof -
  have eq: "type_prefix tx @ rlp_bytes (signing_item tx chain_id) =
      type_prefix tx' @ rlp_bytes (signing_item tx' chain_id')"
    using assms(3) by (simp only: signing_payload_eq [OF assms(1)] signing_payload_eq [OF assms(2)] outcome.inject)
  then have ty: "type_prefix tx = type_prefix tx'"
    using type_prefix_bytes_inject [OF assms(1,2)] by blast
  with eq have "rlp_bytes (signing_item tx chain_id) = rlp_bytes (signing_item tx' chain_id')"
    by simp
  then have "signing_item tx chain_id = signing_item tx' chain_id'"
    using rlp_bytes_inj assms(1) by blast
  then show ?thesis using ty by (rule signing_item_inject)
qed

theorem signing_payload_injective_witness:
  "encoded_len (signing_item (Legacy 1 2 3 None 4 []) 5) < 2 ^ 64 \<and>
   encoded_len (signing_item (Legacy 1 2 3 None 4 []) 6) < 2 ^ 64 \<and>
   signing_payload (Legacy 1 2 3 None 4 []) 5 \<noteq> signing_payload (Legacy 1 2 3 None 4 []) 6"
proof -
  have "Legacy 1 2 3 None 4 [] = Legacy 1 2 3 None 4 [] \<and> (5 :: u64) = 6"
    if "signing_payload (Legacy 1 2 3 None 4 []) 5 = signing_payload (Legacy 1 2 3 None 4 []) 6"
    by (rule signing_payload_injective [OF transfer_signing_len transfer_signing_len that])
  then show ?thesis
    using transfer_signing_len by auto
qed

section \<open>Signing and recovering\<close>

text \<open>The address of a key: the last twenty bytes of the hash of its public point.\<close>

definition address_of_key :: "crypto \<Rightarrow> b256 \<Rightarrow> address" where
  "address_of_key c key = byte_array (drop 12 (as_bytes (keccak256 c (drop 1 (public_key c key)))))"

lemma checked_v:
  fixes rid :: u8 and chain_id x v :: u64
  assumes "checked_mul chain_id 2 = Some x" and "checked_add (ucast rid) x = Some y"
    and "checked_add y 35 = Some v"
  shows "Option.bind (checked_sub v x) (\<lambda>z. checked_sub z 35) = Some (ucast rid)"
  using assms
  by (simp add: checked_add_eq_Some checked_sub_def word_le_nat_alt word_unat_eq_iff
      unat_sub unat_ucast_up)

lemma recovery_id_byte_sign:
  "signature_v tx rid chain_id = Ok v \<Longrightarrow> transaction stx = tx \<Longrightarrow> sig_v stx = v \<Longrightarrow>
     recovery_id_byte stx chain_id = Ok (ucast rid)"
  using checked_v
  by (cases tx)
     (auto simp: signature_v_def recovery_id_byte_def outcome_iffs add_or_panic_def)

lemma ucast_rid:
  fixes rid :: u8
  shows "(1 :: u64) < ucast rid \<longleftrightarrow> \<not> rid \<le> 1" and "ucast (ucast rid :: u64) = rid"
  by (simp_all add: word_le_nat_alt word_less_nat_alt unat_ucast_up not_le)
     (simp add: word_unat_eq_iff unsigned_ucast_eq take_bit_word_eq_self)

lemma sign_Ok:
  assumes "sign c tx pk chain_id = Ok stx"
  obtains payload key sig rid where
    "signing_payload tx chain_id = Ok payload" "try_from pk = Ok key" "key_valid c key"
    "sign_prehash c key (keccak256 c payload) = Some (sig, rid)"
    "signature_v tx rid chain_id = Ok (sig_v stx)"
    "transaction stx = tx" "byte_array (as_bytes (sig_r stx) @ as_bytes (sig_s stx)) = sig"
  using assms
  by (auto simp: sign_def outcome_iffs slice_defs try_from_def Let_def split: if_splits)

lemma recover_signed:
  assumes "crypto_laws c" and "sign c tx pk chain_id = Ok stx"
  shows "transaction stx = tx \<and>
    (\<exists>payload key sig rid. signing_payload tx chain_id = Ok payload \<and> try_from pk = Ok key \<and>
       sign_prehash c key (keccak256 c payload) = Some (sig, rid) \<and>
       recover_sender c stx chain_id =
         (if rid \<le> 1 then Ok (address_of_key c key) else Err InvalidSignature))"
proof -
  from assms(2) obtain payload key sig rid where
    p: "signing_payload tx chain_id = Ok payload" and key: "try_from pk = Ok key" and
    sig: "sign_prehash c key (keccak256 c payload) = Some (sig, rid)" and
    v: "signature_v tx rid chain_id = Ok (sig_v stx)" and
    tx: "transaction stx = tx" and rs: "byte_array (as_bytes (sig_r stx) @ as_bytes (sig_s stx)) = sig"
    by (rule sign_Ok)
  have laws: "signature_valid c sig" "recover_key c (keccak256 c payload) sig rid = Some (public_key c key)"
    "length (public_key c key) = 65"
    using assms(1) sig unfolding crypto_laws_def by blast+
  have rid: "recovery_id_valid c rid" if "rid \<le> 1"
  proof -
    have "rid = 0 \<or> rid = 1" using that by (simp add: word_le_nat_alt word_unat_eq_iff) linarith
    then show ?thesis using assms(1) unfolding crypto_laws_def by blast
  qed
  have "recover_sender c stx chain_id =
      (if rid \<le> 1 then Ok (address_of_key c key) else Err InvalidSignature)"
    using p tx rs laws rid recovery_id_byte_sign [OF v tx refl]
    by (simp add: recover_sender_def Let_def ucast_rid slice_defs try_from_def address_of_key_def)
  then show ?thesis using p key sig tx by blast
qed

text \<open>
  C18. Recovery inverts signing: under the laws of the signature scheme, whatever \<^verbatim>\<open>sign\<close> returns for
  a transaction and a chain carries that transaction, and \<^verbatim>\<open>recover_sender\<close> on the same chain gives
  the address of the signing key, unless the scheme chose one of the two recovery ids above 1,
  which the code rejects.
\<close>

theorem recover_sender_sign:
  assumes "crypto_laws c" and "sign c tx pk chain_id = Ok stx"
  shows "transaction stx = tx \<and>
    (\<exists>payload key sig rid. signing_payload tx chain_id = Ok payload \<and> try_from pk = Ok key \<and>
       sign_prehash c key (keccak256 c payload) = Some (sig, rid) \<and>
       recover_sender c stx chain_id =
         (if rid \<le> 1 then Ok (address_of_key c key) else Err InvalidSignature))"
  using assms by (rule recover_signed)

text \<open>A scheme that satisfies the laws: the signature carries the key.\<close>

definition sample_crypto :: crypto where
  "sample_crypto =
     \<lparr>keccak_digest = (\<lambda>data. byte_array data),
      key_valid = (\<lambda>key. key \<noteq> zero_array),
      sign_prehash = (\<lambda>key hash. Some (byte_array (as_bytes key @ as_bytes hash), 1)),
      recovery_id_valid = (\<lambda>rid. rid \<le> 3),
      signature_valid = (\<lambda>sig. True),
      recover_key = (\<lambda>hash sig rid. Some (4 # take 32 (as_bytes sig) @ replicate 32 0)),
      public_key = (\<lambda>key. 4 # as_bytes key @ replicate 32 0)\<rparr>"

lemma sample_crypto_laws: "crypto_laws sample_crypto"
  by (auto simp: crypto_laws_def sample_crypto_def)

lemma sample_sign:
  "sign sample_crypto (Legacy 1 2 3 None 4 []) (replicate 32 1) 5 =
     Ok \<lparr>transaction = Legacy 1 2 3 None 4 [], sig_v = 46, sig_r = byte_array (replicate 32 1),
        sig_s = byte_array (rlp_bytes (signing_item (Legacy 1 2 3 None 4 []) 5))\<rparr>"
proof -
  have "(byte_array (replicate 32 1) :: b256) \<noteq> zero_array"
    by (simp add: zero_array_def byte_array_eq_iff)
  then show ?thesis
    by (simp add: sign_def signing_payload_eq [OF transfer_signing_len] try_from_def sample_crypto_def
        keccak256_def type_prefix_def slice_defs signature_v_def checked_mul_def add_or_panic_def
        checked_add_def del: rlp_bytes.simps)
qed

theorem recover_sender_sign_witness:
  "recover_sender sample_crypto
     \<lparr>transaction = Legacy 1 2 3 None 4 [], sig_v = 46, sig_r = byte_array (replicate 32 1),
      sig_s = byte_array (rlp_bytes (signing_item (Legacy 1 2 3 None 4 []) 5))\<rparr> 5 =
   Ok (address_of_key sample_crypto (byte_array (replicate 32 1)))"
proof -
  have key: "try_from (replicate 32 1) = Ok (byte_array (replicate 32 1) :: b256)"
    by (simp add: try_from_def)
  then show ?thesis
    using recover_sender_sign [OF sample_crypto_laws sample_sign]
    by (auto simp: sample_crypto_def)
qed

text \<open>
  Replay protection: a signed legacy transaction has a sender on at most one chain id.
\<close>

theorem legacy_single_chain:
  assumes "is_Legacy (transaction stx)"
    and "recover_sender c stx chain_id = Ok a" and "recover_sender c stx chain_id' = Ok b"
  shows "chain_id = chain_id'"
proof -
  have v: "\<exists>rid \<le> 1. unat (sig_v stx) = 2 * unat k + 35 + rid"
    if "recover_sender c stx k = Ok a" for k a
  proof -
    from that obtain i where i: "recovery_id_byte stx k = Ok i" "\<not> 1 < i"
      by (auto simp: recover_sender_def outcome_iffs Let_def split: if_splits)
    then have "unat (sig_v stx) = 2 * unat k + 35 + unat i"
      using assms(1)
      by (auto simp: recovery_id_byte_def checked_mul_eq_Some checked_sub_eq_Some outcome_iffs
          bind_eq_Some_conv split: transaction.splits)
    with i(2) show ?thesis by (auto simp: word_less_nat_alt)
  qed
  from v [OF assms(2)] v [OF assms(3)] have "unat chain_id = unat chain_id'"
    by presburger
  then show ?thesis by (simp add: word_unat_eq_iff)
qed

lemma sample_recover:
  "recover_sender sample_crypto
     \<lparr>transaction = Legacy 1 2 3 None 4 [], sig_v = 46, sig_r = byte_array (replicate 32 1), sig_s = s\<rparr> 5 =
   Ok (address_of_key sample_crypto (byte_array (replicate 32 1)))"
  by (simp add: recover_sender_def signing_payload_eq [OF transfer_signing_len] recovery_id_byte_def
      checked_mul_def checked_sub_def sample_crypto_def Let_def slice_defs try_from_def
      address_of_key_def keccak256_def del: rlp_bytes.simps)

theorem legacy_single_chain_witness:
  "(\<exists>a. recover_sender sample_crypto \<lparr>transaction = Legacy 1 2 3 None 4 [], sig_v = 46,
        sig_r = byte_array (replicate 32 1), sig_s = zero_array\<rparr> 5 = Ok a) \<and>
   \<not> (\<exists>a. recover_sender sample_crypto \<lparr>transaction = Legacy 1 2 3 None 4 [], sig_v = 46,
        sig_r = byte_array (replicate 32 1), sig_s = zero_array\<rparr> 6 = Ok a)"
  using legacy_single_chain [of _ sample_crypto 5 _ 6, OF _ sample_recover] sample_recover by fastforce

section \<open>Panics\<close>

text \<open>
  \<^verbatim>\<open>sign\<close> checks the multiplication of the chain id but not the two additions after it, so a chain
  id just below \<open>2 ^ 63\<close> overflows them.
\<close>

lemma signature_v_overflow: "is_Legacy tx \<Longrightarrow> signature_v tx rid 0x7fffffffffffffff = Panic"
proof -
  have "unat (0xfffffffffffffffe :: u64) = 2 ^ 64 - 2" by simp
  moreover have "add_or_panic x 35 = Panic"
    if "checked_add (ucast rid) 0xfffffffffffffffe = Some x" for x :: u64
    using that by (simp add: add_or_panic_def checked_add_eq_Some checked_add_eq_None)
  moreover assume "is_Legacy tx"
  ultimately show ?thesis
    by (cases tx)
       (auto simp: signature_v_def checked_mul_def outcome_iffs add_or_panic_def)
qed

lemma signature_v_not_Panic:
  assumes "rid \<le> 3" and "chain_id < 0x7fffffffffffffec"
  shows "signature_v tx rid chain_id \<noteq> Panic"
proof -
  have "unat rid \<le> 3" "unat chain_id < 0x7fffffffffffffec"
    using assms by (simp_all add: word_le_nat_alt word_less_nat_alt)
  then show ?thesis
    by (cases tx)
       (auto simp: signature_v_def outcome_iffs add_or_panic_def checked_mul_eq_Some
        checked_add_eq_Some checked_add_eq_None unat_ucast_up)
qed

text \<open>
  Nothing a peer sends makes \<^verbatim>\<open>recover_sender\<close> panic: for every signed transaction that fits a
  64-bit length and every chain id it returns an address or an error.
\<close>

theorem recover_sender_total:
  assumes "crypto_laws c" and "encoded_len (signing_item (transaction stx) chain_id) < 2 ^ 64"
  shows "recover_sender c stx chain_id \<noteq> Panic"
proof -
  have "length point = 65" if "recover_key c hash sig rid = Some point" for hash sig rid point
    using assms(1) that unfolding crypto_laws_def by blast
  moreover have "recovery_id_byte stx chain_id \<noteq> Panic"
    by (simp add: recovery_id_byte_def outcome_iffs split: transaction.split)
  ultimately show ?thesis
    by (simp add: recover_sender_def signing_payload_eq [OF assms(2)] outcome_iffs Let_def slice_defs
        try_from_def del: rlp_bytes.simps)
qed

theorem recover_sender_total_witness:
  "recover_sender sample_crypto \<lparr>transaction = Legacy 1 2 3 None 4 [], sig_v = 0,
     sig_r = zero_array, sig_s = zero_array\<rparr> 5 \<noteq> Panic"
  by (rule recover_sender_total [OF sample_crypto_laws]) (simp only: signed_transaction.simps transfer_signing_len)

section \<open>Transaction and header hashes\<close>

text \<open>The wire encoding that \<^verbatim>\<open>signed_transaction_hash\<close> hashes, and the bound under which it exists.\<close>

definition wire_item :: "signed_transaction \<Rightarrow> rlp_item" where
  "wire_item stx = List (tx_fields (transaction stx) @
     [u64_to_rlp_item (sig_v stx), b256_to_rlp_item (sig_r stx), b256_to_rlp_item (sig_s stx)])"

lemma transfer_wire_len:
  "encoded_len (wire_item \<lparr>transaction = Legacy nonce price gas to v [], sig_v = sv, sig_r = r, sig_s = ss\<rparr>) < 2 ^ 64"
proof -
  have "sum_list (map encoded_len
      (tx_fields (Legacy nonce price gas to v []) @
        [u64_to_rlp_item sv, b256_to_rlp_item r, b256_to_rlp_item ss])) \<le> 156"
    using u64_len [of nonce] u64_len [of gas] u64_len [of sv] to_len [of to] u128_len [of price] u128_len [of v]
      b256_len [of r] b256_len [of ss]
    by (simp add: tx_fields_def vec_to_rlp_item_def length_prefix_len_def)
  from encoded_len_List_le [OF this] show ?thesis
    by (simp add: wire_item_def length_prefix_len_156 del: encoded_len.simps)
qed

lemma signed_transaction_hash_eq:
  assumes "encoded_len (wire_item stx) < 2 ^ 64"
  shows "signed_transaction_hash c stx =
    Ok (keccak256 c (type_prefix (transaction stx) @ rlp_bytes (wire_item stx)))"
  using encode_eq [OF assms]
  by (cases "transaction stx")
     (simp_all add: signed_transaction_hash_def legacy_to_wire_def typed_to_wire_def legacy_fields_def
        typed_fields_def wire_item_def tx_fields_def type_prefix_def encode_to_eq tx_type_def
        del: encode.simps rlp_bytes.simps)

lemma hash_header_eq: "hash_header c h = Ok (keccak256 c (rlp_bytes (header_to_rlp_item h)))"
proof -
  have "encoded_len (header_to_rlp_item h) < 2 ^ 64"
    using header_len [of h] by (rule le_less_trans) simp
  then show ?thesis by (simp add: hash_header_def encode_eq)
qed

lemma hash_header_preimage:
  "rlp_bytes (header_to_rlp_item h) = rlp_bytes (header_to_rlp_item h') \<longleftrightarrow> h = h'"
  using header_len [of h] by (intro header_rlp.rlp_bytes_inject) (rule le_less_trans, auto)

text \<open>
  A header hash commits to the whole header: \<^verbatim>\<open>hash_header\<close> always succeeds, and it hashes an
  encoding that is injective in the header, so two headers share a hash only if the hash
  function itself collides.
\<close>

theorem hash_header_binding: "\<exists>enc. inj enc \<and> (\<forall>c h. hash_header c h = Ok (keccak256 c (enc h)))"
  using hash_header_preimage
  by (intro exI [of _ "\<lambda>h. rlp_bytes (header_to_rlp_item h)"]) (simp add: hash_header_eq inj_def)

end
