(* ===== verification/Merkle_Trie.thy ===== *)
theory Merkle_Trie
  imports Signing
begin

text \<open>
  The crate \<^verbatim>\<open>core/rlp-codec\<close>, file \<^verbatim>\<open>trie.rs\<close>, first part: the nodes of the Merkle-Patricia trie and
  insertion. A trie denotes a finite map from nibble strings to values (\<open>lookup\<close>). For keys of one
  length, as the state trie has them, insertion is map update, it keeps a canonical shape, and the
  shape is determined by the map. For keys of different lengths it is not: the code drops a shared
  prefix, which a theorem exhibits.
\<close>

section \<open>Nodes\<close>

datatype trie_node =
    Leaf bytes bytes
  | Extension bytes trie_node
  | Branch "trie_node option list" "bytes option"

datatype trie_error = InvalidKey | EncodeError rlp_error

type_synonym slot = "trie_node option"

record merkle_trie =
  root :: slot

definition bytes_to_nibbles :: "bytes \<Rightarrow> bytes" where
  "bytes_to_nibbles bs = concat (map (\<lambda>byte. [drop_bit 4 byte, and byte 0x0f]) bs)"

definition no_children :: "slot list" where
  "no_children = replicate 16 None"

section \<open>Insertion\<close>

definition shared_prefix_len :: "bytes \<Rightarrow> bytes \<Rightarrow> usize" where
  "shared_prefix_len xs ys = length (takeWhile (\<lambda>(a, b). a = b) (zip xs ys))"

text \<open>\<^verbatim>\<open>Leaf { remaining_nibbles: xs[i..].to_vec(), value }\<close>.\<close>

definition leaf_from :: "bytes \<Rightarrow> usize \<Rightarrow> bytes \<Rightarrow> (slot, trie_error) outcome" where
  "leaf_from xs i v = and_then (slice_from xs i) (\<lambda>rest. Ok (Some (Leaf rest v)))"

text \<open>\<^verbatim>\<open>children[xs[i] as usize] = child\<close>.\<close>

definition set_child ::
  "slot list \<Rightarrow> bytes \<Rightarrow> usize \<Rightarrow> slot \<Rightarrow> (slot list, trie_error) outcome" where
  "set_child children xs i child = and_then (index xs i) (\<lambda>b. store children (unat b) child)"

text \<open>A branch below the shared nibbles, with no extension when there are none.\<close>

definition below_prefix :: "bytes \<Rightarrow> usize \<Rightarrow> trie_node \<Rightarrow> (slot, trie_error) outcome" where
  "below_prefix xs n branch =
     (if n = 0 then Ok (Some branch)
      else and_then (slice_to xs n) (\<lambda>prefix. Ok (Some (Extension prefix branch))))"

definition split_leaf ::
  "bytes \<Rightarrow> bytes \<Rightarrow> bytes \<Rightarrow> bytes \<Rightarrow> (slot, trie_error) outcome" where
  "split_leaf remaining_nibbles old_value nibbles new_value =
     (let n = shared_prefix_len remaining_nibbles nibbles in
      if length remaining_nibbles = n then
        and_then (leaf_from nibbles (n + 1) new_value) (\<lambda>new_leaf.
        and_then (set_child no_children nibbles n new_leaf) (\<lambda>children.
        Ok (Some (Branch children (Some old_value)))))
      else if length nibbles = n then
        and_then (leaf_from remaining_nibbles (n + 1) old_value) (\<lambda>new_leaf.
        and_then (set_child no_children remaining_nibbles n new_leaf) (\<lambda>children.
        Ok (Some (Branch children (Some new_value)))))
      else
        and_then (leaf_from remaining_nibbles (n + 1) old_value) (\<lambda>old_leaf.
        and_then (leaf_from nibbles (n + 1) new_value) (\<lambda>new_leaf.
        and_then (set_child no_children remaining_nibbles n old_leaf) (\<lambda>children.
        and_then (set_child children nibbles n new_leaf) (\<lambda>children.
        below_prefix nibbles n (Branch children None))))))"

definition split_extension ::
  "bytes \<Rightarrow> trie_node \<Rightarrow> bytes \<Rightarrow> bytes \<Rightarrow> (slot, trie_error) outcome" where
  "split_extension shared_nibbles old_child nibbles new_value =
     (let n = shared_prefix_len shared_nibbles nibbles in
      and_then
        (if length nibbles = n then Ok (no_children, Some new_value)
         else
           and_then (leaf_from nibbles (n + 1) new_value) (\<lambda>new_leaf.
           and_then (set_child no_children nibbles n new_leaf) (\<lambda>children.
           Ok (children, None)))) (\<lambda>(children, branch_value).
      and_then
        (if length shared_nibbles = n + 1 then Ok (Some old_child)
         else
           and_then (slice_from shared_nibbles (n + 1)) (\<lambda>rest.
           Ok (Some (Extension rest old_child)))) (\<lambda>old_continuation.
      and_then (set_child children shared_nibbles n old_continuation) (\<lambda>children.
      below_prefix shared_nibbles n (Branch children branch_value)))))"

lemma index_size [termination_simp]:
  "index children i = Ok c \<Longrightarrow> size_option size c < Suc (Suc (size_list (size_option size) children))"
  by (auto simp: index_def less_Suc_eq_le intro!: le_SucI size_list_estimation' [OF nth_mem] split: if_splits)

fun recursive_insert :: "slot \<Rightarrow> bytes \<Rightarrow> bytes \<Rightarrow> (slot, trie_error) outcome" where
  "recursive_insert None nibbles new_value = Ok (Some (Leaf nibbles new_value))"
| "recursive_insert (Some (Leaf remaining_nibbles old_value)) nibbles new_value =
     (if nibbles = remaining_nibbles then Ok (Some (Leaf nibbles new_value))
      else split_leaf remaining_nibbles old_value nibbles new_value)"
| "recursive_insert (Some (Extension shared_nibbles old_child)) nibbles new_value =
     (if shared_prefix_len shared_nibbles nibbles = length shared_nibbles then
        and_then (slice_from nibbles (length shared_nibbles)) (\<lambda>rest.
        and_then (recursive_insert (Some old_child) rest new_value) (\<lambda>child_slot.
        Ok (map_option (Extension shared_nibbles) child_slot)))
      else split_extension shared_nibbles old_child nibbles new_value)"
| "recursive_insert (Some (Branch children v)) nibbles new_value =
     (if nibbles = [] then Ok (Some (Branch children (Some new_value)))
      else
        and_then (index nibbles 0) (\<lambda>b.
        and_then (index children (unat b)) (\<lambda>child.
        and_then (slice_from nibbles 1) (\<lambda>rest.
        and_then (recursive_insert child rest new_value) (\<lambda>child'.
        and_then (store children (unat b) child') (\<lambda>children'.
        Ok (Some (Branch children' v))))))))"

definition trie_new :: merkle_trie where
  "trie_new = \<lparr>root = None\<rparr>"

definition trie_insert :: "merkle_trie \<Rightarrow> bytes \<Rightarrow> bytes \<Rightarrow> (merkle_trie, trie_error) outcome" where
  "trie_insert t key new_value =
     (if key = [] then Err InvalidKey
      else
        and_then (recursive_insert (root t) (bytes_to_nibbles key) new_value) (\<lambda>slot.
        Ok (t\<lparr>root := slot\<rparr>)))"

section \<open>The map a trie denotes\<close>

fun lookup :: "slot \<Rightarrow> bytes \<Rightarrow> bytes option" where
  "lookup None ns = None"
| "lookup (Some (Leaf remaining v)) ns = (if ns = remaining then Some v else None)"
| "lookup (Some (Extension shared child)) ns =
     (if take (length shared) ns = shared then lookup (Some child) (drop (length shared) ns) else None)"
| "lookup (Some (Branch children v)) [] = v"
| "lookup (Some (Branch children v)) (b # ns) =
     (if unat b < length children then lookup (children ! unat b) ns else None)"

text \<open>The canonical shape of a trie whose keys all have \<open>k\<close> nibbles left.\<close>

definition nibbles_ok :: "bytes \<Rightarrow> bool" where
  "nibbles_ok ns \<longleftrightarrow> list_all (\<lambda>b. unat b < 16) ns"

definition is_branch :: "trie_node \<Rightarrow> bool" where
  "is_branch n = (case n of Branch _ _ \<Rightarrow> True | _ \<Rightarrow> False)"

fun fixed :: "nat \<Rightarrow> trie_node \<Rightarrow> bool" where
  "fixed k (Leaf remaining v) \<longleftrightarrow> length remaining = k \<and> nibbles_ok remaining"
| "fixed k (Extension shared child) \<longleftrightarrow>
     shared \<noteq> [] \<and> nibbles_ok shared \<and> length shared \<le> k \<and> is_branch child \<and>
     fixed (k - length shared) child"
| "fixed k (Branch children v) \<longleftrightarrow>
     0 < k \<and> length children = 16 \<and> v = None \<and>
     2 \<le> length (filter (\<lambda>c. c \<noteq> None) children) \<and>
     list_all (pred_option (fixed (k - 1))) children"

text \<open>\<open>prefixed p n\<close> is \<open>n\<close> below the nibbles \<open>p\<close>; \<open>fork\<close> is what both splits build.\<close>

definition prefixed :: "bytes \<Rightarrow> trie_node \<Rightarrow> trie_node" where
  "prefixed p n = (if p = [] then n else Extension p n)"

definition fork :: "bytes \<Rightarrow> u8 \<Rightarrow> trie_node \<Rightarrow> u8 \<Rightarrow> trie_node \<Rightarrow> trie_node" where
  "fork p x A y B = prefixed p (Branch (no_children[unat x := Some A, unat y := Some B]) None)"

lemma nibbles_ok_simps [simp]:
  "nibbles_ok []" "nibbles_ok (x # xs) \<longleftrightarrow> unat x < 16 \<and> nibbles_ok xs"
  "nibbles_ok (xs @ ys) \<longleftrightarrow> nibbles_ok xs \<and> nibbles_ok ys"
  by (simp_all add: nibbles_ok_def)

lemma no_children_simps [simp]: "length no_children = 16" "i < 16 \<Longrightarrow> no_children ! i = None"
  by (simp_all add: no_children_def)

lemma lookup_prefixed:
  "lookup (Some (prefixed p n)) zs =
     (if take (length p) zs = p then lookup (Some n) (drop (length p) zs) else None)"
  by (simp add: prefixed_def)

lemma lookup_fork_Branch:
  assumes "unat x < 16" "unat y < 16" "x \<noteq> y"
  shows "lookup (Some (Branch (no_children[unat x := Some A, unat y := Some B]) None)) zs =
    (case zs of [] \<Rightarrow> None
      | z # zs' \<Rightarrow> if z = x then lookup (Some A) zs' else if z = y then lookup (Some B) zs' else None)"
  using assms
  by (cases zs) (auto simp: nth_list_update word_unat_eq_iff)

lemma take_eq_split: "take (length p) zs = p \<longleftrightarrow> (\<exists>zs'. zs = p @ zs')"
  by (metis append_eq_conv_conj append_take_drop_id)

lemma lookup_fork:
  assumes "unat x < 16" "unat y < 16" "x \<noteq> y"
  shows "lookup (Some (fork p x A y B)) (p @ x # zs) = lookup (Some A) zs"
    and "lookup (Some (fork p x A y B)) (p @ y # zs) = lookup (Some B) zs"
    and "\<nexists>zs'. zs = p @ x # zs' \<or> zs = p @ y # zs' \<Longrightarrow> lookup (Some (fork p x A y B)) zs = None"
  using assms
  by (auto simp: fork_def lookup_prefixed lookup_fork_Branch take_eq_split
      simp del: lookup.simps(4,5) split: list.split)

lemma fixed_fork:
  assumes "unat x < 16" "unat y < 16" "x \<noteq> y" "nibbles_ok p" "fixed k A" "fixed k B"
  shows "fixed (length p + Suc k) (fork p x A y B)"
proof -
  let ?ch = "no_children[unat x := Some A, unat y := Some B]"
  have ne: "unat x \<noteq> unat y" using assms(3) by (simp add: word_unat_eq_iff)
  have "{unat x, unat y} \<subseteq> {i. i < length ?ch \<and> ?ch ! i \<noteq> None}"
    using assms(1,2) ne by (auto simp: nth_list_update)
  then have "card {unat x, unat y} \<le> card {i. i < length ?ch \<and> ?ch ! i \<noteq> None}"
    by (intro card_mono) auto
  then have "2 \<le> length (filter (\<lambda>c. c \<noteq> None) ?ch)"
    using ne by (simp add: length_filter_conv_card)
  moreover have "list_all (pred_option (fixed k)) ?ch"
    using assms(1,2,5,6) by (auto simp: list_all_length nth_list_update)
  ultimately have "fixed (Suc k) (Branch ?ch None)" by simp
  then show ?thesis using assms(4) by (simp add: fork_def prefixed_def is_branch_def)
qed

section \<open>Insertion is map update\<close>

lemma shared_prefix_cases:
  obtains p xs' ys' where "xs = p @ xs'" "ys = p @ ys'" "shared_prefix_len xs ys = length p"
    "xs' = [] \<or> ys' = [] \<or> hd xs' \<noteq> hd ys'"
proof (induction xs ys arbitrary: thesis rule: list_induct2')
  case (4 x xs y ys)
  show ?case
  proof (cases "x = y")
    case True
    obtain p xs' ys' where "xs = p @ xs'" "ys = p @ ys'" "shared_prefix_len xs ys = length p"
      "xs' = [] \<or> ys' = [] \<or> hd xs' \<noteq> hd ys'"
      by (rule "4.IH")
    with True show ?thesis
      by (intro "4.prems" [of "x # p" xs' ys']) (simp_all add: shared_prefix_len_def)
  next
    case False
    show ?thesis
      by (rule "4.prems" [of "[]" "x # xs" "y # ys"])
         (use False in \<open>simp_all add: shared_prefix_len_def\<close>)
  qed
qed (auto simp: shared_prefix_len_def)

lemma split_leaf_eq:
  assumes "rem = p @ x # xs" "ns = p @ y # ys" "shared_prefix_len rem ns = length p"
    and "unat x < 16" "unat y < 16"
  shows "split_leaf rem old ns new = Ok (Some (fork p x (Leaf xs old) y (Leaf ys new)))"
  using assms
  by (simp add: split_leaf_def Let_def leaf_from_def set_child_def below_prefix_def slice_defs
      fork_def prefixed_def)

lemma split_extension_eq:
  assumes "sh = p @ x # xs" "ns = p @ y # ys" "shared_prefix_len sh ns = length p"
    and "unat x < 16" "unat y < 16"
  shows "split_extension sh child ns new = Ok (Some (fork p y (Leaf ys new) x (prefixed xs child)))"
  using assms
  by (auto simp: split_extension_def Let_def leaf_from_def set_child_def below_prefix_def slice_defs
      fork_def prefixed_def)

text \<open>One insertion step: the new node has the shape, and its map is the old one updated at \<open>ns\<close>.\<close>

definition updates :: "nat \<Rightarrow> slot \<Rightarrow> bytes \<Rightarrow> bytes \<Rightarrow> trie_node \<Rightarrow> bool" where
  "updates k slot ns v n \<longleftrightarrow> fixed k n \<and> lookup (Some n) = (lookup slot)(ns \<mapsto> v)"

lemma updates_fork_leaf:
  assumes "fixed (length p + Suc j) (Leaf (p @ x # xs) old)" "nibbles_ok (p @ y # ys)"
    and "length ys = j" "x \<noteq> y"
  shows "updates (length p + Suc j) (Some (Leaf (p @ x # xs) old)) (p @ y # ys) v
    (fork p x (Leaf xs old) y (Leaf ys v))"
proof -
  have "lookup (Some (fork p x (Leaf xs old) y (Leaf ys v))) zs =
      ((lookup (Some (Leaf (p @ x # xs) old)))(p @ y # ys \<mapsto> v)) zs" for zs
  proof (cases "\<exists>zs'. zs = p @ x # zs' \<or> zs = p @ y # zs'")
    case True
    then show ?thesis using assms by (auto simp: lookup_fork split: if_splits)
  next
    case False
    then show ?thesis using assms by (auto simp: lookup_fork(3) simp del: not_ex)
  qed
  then show ?thesis
    using assms fixed_fork [of x y p j "Leaf xs old" "Leaf ys v"] by (auto simp: updates_def)
qed

lemma fixed_prefixed:
  "fixed (k - length xs) n \<Longrightarrow> is_branch n \<Longrightarrow> nibbles_ok xs \<Longrightarrow> length xs \<le> k \<Longrightarrow> fixed k (prefixed xs n)"
  by (cases "xs = []") (simp_all add: prefixed_def)

lemma updates_fork_extension:
  assumes "fixed (length p + Suc j) (Extension (p @ x # xs) child)" "nibbles_ok (p @ y # ys)"
    and "length ys = j" "x \<noteq> y"
  shows "updates (length p + Suc j) (Some (Extension (p @ x # xs) child)) (p @ y # ys) v
    (fork p y (Leaf ys v) x (prefixed xs child))"
proof -
  have fx: "fixed j (prefixed xs child)"
    using assms(1) by (intro fixed_prefixed) auto
  have "lookup (Some (fork p y (Leaf ys v) x (prefixed xs child))) zs =
      ((lookup (Some (Extension (p @ x # xs) child)))(p @ y # ys \<mapsto> v)) zs" for zs
  proof (cases "\<exists>zs'. zs = p @ y # zs' \<or> zs = p @ x # zs'")
    case True
    then show ?thesis using assms by (auto simp: lookup_fork lookup_prefixed split: if_splits)
  next
    case False
    then have "take (length (p @ x # xs)) zs \<noteq> p @ x # xs" and "zs \<noteq> p @ y # ys"
      by (metis append.assoc append_Cons append_take_drop_id, blast)
    then show ?thesis using assms False by (auto simp: lookup_fork(3) simp del: not_ex)
  qed
  then show ?thesis
    using assms fx fixed_fork [of y x p j "Leaf ys v" "prefixed xs child"] by (auto simp: updates_def)
qed

lemma updates_extension:
  assumes "updates (k - length sh) (Some child) ns v n" "is_branch n" "fixed k (Extension sh child)"
  shows "updates k (Some (Extension sh child)) (sh @ ns) v (Extension sh n)"
  using assms by (auto simp: updates_def fun_eq_iff take_eq_split)

lemma filter_Some_update:
  "length (filter (\<lambda>c. c \<noteq> None) xs) \<le> length (filter (\<lambda>c. c \<noteq> None) (xs[i := Some n]))"
  by (induction xs arbitrary: i) (auto split: nat.split)

lemma updates_branch:
  assumes "updates (k - 1) (children ! unat b) ns v n" "fixed k (Branch children w)" "unat b < 16"
  shows "updates k (Some (Branch children w)) (b # ns) v (Branch (children[unat b := Some n]) w)"
proof -
  have "fixed k (Branch (children[unat b := Some n]) w)"
    using assms le_trans [OF _ filter_Some_update]
    by (auto simp: updates_def list_all_length nth_list_update)
  moreover have "lookup (Some (Branch (children[unat b := Some n]) w)) zs =
      ((lookup (Some (Branch children w)))(b # ns \<mapsto> v)) zs" for zs
    using assms by (cases zs) (auto simp: updates_def nth_list_update word_unat_eq_iff)
  ultimately show ?thesis by (auto simp: updates_def)
qed

lemma is_branch_insert:
  "recursive_insert (Some m) ns v = Ok (Some n) \<Longrightarrow> is_branch m \<Longrightarrow> is_branch n"
  by (cases m) (auto simp: is_branch_def outcome_iffs split: if_splits)

lemma insert_leaf_fixed:
  assumes "fixed k (Leaf rem old)" "length ns = k" "nibbles_ok ns"
  shows "\<exists>n. recursive_insert (Some (Leaf rem old)) ns v = Ok (Some n) \<and>
    updates k (Some (Leaf rem old)) ns v n"
proof -
  obtain p xs ys where s: "rem = p @ xs" "ns = p @ ys" "shared_prefix_len rem ns = length p"
      "xs = [] \<or> ys = [] \<or> hd xs \<noteq> hd ys"
    by (rule shared_prefix_cases)
  show ?thesis
  proof (cases "ns = rem")
    case False
    with s assms obtain x xs' y ys' where xy: "xs = x # xs'" "ys = y # ys'" "x \<noteq> y"
      by (cases xs; cases ys) auto
    with s assms have "split_leaf rem old ns v = Ok (Some (fork p x (Leaf xs' old) y (Leaf ys' v)))"
      by (intro split_leaf_eq) auto
    moreover have "updates k (Some (Leaf rem old)) ns v (fork p x (Leaf xs' old) y (Leaf ys' v))"
      using updates_fork_leaf [of p "length ys'" x xs' old y ys' v] s xy assms by auto
    ultimately show ?thesis using False by simp
  qed (use assms in \<open>auto simp: updates_def\<close>)
qed

lemma recursive_insert_fixed:
  "pred_option (fixed k) slot \<Longrightarrow> length ns = k \<Longrightarrow> nibbles_ok ns \<Longrightarrow>
     \<exists>n. recursive_insert slot ns v = Ok (Some n) \<and> updates k slot ns v n"
proof (induction slot ns v arbitrary: k rule: recursive_insert.induct)
  case (1 ns v)
  then show ?case by (auto simp: updates_def)
next
  case (2 rem old ns v)
  then show ?case by (intro insert_leaf_fixed) auto
next
  case (3 sh child ns v)
  obtain p xs ys where s: "sh = p @ xs" "ns = p @ ys" "shared_prefix_len sh ns = length p"
      "xs = [] \<or> ys = [] \<or> hd xs \<noteq> hd ys"
    by (rule shared_prefix_cases)
  show ?case
  proof (cases "xs = []")
    case True
    with 3 s have "\<exists>n. recursive_insert (Some child) ys v = Ok (Some n) \<and>
        updates (k - length sh) (Some child) ys v n"
      by (auto simp: slice_from_def)
    then obtain n where n: "recursive_insert (Some child) ys v = Ok (Some n)"
      "updates (k - length sh) (Some child) ys v n" by blast
    then have "updates k (Some (Extension sh child)) ns v (Extension sh n)"
      using updates_extension [of k sh child ys v n] is_branch_insert [OF n(1)] "3.prems" s True by simp
    then show ?thesis using n(1) s True by (simp add: slice_from_def)
  next
    case False
    with s "3.prems" obtain x xs' y ys' where xy: "xs = x # xs'" "ys = y # ys'" "x \<noteq> y"
      by (cases xs; cases ys) auto
    with s "3.prems" have "split_extension sh child ns v = Ok (Some (fork p y (Leaf ys' v) x (prefixed xs' child)))"
      by (intro split_extension_eq) auto
    moreover have "updates k (Some (Extension sh child)) ns v (fork p y (Leaf ys' v) x (prefixed xs' child))"
      using updates_fork_extension [of p "length ys'" x xs' child y ys' v] s xy "3.prems" by auto
    ultimately show ?thesis using s xy by simp
  qed
next
  case (4 children w ns v)
  then obtain b ns' where ns: "ns = b # ns'" by (cases ns) auto
  have b: "unat b < 16" "length children = 16" using "4.prems" ns by auto
  have "pred_option (fixed (k - 1)) (children ! unat b)"
    using "4.prems" b by (auto simp: list_all_length)
  with 4 ns b obtain n where n: "recursive_insert (children ! unat b) ns' v = Ok (Some n)"
    "updates (k - 1) (children ! unat b) ns' v n"
    by (fastforce simp: slice_defs)
  then show ?case
    using updates_branch [OF n(2), of w] "4.prems" b ns by (auto simp: slice_defs)
qed

section \<open>The shape is determined by the map\<close>

lemma filter_two:
  assumes "2 \<le> length (filter P xs)"
  shows "\<exists>i j. i < length xs \<and> j < length xs \<and> i \<noteq> j \<and> P (xs ! i) \<and> P (xs ! j)"
proof -
  have "2 \<le> card {i. i < length xs \<and> P (xs ! i)}"
    using assms by (simp add: length_filter_conv_card)
  then obtain S where "S \<subseteq> {i. i < length xs \<and> P (xs ! i)}" "card S = 2"
    by (metis obtain_subset_with_card_n)
  then show ?thesis by (auto simp: card_2_iff)
qed

lemma lookup_child:
  "length children = 16 \<Longrightarrow> i < 16 \<Longrightarrow>
     lookup (Some (Branch children w)) (of_nat i # ns) = lookup (children ! i) ns"
  by (simp add: unat_of_nat)

lemma fixed_nonempty: "fixed k n \<Longrightarrow> \<exists>ns. lookup (Some n) ns \<noteq> None"
proof (induction n arbitrary: k)
  case (Leaf rem v)
  then show ?case by auto
next
  case (Extension sh child)
  then have "fixed (k - length sh) child" by simp
  then obtain ns where "lookup (Some child) ns \<noteq> None" using Extension.IH by blast
  then show ?case by (intro exI [of _ "sh @ ns"]) simp
next
  case (Branch children w)
  then obtain i where i: "i < 16" "children ! i \<noteq> None" "length children = 16"
    using filter_two [of "\<lambda>c. c \<noteq> None" children] by auto
  then obtain c where c: "children ! i = Some c" by auto
  moreover have "Some c \<in> set children" using i c by (metis nth_mem)
  ultimately obtain ns where "lookup (Some c) ns \<noteq> None"
    using Branch by (fastforce simp: list_all_iff)
  then have "lookup (Some (Branch children w)) (of_nat i # ns) \<noteq> None"
    by (simp only: lookup_child [OF i(3,1)] c not_False_eq_True)
  then show ?case by blast
qed

text \<open>A branch has two keys that differ in their first nibble.\<close>

lemma branch_two_keys:
  assumes "fixed k (Branch children w)"
  obtains a b ns ms where "a \<noteq> b" "lookup (Some (Branch children w)) (a # ns) \<noteq> None"
    "lookup (Some (Branch children w)) (b # ms) \<noteq> None"
proof -
  have len: "length children = 16" using assms by simp
  from assms obtain i j c d where ij: "i < 16" "j < 16" "i \<noteq> j" "children ! i = Some c" "children ! j = Some d"
    using filter_two [of "\<lambda>c. c \<noteq> None" children] by auto
  have "fixed (k - 1) c" "fixed (k - 1) d"
    using assms ij len by (auto simp: list_all_length dest: spec [of _ i] spec [of _ j])
  then obtain ns ms where "lookup (Some c) ns \<noteq> None" "lookup (Some d) ms \<noteq> None"
    using fixed_nonempty by blast
  moreover have "(of_nat i :: u8) \<noteq> of_nat j"
    using ij by (simp add: word_unat_eq_iff unat_of_nat)
  ultimately show thesis
    using that [of "of_nat i" "of_nat j" ns ms] lookup_child [OF len ij(1)] lookup_child [OF len ij(2)] ij
    by auto
qed

lemma extension_keys: "lookup (Some (Extension sh child)) zs \<noteq> None \<Longrightarrow> \<exists>zs'. zs = sh @ zs'"
  by (auto simp: take_eq_split split: if_splits)

lemma extension_two_keys:
  assumes "fixed k (Extension sh child)"
  obtains a b ns ms where "a \<noteq> b" "lookup (Some (Extension sh child)) (sh @ a # ns) \<noteq> None"
    "lookup (Some (Extension sh child)) (sh @ b # ms) \<noteq> None"
proof -
  from assms obtain ch w where ch: "child = Branch ch w" "fixed (k - length sh) (Branch ch w)"
    by (cases child) (auto simp: is_branch_def)
  from branch_two_keys [OF ch(2)] obtain a b ns ms where "a \<noteq> b"
    "lookup (Some (Branch ch w)) (a # ns) \<noteq> None" "lookup (Some (Branch ch w)) (b # ms) \<noteq> None" .
  moreover have "lookup (Some (Extension sh child)) (sh @ zs) = lookup (Some (Branch ch w)) zs" for zs
    by (simp add: ch(1))
  ultimately show thesis
    using that [of a b ns ms] by (simp only: not_False_eq_True)
qed

lemma extension_prefix_le:
  assumes "fixed k (Extension sh child)"
    and eq: "lookup (Some (Extension sh child)) = lookup (Some (Extension sh' child'))"
  shows "length sh' \<le> length sh \<and> (\<exists>r s. sh @ r = sh' @ s)"
proof -
  obtain a b ns ms where ab: "a \<noteq> b" "lookup (Some (Extension sh child)) (sh @ a # ns) \<noteq> None"
    "lookup (Some (Extension sh child)) (sh @ b # ms) \<noteq> None"
    by (rule extension_two_keys [OF assms(1)])
  from extension_keys [OF ab(2) [unfolded eq]] extension_keys [OF ab(3) [unfolded eq]]
  obtain r s where rs: "sh @ a # ns = sh' @ r" "sh @ b # ms = sh' @ s" by blast
  have "length sh' \<le> length sh"
  proof (rule ccontr)
    assume "\<not> ?thesis"
    then have "a = sh' ! length sh" "b = sh' ! length sh"
      using arg_cong [OF rs(1), of "\<lambda>xs. xs ! length sh"] arg_cong [OF rs(2), of "\<lambda>xs. xs ! length sh"]
      by (simp_all add: nth_append)
    with ab(1) show False by simp
  qed
  with rs(1) show ?thesis by blast
qed

lemma extension_eq:
  assumes "fixed k (Extension sh child)" "fixed k (Extension sh' child')"
    and "lookup (Some (Extension sh child)) = lookup (Some (Extension sh' child'))"
  shows "sh = sh' \<and> lookup (Some child) = lookup (Some child')"
proof -
  obtain r s where "sh @ r = sh' @ s" and "length sh' \<le> length sh"
    using extension_prefix_le [OF assms(1,3)] by blast
  moreover have "length sh \<le> length sh'"
    using extension_prefix_le [OF assms(2) assms(3) [symmetric]] by blast
  ultimately have "sh = sh'"
    using append_eq_append_conv [of sh sh' r s] by simp
  moreover have "lookup (Some child) ns = lookup (Some child') ns" for ns
    using fun_cong [OF assms(3), of "sh @ ns"] \<open>sh = sh'\<close> by simp
  ultimately show ?thesis by blast
qed

lemma leaf_unique:
  assumes eq: "lookup (Some (Leaf rem v)) = lookup (Some n)" and "fixed k n"
  shows "n = Leaf rem v"
proof (cases n)
  case (Leaf rem' v')
  then show ?thesis
    using fun_cong [OF eq, of rem] by (auto split: if_splits)
next
  case (Extension sh child)
  from extension_two_keys [OF assms(2) [unfolded Extension]]
  obtain a b ns ms where "a \<noteq> b" "lookup (Some n) (sh @ a # ns) \<noteq> None"
    "lookup (Some n) (sh @ b # ms) \<noteq> None"
    unfolding Extension by blast
  then show ?thesis unfolding eq [symmetric] by (auto split: if_splits)
next
  case (Branch ch w)
  from branch_two_keys [OF assms(2) [unfolded Branch]]
  obtain a b ns ms where "a \<noteq> b" "lookup (Some n) (a # ns) \<noteq> None" "lookup (Some n) (b # ms) \<noteq> None"
    unfolding Branch by blast
  then show ?thesis unfolding eq [symmetric] by (auto split: if_splits)
qed

lemma branch_not_extension:
  assumes "fixed k (Branch ch w)" "fixed k' (Extension sh child)"
  shows "lookup (Some (Branch ch w)) \<noteq> lookup (Some (Extension sh child))"
proof
  assume eq: "lookup (Some (Branch ch w)) = lookup (Some (Extension sh child))"
  from branch_two_keys [OF assms(1)] obtain a b ns ms where ab: "a \<noteq> b"
    "lookup (Some (Branch ch w)) (a # ns) \<noteq> None" "lookup (Some (Branch ch w)) (b # ms) \<noteq> None" .
  from extension_keys [OF ab(2) [unfolded eq]] extension_keys [OF ab(3) [unfolded eq]]
  obtain r s where "a # ns = sh @ r" "b # ms = sh @ s" by blast
  moreover have "sh \<noteq> []" using assms(2) by simp
  ultimately show False using ab(1) by (cases sh) auto
qed

lemma slot_None:
  assumes "pred_option (fixed k) s" "lookup s = lookup None"
  shows "s = None"
proof (cases s)
  case (Some n)
  with assms(1) obtain ns where "lookup s ns \<noteq> None" using fixed_nonempty [of k n] by auto
  with assms(2) show ?thesis by simp
qed

lemma slot_unique:
  assumes "lookup s = lookup t" "pred_option (fixed k) s" "pred_option (fixed k) t"
    and "\<And>n m. s = Some n \<Longrightarrow> fixed k n \<Longrightarrow> fixed k m \<Longrightarrow> lookup (Some n) = lookup (Some m) \<Longrightarrow> n = m"
  shows "s = t"
proof (cases s)
  case None
  then show ?thesis using slot_None [OF assms(3)] assms(1) by simp
next
  case (Some n)
  with assms(1,2) slot_None [OF assms(2)] obtain m where "t = Some m"
    by (cases t) auto
  then show ?thesis using Some assms by simp
qed

lemma fixed_unique:
  "fixed k n \<Longrightarrow> fixed k m \<Longrightarrow> lookup (Some n) = lookup (Some m) \<Longrightarrow> n = m"
proof (induction n arbitrary: k m)
  case (Leaf rem v)
  then show ?case using leaf_unique [OF Leaf.prems(3,2)] by simp
next
  case (Extension sh child)
  show ?case
  proof (cases m)
    case m: (Extension sh' child')
    have "sh = sh'" "lookup (Some child) = lookup (Some child')"
      using extension_eq [OF Extension.prems(1)] Extension.prems(2,3) m by blast+
    then show ?thesis
      using Extension.IH [of "k - length sh" child'] Extension.prems m by simp
  next
    case m: (Leaf rem v)
    show ?thesis
      using leaf_unique [OF Extension.prems(3) [symmetric, unfolded m] Extension.prems(1)] m by simp
  next
    case m: (Branch ch w)
    show ?thesis
      using branch_not_extension [of k ch w k sh child] Extension.prems m by simp
  qed
next
  case (Branch ch w)
  show ?case
  proof (cases m)
    case m: (Branch ch' w')
    have len: "length ch = 16" "length ch' = 16" "w = None" "w' = None" using Branch.prems m by auto
    have "ch ! i = ch' ! i" if i: "i < 16" for i
    proof (rule slot_unique)
      show "lookup (ch ! i) = lookup (ch' ! i)"
        using Branch.prems(3) lookup_child [OF len(1) i, of w] lookup_child [OF len(2) i, of w'] m
        by (simp only: fun_eq_iff) metis
      show "pred_option (fixed (k - 1)) (ch ! i)" "pred_option (fixed (k - 1)) (ch' ! i)"
        using Branch.prems(1,2) m len i by (simp_all add: list_all_length)
      show "n = m" if "ch ! i = Some n" "fixed (k - 1) n" "fixed (k - 1) m"
        "lookup (Some n) = lookup (Some m)" for n m
        using Branch.IH [of "Some n" n "k - 1" m] nth_mem [of i ch] that len i by simp
    qed
    then show ?thesis using len m by (simp add: list_eq_iff_nth_eq)
  next
    case m: (Leaf rem v)
    show ?thesis
      using leaf_unique [OF Branch.prems(3) [symmetric, unfolded m] Branch.prems(1)] m by simp
  next
    case m: (Extension sh child)
    show ?thesis
      using branch_not_extension [OF Branch.prems(1), of k sh child] Branch.prems(2,3) m by blast
  qed
qed

section \<open>Tries as maps from keys of one length\<close>

lemma fixed_dom: "fixed k n \<Longrightarrow> lookup (Some n) ns \<noteq> None \<Longrightarrow> length ns = k \<and> nibbles_ok ns"
proof (induction n arbitrary: k ns)
  case (Leaf rem v)
  then show ?case by (auto split: if_splits)
next
  case (Extension sh child)
  then obtain zs where "ns = sh @ zs" using extension_keys by blast
  then show ?case using Extension.IH [of "k - length sh" zs] Extension.prems by auto
next
  case (Branch ch w)
  then obtain b zs where ns: "ns = b # zs" by (cases ns) auto
  with Branch.prems obtain c where c: "ch ! unat b = Some c" "unat b < 16"
    by (cases "ch ! unat b") (auto split: if_splits)
  then have "Some c \<in> set ch" "fixed (k - 1) c"
    using Branch.prems(1) nth_mem [of "unat b" ch] by (auto simp: list_all_iff)
  then show ?case
    using Branch.IH [of "Some c" c "k - 1" zs] Branch.prems c ns by auto
qed

lemma bytes_to_nibbles_simps [simp]:
  "bytes_to_nibbles [] = []"
  "bytes_to_nibbles (b # bs) = drop_bit 4 b # and b 0x0f # bytes_to_nibbles bs"
  by (simp_all add: bytes_to_nibbles_def)

lemma unat_nibbles: "unat (drop_bit 4 b :: u8) = unat b div 16" "unat (and b 0x0f :: u8) = unat b mod 16"
proof -
  have "and b 0x0f = take_bit 4 b" by (simp add: take_bit_eq_mask mask_eq_exp_minus_1)
  then have "unat (and b 0x0f :: u8) = take_bit 4 (unat b)"
    by (simp only: unsigned_take_bit_eq)
  then show "unat (and b 0x0f :: u8) = unat b mod 16"
    by (simp add: take_bit_eq_mod)
qed (simp add: drop_bit_eq_div unat_div)

lemma nibbles_of_key: "length (bytes_to_nibbles bs) = 2 * length bs \<and> nibbles_ok (bytes_to_nibbles bs)"
proof (induction bs)
  case (Cons b bs)
  have "unat b < 256" using unsigned_less [of b, where ?'a = nat] by simp
  with Cons show ?case by (simp add: unat_nibbles)
qed simp

lemma byte_of_nibbles:
  assumes "unat h < 16" "unat l < 16"
  shows "\<exists>b :: u8. drop_bit 4 b = h \<and> and b 0x0f = (l :: u8)"
proof -
  obtain b :: u8 where b: "unat b = unat h * 16 + unat l"
    using ex_unat [of "unat h * 16 + unat l", where ?'a = 8] assms by auto
  have "unat (drop_bit 4 b) = unat h" "unat (and b 0x0f) = unat l"
    using assms by (simp_all only: unat_nibbles b) simp_all
  then show ?thesis by (metis word_unat_eq_iff)
qed

lemma nibbles_surj: "length ns = 2 * k \<Longrightarrow> nibbles_ok ns \<Longrightarrow> \<exists>bs. length bs = k \<and> bytes_to_nibbles bs = ns"
proof (induction k arbitrary: ns)
  case (Suc k)
  then obtain h l zs where ns: "ns = h # l # zs" by (cases ns rule: list.exhaust; cases "tl ns") auto
  with Suc obtain bs where bs: "length bs = k" "bytes_to_nibbles bs = zs" by auto
  moreover obtain b :: u8 where "drop_bit 4 b = h" "and b 0x0f = l"
    using byte_of_nibbles [of h l] Suc.prems ns by auto
  ultimately show ?case by (intro exI [of _ "b # bs"]) (simp add: ns)
qed simp

lemma bytes_to_nibbles_inject: "bytes_to_nibbles bs = bytes_to_nibbles bs' \<longleftrightarrow> bs = bs'"
proof (induction bs bs' rule: list_induct2')
  case (4 b bs b' bs')
  have "b = b'" if "drop_bit 4 b = drop_bit 4 b'" "and b 0x0f = and b' (0x0f :: u8)"
    using arg_cong [OF that(1), of unat] arg_cong [OF that(2), of unat]
    by (simp add: unat_nibbles word_unat_eq_iff) (metis div_mult_mod_eq)
  with 4 show ?case by auto
qed simp_all

text \<open>What a client of the trie relies on.\<close>

locale map_trie =
  fixes invar :: "'t \<Rightarrow> bool" and valid_key :: "bytes \<Rightarrow> bool" and new :: 't
    and insert :: "'t \<Rightarrow> bytes \<Rightarrow> bytes \<Rightarrow> ('t, 'e) outcome" and contents :: "'t \<Rightarrow> bytes \<rightharpoonup> bytes"
  assumes new_invar: "invar new" and new_contents: "contents new = Map.empty"
    and insert_ok: "invar t \<Longrightarrow> valid_key key \<Longrightarrow>
      \<exists>t'. insert t key v = Ok t' \<and> invar t' \<and> contents t' = (contents t)(key \<mapsto> v)"
    and unique: "invar s \<Longrightarrow> invar t \<Longrightarrow> contents s = contents t \<Longrightarrow> s = t"
begin

lemma insert_all:
  "invar t \<Longrightarrow> list_all (\<lambda>kv. valid_key (fst kv)) kvs \<Longrightarrow>
     \<exists>t'. try_fold (\<lambda>t (key, v). insert t key v) t kvs = Ok t' \<and> invar t' \<and>
       contents t' = contents t ++ map_of (rev kvs)"
proof (induction kvs arbitrary: t)
  case (Cons kv kvs)
  obtain key v where kv: "kv = (key, v)" by (cases kv)
  with Cons.prems insert_ok [of t key v] obtain t' where t': "insert t key v = Ok t'" "invar t'"
    "contents t' = (contents t)(key \<mapsto> v)" by auto
  moreover obtain t'' where "try_fold (\<lambda>t (key, v). insert t key v) t' kvs = Ok t''" "invar t''"
    "contents t'' = contents t' ++ map_of (rev kvs)"
    using Cons.IH [OF t'(2)] Cons.prems(2) by auto
  ultimately show ?case by (simp add: kv)
qed simp

text \<open>Building from the same map gives the same trie, in whatever order and with whatever overwrites.\<close>

lemma insert_all_order:
  assumes "list_all (\<lambda>kv. valid_key (fst kv)) kvs" "list_all (\<lambda>kv. valid_key (fst kv)) kvs'"
    and "map_of (rev kvs) = map_of (rev kvs')"
  shows "try_fold (\<lambda>t (key, v). insert t key v) new kvs = try_fold (\<lambda>t (key, v). insert t key v) new kvs'"
proof -
  obtain s where s: "try_fold (\<lambda>t (key, v). insert t key v) new kvs = Ok s" "invar s"
    "contents s = map_of (rev kvs)"
    using insert_all [OF new_invar assms(1)] by (auto simp: new_contents)
  obtain t where t: "try_fold (\<lambda>t (key, v). insert t key v) new kvs' = Ok t" "invar t"
    "contents t = map_of (rev kvs')"
    using insert_all [OF new_invar assms(2)] by (auto simp: new_contents)
  have "s = t" using s(2,3) t(2,3) assms(3) by (intro unique) simp_all
  then show ?thesis by (simp only: s(1) t(1))
qed

end

definition trie_ok :: "nat \<Rightarrow> merkle_trie \<Rightarrow> bool" where
  "trie_ok len t \<longleftrightarrow> pred_option (fixed (2 * len)) (root t)"

definition trie_contents :: "merkle_trie \<Rightarrow> bytes \<rightharpoonup> bytes" where
  "trie_contents t key = lookup (root t) (bytes_to_nibbles key)"

definition key_ok :: "nat \<Rightarrow> bytes \<Rightarrow> bool" where
  "key_ok len key \<longleftrightarrow> length key = len \<and> key \<noteq> []"

lemma trie_insert_ok:
  assumes "trie_ok len t" "key_ok len key"
  shows "\<exists>t'. trie_insert t key v = Ok t' \<and> trie_ok len t' \<and> trie_contents t' = (trie_contents t)(key \<mapsto> v)"
proof -
  obtain n where n: "recursive_insert (root t) (bytes_to_nibbles key) v = Ok (Some n)"
    "updates (2 * len) (root t) (bytes_to_nibbles key) v n"
    using recursive_insert_fixed [of "2 * len" "root t" "bytes_to_nibbles key" v] assms nibbles_of_key [of key]
    by (auto simp: trie_ok_def key_ok_def)
  then show ?thesis
    using assms(2)
    by (auto simp: trie_insert_def key_ok_def trie_ok_def trie_contents_def updates_def fun_eq_iff
        bytes_to_nibbles_inject)
qed

lemma trie_unique:
  assumes "trie_ok len s" "trie_ok len t" "trie_contents s = trie_contents t"
  shows "s = t"
proof -
  have "lookup (root s) ns = lookup (root t) ns" for ns
  proof (cases "\<exists>bs. bytes_to_nibbles bs = ns")
    case True
    then show ?thesis using assms(3) by (auto simp: trie_contents_def fun_eq_iff)
  next
    case False
    have "lookup r ns = None" if "pred_option (fixed (2 * len)) r" for r
    proof (cases r)
      case (Some n)
      with that have "fixed (2 * len) n" by simp
      then show ?thesis
        using False nibbles_surj [of ns len] fixed_dom [of "2 * len" n ns] Some by blast
    qed simp
    then show ?thesis using assms(1,2) by (simp add: trie_ok_def)
  qed
  then have "root s = root t"
    using assms(1,2) fixed_unique by (intro slot_unique [of _ _ "2 * len"]) (auto simp: trie_ok_def)
  then show ?thesis by simp
qed

interpretation key_trie: map_trie "trie_ok len" "key_ok len" trie_new trie_insert trie_contents for len
  using trie_insert_ok trie_unique
  by unfold_locales (auto simp: trie_ok_def trie_new_def trie_contents_def)

text \<open>What becomes of two keys one of which is a proper prefix of the other.\<close>

lemma bytes_to_nibbles_append: "bytes_to_nibbles (xs @ ys) = bytes_to_nibbles xs @ bytes_to_nibbles ys"
  by (simp add: bytes_to_nibbles_def)

lemma shared_prefix_len_append:
  "shared_prefix_len xs (xs @ ys) = length xs" "shared_prefix_len (xs @ ys) xs = length xs"
  by (induction xs) (simp_all add: shared_prefix_len_def)

lemma split_leaf_prefix:
  assumes "unat x < 16"
  shows "split_leaf ns v (ns @ x # xs) w = Ok (Some (Branch (no_children[unat x := Some (Leaf xs w)]) (Some v)))"
    and "split_leaf (ns @ x # xs) w ns v = Ok (Some (Branch (no_children[unat x := Some (Leaf xs w)]) (Some v)))"
  using assms
  by (simp_all add: split_leaf_def Let_def shared_prefix_len_append leaf_from_def set_child_def slice_defs)

section \<open>Properties\<close>

text \<open>
  C11. For keys of one length the trie is a map: inserting a key of that length into a well-formed
  trie succeeds (no slice or index of \<^verbatim>\<open>recursive_insert\<close> is out of bounds), keeps the trie
  well formed, makes the key map to the new value and changes no other key.
\<close>

theorem trie_insert_update:
  assumes "trie_ok len t" and "length key = len" and "key \<noteq> []"
  shows "\<exists>t'. trie_insert t key v = Ok t' \<and> trie_ok len t' \<and>
    (\<forall>key'. trie_contents t' key' = (if key' = key then Some v else trie_contents t key'))"
  using key_trie.insert_ok [of len t key v] assms by (auto simp: key_ok_def)

theorem trie_insert_update_witness:
  "\<exists>t'. trie_insert \<lparr>root = Some (Leaf [1, 2] [7])\<rparr> [0x13] [8] = Ok t' \<and> trie_ok 1 t' \<and>
    (\<forall>key'. trie_contents t' key' =
      (if key' = [0x13] then Some [8] else trie_contents \<lparr>root = Some (Leaf [1, 2] [7])\<rparr> key'))"
  by (rule trie_insert_update) (simp_all add: trie_ok_def)



text \<open>
  C37. With keys of different lengths the trie loses information: when one key is a proper prefix of
  another, the split of a leaf forgets the shared nibbles. For every suffix \<open>ext\<close> and any two values there is
  one trie that inserting \<open>key\<close> and \<open>key @ ext\<close>, in either order, builds for every nonempty \<open>key\<close>; apart from the
  empty key, the only key it holds is \<open>ext\<close>. So different pairs of keys collide, the longer key is never found
  again, and the shorter one only when it equals \<open>ext\<close>, and then with the other key's value.
\<close>

theorem trie_prefix_keys_collide:
  assumes "ext \<noteq> []"
  shows "\<exists>t. (\<forall>key. key \<noteq> [] \<longrightarrow>
      try_fold (\<lambda>t (key, v). trie_insert t key v) trie_new [(key, v), (key @ ext, w)] = Ok t \<and>
      try_fold (\<lambda>t (key, v). trie_insert t key v) trie_new [(key @ ext, w), (key, v)] = Ok t \<and>
      trie_contents t (key @ ext) = None) \<and>
    (\<forall>key. trie_contents t key = (if key = [] then Some v else if key = ext then Some w else None))"
proof -
  obtain x xs where ext: "bytes_to_nibbles ext = x # xs" and x: "unat x < 16"
    using assms nibbles_of_key [of ext] by (cases ext) auto
  let ?t = "\<lparr>root = Some (Branch (no_children[unat x := Some (Leaf xs w)]) (Some v))\<rparr>"
  have "trie_contents ?t key = (if key = [] then Some v else if key = ext then Some w else None)" for key
    using assms x ext bytes_to_nibbles_inject [of key ext] nibbles_of_key [of key]
    by (cases "bytes_to_nibbles key") (auto simp: trie_contents_def nth_list_update word_unat_eq_iff split: if_splits)
  with assms x show ?thesis
    by (intro exI [of _ ?t])
       (auto simp: trie_insert_def trie_new_def bytes_to_nibbles_append ext split_leaf_prefix)
qed

theorem trie_prefix_keys_collide_witness:
  "\<exists>t. try_fold (\<lambda>t (key, v). trie_insert t key v) trie_new [([0x12], [7]), ([0x12, 0x34], [8])] = Ok t \<and>
       try_fold (\<lambda>t (key, v). trie_insert t key v) trie_new [([0x56], [7]), ([0x56, 0x34], [8])] = Ok t \<and>
       trie_contents t [0x12] = None \<and> trie_contents t [0x12, 0x34] = None \<and> trie_contents t [0x34] = Some [8]"
proof -
  have "[0x34 :: u8] \<noteq> []" by simp
  from trie_prefix_keys_collide [OF this, of "[7]" "[8]"] obtain t where
    t: "\<And>key. key \<noteq> [] \<Longrightarrow> try_fold (\<lambda>t (key, v). trie_insert t key v) trie_new [(key, [7]), (key @ [0x34], [8])] = Ok t \<and>
      trie_contents t (key @ [0x34]) = None"
    "\<And>key. trie_contents t key = (if key = [] then Some [7] else if key = [0x34] then Some [8] else None)"
    by blast
  from t(1) [of "[0x12]"] t(1) [of "[0x56]"] t(2) [of "[0x12]"] t(2) [of "[0x34]"]
  show ?thesis by (intro exI [of _ t]) auto
qed

end
