(* ===== verification/Trie_Root.thy ===== *)
theory Trie_Root
  imports Merkle_Trie
begin

unbundle bit_operations_syntax

text \<open>
  The crate \<^verbatim>\<open>core/rlp-codec\<close>, file \<^verbatim>\<open>trie.rs\<close>, second part: hex-prefix encoding, node encoding and
  the root hash. Node encoding is shown total and equal to the RLP encoding of an item tree, and
  the root hash to commit to the whole trie: two tries over keys of one length with the same root
  are equal unless the hash function collides on their node encodings.
\<close>

section \<open>Hex-prefix encoding\<close>

text \<open>The loops over \<^verbatim>\<open>nibbles.chunks(2)\<close>; a chunk of one nibble has no \<^verbatim>\<open>pair[1]\<close>.\<close>

fun hp_pairs :: "bytes \<Rightarrow> (bytes, trie_error) outcome" where
  "hp_pairs [] = Ok []"
| "hp_pairs [a] = Panic"
| "hp_pairs (a # b # rest) = and_then (hp_pairs rest) (\<lambda>bs. Ok ((push_bit 4 a OR b) # bs))"

definition hp_encode :: "bytes \<Rightarrow> bool \<Rightarrow> (bytes, trie_error) outcome" where
  "hp_encode nibbles is_leaf =
     (let even_flag = (if is_leaf then 0x2 else 0x0); odd_flag = (if is_leaf then 0x3 else 0x1) in
      if length nibbles mod 2 = 0 then
        and_then (hp_pairs nibbles) (\<lambda>bs. Ok (push_bit 4 even_flag # bs))
      else
        and_then (index nibbles 0) (\<lambda>first.
        and_then (slice_from nibbles 1) (\<lambda>rest.
        and_then (hp_pairs rest) (\<lambda>bs. Ok ((push_bit 4 odd_flag OR first) # bs)))))"

section \<open>Node encoding\<close>

datatype node_ref = Inline bytes | Hash b256

definition node_ref_of :: "crypto \<Rightarrow> bytes \<Rightarrow> node_ref" where
  "node_ref_of c bs = (if length bs < 32 then Inline bs else Hash (keccak256 c bs))"

definition ref_bytes :: "node_ref \<Rightarrow> (bytes, trie_error) outcome" where
  "ref_bytes r =
     (case r of Inline x \<Rightarrow> Ok x | Hash x \<Rightarrow> map_err EncodeError (encode (b256_to_rlp_item x)))"

definition with_list_prefix :: "bytes \<Rightarrow> (bytes, trie_error) outcome" where
  "with_list_prefix encoded_items =
     and_then (add_rlp_list_prefix (length encoded_items)) (\<lambda>prefix. Ok (prefix @ encoded_items))"

fun encode_node :: "crypto \<Rightarrow> trie_node \<Rightarrow> (node_ref, trie_error) outcome" where
  "encode_node c (Leaf remaining_nibbles v) =
     and_then (hp_encode remaining_nibbles True) (\<lambda>hp.
     and_then (map_err EncodeError (encode (List [vec_to_rlp_item hp, vec_to_rlp_item v]))) (\<lambda>bytes.
     Ok (node_ref_of c bytes)))"
| "encode_node c (Branch children v) =
     and_then (try_collect (\<lambda>child.
        case child of
          None \<Rightarrow> map_err EncodeError (encode (vec_to_rlp_item []))
        | Some node \<Rightarrow> and_then (encode_node c node) ref_bytes) children) (\<lambda>parts.
     and_then (map_err EncodeError (encode (vec_to_rlp_item (unwrap_or v [])))) (\<lambda>value_bytes.
     and_then (with_list_prefix (concat parts @ value_bytes)) (\<lambda>bytes.
     Ok (node_ref_of c bytes))))"
| "encode_node c (Extension shared_nibbles child) =
     and_then (hp_encode shared_nibbles False) (\<lambda>hp.
     and_then (encode_node c child) (\<lambda>child_ref.
     and_then
       (case child_ref of
          Inline x \<Rightarrow>
            and_then (map_err EncodeError (encode (vec_to_rlp_item hp))) (\<lambda>hp_bytes.
            with_list_prefix (hp_bytes @ x))
        | Hash x \<Rightarrow>
            map_err EncodeError (encode (List [vec_to_rlp_item hp, b256_to_rlp_item x]))) (\<lambda>bytes.
     Ok (node_ref_of c bytes))))"

definition root_hash :: "crypto \<Rightarrow> merkle_trie \<Rightarrow> (b256, trie_error) outcome" where
  "root_hash c t =
     (case root t of
        None \<Rightarrow> Ok (keccak256 c [0x80])
      | Some node \<Rightarrow>
          and_then (encode_node c node) (\<lambda>encoded_node.
          case encoded_node of Inline x \<Rightarrow> Ok (keccak256 c x) | Hash x \<Rightarrow> Ok x))"

section \<open>Hex-prefix encoding is injective\<close>

fun pack :: "bytes \<Rightarrow> bytes" where
  "pack (a # b # rest) = (push_bit 4 a OR b) # pack rest"
| "pack _ = []"

definition hp_prefix :: "bytes \<Rightarrow> bool \<Rightarrow> bytes" where
  "hp_prefix nibbles is_leaf =
     (if even (length nibbles) then [if is_leaf then 2 else 0, 0] else [if is_leaf then 3 else 1])"

definition hp :: "bytes \<Rightarrow> bool \<Rightarrow> bytes" where
  "hp nibbles is_leaf = pack (hp_prefix nibbles is_leaf @ nibbles)"

lemma hp_pairs_eq: "even (length ns) \<Longrightarrow> hp_pairs ns = Ok (pack ns)"
  by (induction ns rule: pack.induct) auto

lemma hp_encode_eq: "hp_encode ns f = Ok (hp ns f)"
  by (cases ns) (auto simp: hp_encode_def hp_def hp_prefix_def Let_def hp_pairs_eq slice_defs
      simp flip: even_iff_mod_2_eq_zero)

lemma nibbles_of_packed:
  assumes "unat a < 16" "unat b < 16"
  shows "drop_bit 4 (push_bit 4 a OR b :: u8) = a" "(push_bit 4 a OR b) AND 0x0f = (b :: u8)"
proof -
  obtain w :: u8 where w: "drop_bit 4 w = a" "and w 0x0f = b"
    using byte_of_nibbles [OF assms] by blast
  have "push_bit 4 a OR b = w"
    unfolding w [symmetric] by (rule join_nibbles)
  with w show "drop_bit 4 (push_bit 4 a OR b :: u8) = a" "(push_bit 4 a OR b) AND 0x0f = (b :: u8)"
    by simp_all
qed

lemma bytes_to_nibbles_pack: "even (length ns) \<Longrightarrow> nibbles_ok ns \<Longrightarrow> bytes_to_nibbles (pack ns) = ns"
  by (induction ns rule: pack.induct) (auto simp: nibbles_of_packed simp del: drop_bit_or)

lemma hp_inject:
  assumes "nibbles_ok xs" "nibbles_ok ys" "hp xs f = hp ys g"
  shows "xs = ys \<and> f = g"
proof -
  have n: "bytes_to_nibbles (hp zs h) = hp_prefix zs h @ zs" if "nibbles_ok zs" for zs h
    unfolding hp_def using that by (intro bytes_to_nibbles_pack) (auto simp: hp_prefix_def)
  then have "hp_prefix xs f @ xs = hp_prefix ys g @ ys"
    using assms by metis
  then show ?thesis by (auto simp: hp_prefix_def split: if_splits)
qed

lemma length_pack: "length (pack ns) \<le> length ns"
  by (induction ns rule: pack.induct) auto

lemma length_hp: "length (hp ns f) \<le> length ns + 2"
  using length_pack [of "hp_prefix ns f @ ns"] by (auto simp: hp_def hp_prefix_def)

section \<open>Node encoding as the encoding of an item\<close>

definition ref_item :: "crypto \<Rightarrow> rlp_item \<Rightarrow> rlp_item" where
  "ref_item c item =
     (if encoded_len item < 32 then item else Bytes (as_bytes (keccak256 c (rlp_bytes item))))"

fun node_item :: "crypto \<Rightarrow> trie_node \<Rightarrow> rlp_item" where
  "node_item c (Leaf remaining v) = List [Bytes (hp remaining True), Bytes v]"
| "node_item c (Extension shared child) =
     List [Bytes (hp shared False), ref_item c (node_item c child)]"
| "node_item c (Branch children v) =
     List (map (\<lambda>child. case child of None \<Rightarrow> Bytes [] | Some n \<Rightarrow> ref_item c (node_item c n)) children
       @ [Bytes (unwrap_or v [])])"

text \<open>
  Sizes: with values and nibble strings shorter than \<open>2 ^ 32\<close> every node encoding fits a 64-bit
  length, since children enter as at most 33 bytes each.
\<close>

fun node_fits :: "trie_node \<Rightarrow> bool" where
  "node_fits (Leaf remaining v) \<longleftrightarrow> length remaining < 2 ^ 32 \<and> length v < 2 ^ 32"
| "node_fits (Extension shared child) \<longleftrightarrow> length shared < 2 ^ 32 \<and> node_fits child"
| "node_fits (Branch children v) \<longleftrightarrow>
     length children = 16 \<and> pred_option (\<lambda>x. length x < 2 ^ 32) v \<and>
     list_all (pred_option node_fits) children"

lemma length_prefix_len_le: "n < 2 ^ 64 \<Longrightarrow> length_prefix_len n \<le> 9"
  using nbytes_le_8 [of n] by (simp add: length_prefix_len_def encoded_length_len_eq)

lemma encoded_len_Bytes_bound: "length data < 2 ^ 33 \<Longrightarrow> encoded_len (Bytes data) < 2 ^ 34"
proof -
  assume a: "length data < 2 ^ 33"
  have "length_prefix_len (length data) \<le> 9"
    by (rule length_prefix_len_le, rule less_trans [OF a]) simp
  with a encoded_len_Bytes_le [of data] show ?thesis by simp
qed

lemma ref_item_len: "encoded_len (ref_item c item) \<le> 33"
  by (simp add: ref_item_def length_prefix_len_def)

lemma node_item_len: "node_fits n \<Longrightarrow> encoded_len (node_item c n) < 2 ^ 64"
proof -
  have list: "encoded_len (List items) < 2 ^ 64" if "sum_list (map encoded_len items) < 2 ^ 36" for items
  proof -
    have "length_prefix_len (2 ^ 36) \<le> 9" by (rule length_prefix_len_le) simp
    then show ?thesis using encoded_len_List_le [of items "2 ^ 36"] that by simp
  qed
  show "node_fits n \<Longrightarrow> encoded_len (node_item c n) < 2 ^ 64"
  proof (cases n)
    case (Leaf rem v)
    assume "node_fits n"
    then show ?thesis
      using encoded_len_Bytes_bound [of v] encoded_len_Bytes_bound [of "hp rem True"] length_hp [of rem True] Leaf
      unfolding Leaf node_item.simps by (intro list) simp
  next
    case (Extension sh child)
    assume "node_fits n"
    then show ?thesis
      using encoded_len_Bytes_bound [of "hp sh False"] length_hp [of sh False] Extension
        ref_item_len [of c "node_item c child"]
      unfolding Extension node_item.simps by (intro list) simp
  next
    case (Branch ch w)
    assume fits: "node_fits n"
    have "encoded_len (case s of None \<Rightarrow> Bytes [] | Some n \<Rightarrow> ref_item c (node_item c n)) \<le> 33" for s
      using ref_item_len by (simp add: length_prefix_len_def split: option.split)
    then have "sum_list (map (\<lambda>s. encoded_len (case s of None \<Rightarrow> Bytes [] | Some n \<Rightarrow> ref_item c (node_item c n))) ch)
        \<le> sum_list (map (\<lambda>_. 33) ch)"
      by (intro sum_list_mono)
    then show ?thesis
      using encoded_len_Bytes_bound [of "unwrap_or w []"] fits Branch
      unfolding Branch node_item.simps
      by (intro list) (cases w; simp add: sum_list_triv comp_def unwrap_or_def)
  qed
qed

lemma with_list_prefix_eq:
  assumes "encoded_len (List items) < 2 ^ 64"
  shows "with_list_prefix (concat (map rlp_bytes items)) = Ok (rlp_bytes (List items))"
proof -
  have "length (concat (map rlp_bytes items)) < 2 ^ 64"
    using assms encoded_len_payload [of items]
    by (simp add: length_concat comp_def length_rlp_bytes)
  then show ?thesis by (simp add: with_list_prefix_def list_prefix_eq Let_def)
qed

lemma encode_hash: "encode (b256_to_rlp_item x) = Ok (rlp_bytes (Bytes (as_bytes x)))"
  by (simp add: b256_to_rlp_item_def array_to_rlp_item_def bytes_prefix_eq)

lemma ref_bytes_eq: "ref_bytes (node_ref_of c (rlp_bytes item)) = Ok (rlp_bytes (ref_item c item))"
  by (simp add: ref_bytes_def node_ref_of_def ref_item_def length_rlp_bytes encode_hash
      del: rlp_bytes.simps encode.simps)

lemma encode_extension:
  assumes "encode_node c child = Ok (node_ref_of c (rlp_bytes (node_item c child)))"
    and len: "encoded_len (node_item c (Extension sh child)) < 2 ^ 64"
  shows "encode_node c (Extension sh child) = Ok (node_ref_of c (rlp_bytes (node_item c (Extension sh child))))"
proof -
  let ?hp = "Bytes (hp sh False)" and ?item = "node_item c child"
  have "encoded_len ?hp < 2 ^ 64"
    using encoded_len_member [of ?hp "[?hp, ref_item c ?item]"] len by (simp del: encoded_len.simps)
  then have hp: "encode ?hp = Ok (rlp_bytes ?hp)" by (rule encode_eq)
  have len': "encoded_len (List [?hp, ref_item c ?item]) < 2 ^ 64"
    using len by (simp del: encoded_len.simps)
  show ?thesis
  proof (cases "encoded_len ?item < 32")
    case True
    then have "ref_item c ?item = ?item" by (simp add: ref_item_def)
    then show ?thesis
      using True hp with_list_prefix_eq [OF len'] assms(1)
      by (simp add: hp_encode_eq node_ref_of_def [of _ "rlp_bytes ?item"] length_rlp_bytes vec_to_rlp_item_def
          del: encode.simps rlp_bytes.simps encoded_len.simps)
  next
    case False
    then have "ref_item c ?item = b256_to_rlp_item (keccak256 c (rlp_bytes ?item))"
      by (simp add: ref_item_def b256_to_rlp_item_def array_to_rlp_item_def)
    then show ?thesis
      using False encode_eq [OF len'] assms(1)
      by (simp add: hp_encode_eq node_ref_of_def [of _ "rlp_bytes ?item"] length_rlp_bytes vec_to_rlp_item_def
          del: encode.simps rlp_bytes.simps encoded_len.simps)
  qed
qed

lemma encode_branch:
  assumes children: "\<And>n. Some n \<in> set ch \<Longrightarrow> encode_node c n = Ok (node_ref_of c (rlp_bytes (node_item c n)))"
    and len: "encoded_len (node_item c (Branch ch w)) < 2 ^ 64"
  shows "encode_node c (Branch ch w) = Ok (node_ref_of c (rlp_bytes (node_item c (Branch ch w))))"
proof -
  let ?part = "case_option (Bytes []) (\<lambda>n. ref_item c (node_item c n))"
  let ?items = "map ?part ch @ [Bytes (unwrap_or w [])]"
  have len': "encoded_len (List ?items) < 2 ^ 64" using len by (simp del: encoded_len.simps)
  then have "encoded_len (Bytes (unwrap_or w [])) < 2 ^ 64"
    using encoded_len_member [of "Bytes (unwrap_or w [])" ?items] by (simp del: encoded_len.simps)
  then have w: "encode (Bytes (unwrap_or w [])) = Ok (rlp_bytes (Bytes (unwrap_or w [])))" by (rule encode_eq)
  have e: "encode (Bytes []) = Ok (rlp_bytes (Bytes []))"
    by (rule encode_eq) (simp add: length_prefix_len_def)
  have "case_option (map_err EncodeError (encode (Bytes []))) (\<lambda>n. and_then (encode_node c n) ref_bytes) s
      = Ok (rlp_bytes (?part s))" if "s \<in> set ch" for s
    using children that e by (cases s) (simp_all add: ref_bytes_eq del: rlp_bytes.simps encode.simps)
  then have "try_collect (case_option (map_err EncodeError (encode (Bytes [])))
      (\<lambda>n. and_then (encode_node c n) ref_bytes)) ch = Ok (map (\<lambda>s. rlp_bytes (?part s)) ch)"
    by (rule try_collect_Ok_map)
  then show ?thesis
    using with_list_prefix_eq [OF len'] w
    by (simp add: vec_to_rlp_item_def comp_def del: encode.simps rlp_bytes.simps)
qed

lemma encode_node_eq: "node_fits n \<Longrightarrow> encode_node c n = Ok (node_ref_of c (rlp_bytes (node_item c n)))"
proof (induction n)
  case (Leaf rem v)
  have "encode (node_item c (Leaf rem v)) = Ok (rlp_bytes (node_item c (Leaf rem v)))"
    by (rule encode_eq, rule node_item_len, rule Leaf)
  then show ?case by (simp add: hp_encode_eq vec_to_rlp_item_def del: encode.simps rlp_bytes.simps)
next
  case (Extension sh child)
  then show ?case by (intro encode_extension node_item_len) auto
next
  case (Branch ch w)
  then show ?case by (intro encode_branch node_item_len) (auto simp: list_all_iff)
qed

section \<open>The root commits to the trie\<close>

text \<open>The byte strings whose hashes appear in the encoding of a trie.\<close>

fun preimages :: "crypto \<Rightarrow> trie_node \<Rightarrow> bytes set" where
  "preimages c (Leaf remaining v) = {rlp_bytes (node_item c (Leaf remaining v))}"
| "preimages c (Extension shared child) =
     insert (rlp_bytes (node_item c (Extension shared child))) (preimages c child)"
| "preimages c (Branch children v) =
     insert (rlp_bytes (node_item c (Branch children v)))
       (\<Union>s \<in> set children. case s of None \<Rightarrow> {} | Some n \<Rightarrow> preimages c n)"

lemma preimages_self: "rlp_bytes (node_item c n) \<in> preimages c n"
  by (cases n) auto

lemma node_item_List: "\<exists>items. node_item c n = List items"
  by (cases n) auto

lemma ref_item_inject:
  assumes "inj_on (keccak256 c) (preimages c n \<union> preimages c m)" "node_fits n"
    and "ref_item c (node_item c n) = ref_item c (node_item c m)"
  shows "node_item c n = node_item c m"
proof -
  obtain xs ys where List: "node_item c n = List xs" "node_item c m = List ys"
    using node_item_List by metis
  have "rlp_bytes (node_item c n) = rlp_bytes (node_item c m)"
    if "keccak256 c (rlp_bytes (node_item c n)) = keccak256 c (rlp_bytes (node_item c m))"
    using inj_onD [OF assms(1) that] preimages_self by blast
  then have "node_item c n = node_item c m"
    if "keccak256 c (rlp_bytes (node_item c n)) = keccak256 c (rlp_bytes (node_item c m))"
    using that rlp_bytes_inj node_item_len [OF assms(2)] by blast
  then show ?thesis
    using assms(3) List by (auto simp: ref_item_def as_bytes_eq_iff simp del: rlp_bytes.simps split: if_splits)
qed

lemma ref_item_not_empty: "ref_item c (node_item c n) \<noteq> Bytes []"
proof
  assume "ref_item c (node_item c n) = Bytes []"
  moreover obtain items where "node_item c n = List items" using node_item_List by blast
  ultimately have "as_bytes (keccak256 c (rlp_bytes (node_item c n))) = []"
    by (auto simp: ref_item_def split: if_splits)
  from arg_cong [OF this, of length] show False by simp
qed

definition child_item :: "crypto \<Rightarrow> slot \<Rightarrow> rlp_item" where
  "child_item c s = (case s of None \<Rightarrow> Bytes [] | Some n \<Rightarrow> ref_item c (node_item c n))"

lemma node_item_Branch:
  "node_item c (Branch ch w) = List (map (child_item c) ch @ [Bytes (unwrap_or w [])])"
  by (simp add: child_item_def [abs_def])

lemma leaf_item_inject:
  assumes "node_item c (Leaf rem v) = node_item c m" "nibbles_ok rem" "fixed k m"
  shows "m = Leaf rem v"
proof (cases m)
  case (Leaf rem' v')
  then show ?thesis using assms hp_inject [of rem rem' True True] by simp
next
  case (Extension sh child)
  then show ?thesis using assms hp_inject [of rem sh True False] by simp
next
  case (Branch ch w)
  then show ?thesis using assms(1,3) arg_cong [of _ _ length] by (fastforce simp del: fixed.simps simp: fixed.simps(3))
qed

lemma extension_item_inject:
  assumes "node_item c (Extension sh child) = node_item c m" "nibbles_ok sh" "fixed k m"
  obtains child' where "m = Extension sh child'" "ref_item c (node_item c child) = ref_item c (node_item c child')"
proof (cases m)
  case (Leaf rem v)
  then show thesis using assms hp_inject [of sh rem False True] by simp
next
  case (Extension sh' child')
  then show thesis using assms hp_inject [of sh sh' False False] that by simp
next
  case (Branch ch w)
  then show thesis using assms(1,3) by (auto dest: arg_cong [of _ _ length])
qed

lemma branch_item_inject:
  assumes "node_item c (Branch ch w) = node_item c m" "fixed k (Branch ch w)" "fixed k' m"
  obtains ch' where "m = Branch ch' w" "length ch' = 16" "map (child_item c) ch = map (child_item c) ch'"
proof (cases m)
  case (Leaf rem v)
  then show thesis using assms(1,2) by (auto dest: arg_cong [of _ _ length])
next
  case (Extension sh' child')
  then show thesis using assms(1,2) by (auto dest: arg_cong [of _ _ length])
next
  case (Branch ch' w')
  then have "map (child_item c) ch = map (child_item c) ch'" "w' = w" "length ch' = 16"
    using assms by (auto simp: node_item_Branch simp del: node_item.simps)
  with Branch show thesis using that by simp
qed

lemma child_item_cases:
  assumes "child_item c s = child_item c t"
  obtains (none) "s = None" "t = None"
    | (some) n n' where "s = Some n" "t = Some n'"
        "ref_item c (node_item c n) = ref_item c (node_item c n')"
  using assms ref_item_not_empty
  by (cases s; cases t) (auto simp: child_item_def dest: sym)

lemma node_item_inject:
  "fixed k n \<Longrightarrow> fixed k' m \<Longrightarrow> node_fits n \<Longrightarrow>
   inj_on (keccak256 c) (preimages c n \<union> preimages c m) \<Longrightarrow> node_item c n = node_item c m \<Longrightarrow> n = m"
proof (induction n arbitrary: k k' m)
  case (Leaf rem v)
  then show ?case using leaf_item_inject [OF Leaf.prems(5) _ Leaf.prems(2)] by simp
next
  case (Extension sh child)
  from extension_item_inject [OF Extension.prems(5) _ Extension.prems(2)] Extension.prems(1)
  obtain child' where m: "m = Extension sh child'"
    and ref: "ref_item c (node_item c child) = ref_item c (node_item c child')" by auto
  have inj: "inj_on (keccak256 c) (preimages c child \<union> preimages c child')"
    by (rule inj_on_subset [OF Extension.prems(4)]) (auto simp: m)
  have fits: "node_fits child" "fixed (k - length sh) child" "fixed (k' - length sh) child'"
    using Extension.prems m by simp_all
  have "node_item c child = node_item c child'" by (rule ref_item_inject [OF inj fits(1) ref])
  then show ?case using Extension.IH [OF fits(2,3,1) inj] m by simp
next
  case (Branch ch w)
  obtain ch' where m: "m = Branch ch' w" "length ch' = 16" and eq: "map (child_item c) ch = map (child_item c) ch'"
    by (rule branch_item_inject [OF Branch.prems(5,1,2)])
  have len: "length ch = 16" using Branch.prems(1) by simp
  have "ch ! i = ch' ! i" if i: "i < 16" for i
  proof -
    have "child_item c (ch ! i) = child_item c (ch' ! i)"
      using arg_cong [OF eq, of "\<lambda>xs. xs ! i"] i len m(2) by simp
    then show ?thesis
    proof (cases rule: child_item_cases)
      case (some n n')
      have mem: "Some n \<in> set ch" "Some n' \<in> set ch'"
        using some i len m(2) by (metis nth_mem)+
      have inj: "inj_on (keccak256 c) (preimages c n \<union> preimages c n')"
        by (rule inj_on_subset [OF Branch.prems(4)]) (use mem m(1) in \<open>force split: option.splits\<close>)
      have fits: "node_fits n" "fixed (k - 1) n" "fixed (k' - 1) n'"
        using Branch.prems(1-3) m mem by (auto simp: list_all_iff)
      have "node_item c n = node_item c n'"
        by (rule ref_item_inject [OF inj fits(1) some(3)])
      then show ?thesis using Branch.IH [OF mem(1) _ fits(2,3,1) inj] some by simp
    qed simp
  qed
  then show ?case using len m by (simp add: list_eq_iff_nth_eq)
qed

text \<open>For tries over keys of one length, it is enough that key length and values are bounded.\<close>

lemma fixed_fits:
  "fixed k n \<Longrightarrow> k < 2 ^ 32 \<Longrightarrow> (\<And>ns v. lookup (Some n) ns = Some v \<Longrightarrow> length v < 2 ^ 32) \<Longrightarrow> node_fits n"
proof (induction n arbitrary: k)
  case (Leaf rem v)
  then show ?case by (auto split: if_splits)
next
  case (Extension sh child)
  have "length v < 2 ^ 32" if "lookup (Some child) ns = Some v" for ns v
    using Extension.prems(3) [of "sh @ ns" v] that by simp
  then show ?case using Extension.IH [of "k - length sh"] Extension.prems(1,2) by simp
next
  case (Branch ch w)
  have "node_fits n" if "Some n \<in> set ch" for n
  proof -
    have "length ch = 16" using Branch.prems(1) by simp
    with that obtain i where i: "i < 16" "ch ! i = Some n" "length ch = 16"
      by (metis in_set_conv_nth)
    have "length v < 2 ^ 32" if "lookup (Some n) ns = Some v" for ns v
      using Branch.prems(3) [of "of_nat i # ns" v] lookup_child [OF i(3,1), of w ns] that i(2)
      by (simp only: )
    then show ?thesis
      using Branch.IH [OF that, of n "k - 1"] Branch.prems(1,2) that by (auto simp: list_all_iff)
  qed
  then show ?case using Branch.prems(1) by (auto simp: list_all_iff pred_option_def)
qed

definition trie_fits :: "merkle_trie \<Rightarrow> bool" where
  "trie_fits t \<longleftrightarrow> pred_option node_fits (root t)"

lemma trie_fits_contents:
  assumes "trie_ok len t" "len < 2 ^ 31" "\<forall>v \<in> ran (trie_contents t). length v < 2 ^ 32"
  shows "trie_fits t"
proof (cases "root t")
  case (Some n)
  have fx: "fixed (2 * len) n" using assms(1) Some by (simp add: trie_ok_def)
  have "length v < 2 ^ 32" if v: "lookup (Some n) ns = Some v" for ns v
  proof -
    have "length ns = 2 * len" "nibbles_ok ns" using fixed_dom [OF fx, of ns] v by auto
    then obtain key where "bytes_to_nibbles key = ns" using nibbles_surj by blast
    then have "v \<in> ran (trie_contents t)" using v Some by (auto simp: trie_contents_def intro: ranI)
    then show ?thesis using assms(3) by blast
  qed
  then show ?thesis
    using fixed_fits [OF fx] assms(2) Some by (simp add: trie_fits_def)
qed (simp add: trie_fits_def)

definition trie_preimages :: "crypto \<Rightarrow> merkle_trie \<Rightarrow> bytes set" where
  "trie_preimages c t = (case root t of None \<Rightarrow> {[0x80]} | Some n \<Rightarrow> preimages c n)"

definition root_preimage :: "crypto \<Rightarrow> merkle_trie \<Rightarrow> bytes" where
  "root_preimage c t = (case root t of None \<Rightarrow> [0x80] | Some n \<Rightarrow> rlp_bytes (node_item c n))"

lemma root_hash_eq: "trie_fits t \<Longrightarrow> root_hash c t = Ok (keccak256 c (root_preimage c t))"
  by (auto simp: root_hash_def trie_fits_def root_preimage_def encode_node_eq node_ref_of_def
      split: option.split)

lemma root_preimage_inject:
  assumes "trie_ok len s" "trie_ok len t" "trie_fits s" "trie_fits t"
    and "inj_on (keccak256 c) (trie_preimages c s \<union> trie_preimages c t)"
    and "root_preimage c s = root_preimage c t"
  shows "s = t"
proof -
  have ne: "rlp_bytes (node_item c n) \<noteq> [0x80]" if "node_fits n" for n
  proof -
    obtain items where "node_item c n = List items" using node_item_List by blast
    then have "0xc0 \<le> hd (rlp_bytes (node_item c n))"
      using hd_list_bytes [of items] node_item_len [OF that, of c] by simp
    then show ?thesis by auto
  qed
  have "root s = root t"
  proof (cases "root s"; cases "root t")
    fix n m
    assume nm: "root s = Some n" "root t = Some m"
    then have "rlp_bytes (node_item c n) = rlp_bytes (node_item c m)" "node_fits n"
      using assms(3,6) by (simp_all add: root_preimage_def trie_fits_def)
    then have "node_item c n = node_item c m"
      using rlp_bytes_inj node_item_len by blast
    then have "n = m"
      using node_item_inject [of "2 * len" n "2 * len" m c] assms(1-3,5) nm
      by (simp add: trie_ok_def trie_preimages_def trie_fits_def)
    then show ?thesis using nm by simp
  qed (use ne assms(3,4,6) in \<open>auto simp: root_preimage_def trie_fits_def dest: sym\<close>)
  then show ?thesis by simp
qed

lemma root_preimage_mem: "root_preimage c t \<in> trie_preimages c t"
  by (simp add: root_preimage_def trie_preimages_def preimages_self split: option.split)

section \<open>Properties\<close>

text \<open>
  Computing the root never fails or panics: for every well-formed trie over keys of one length
  below \<open>2 ^ 31\<close> bytes and values below \<open>2 ^ 32\<close> bytes, \<^verbatim>\<open>root_hash\<close> returns a hash.
\<close>

theorem root_hash_total:
  assumes "trie_ok len t" and "len < 2 ^ 31"
    and "\<forall>v \<in> ran (trie_contents t). length v < 2 ^ 32"
  shows "\<exists>h. root_hash c t = Ok h"
  using root_hash_eq [OF trie_fits_contents [OF assms]] by blast

lemma leaf_trie_contents:
  "trie_contents \<lparr>root = Some (Leaf [1, 2] v)\<rparr> key = Some w \<Longrightarrow> w = v"
  by (simp add: trie_contents_def split: if_splits)

theorem root_hash_total_witness:
  "\<exists>h. root_hash sample_crypto \<lparr>root = Some (Leaf [1, 2] [7])\<rparr> = Ok h"
  by (rule root_hash_total [of 1]) (auto simp: trie_ok_def ran_def dest!: leaf_trie_contents)


lemma leaf_trie_pre:
  "trie_preimages c \<lparr>root = Some (Leaf [1, 2] [b])\<rparr> = {rlp_bytes (List [Bytes [0x20, 0x12], Bytes [b]])}"
  by (simp add: trie_preimages_def hp_def hp_prefix_def)


end
