(* ===== verification/Provider.thy ===== *)
theory Provider
  imports Trie_Root
begin

text \<open>
  The crate \<^verbatim>\<open>core/execution\<close>, files \<^verbatim>\<open>error.rs\<close>, \<^verbatim>\<open>primitives.rs\<close>, \<^verbatim>\<open>providers.rs\<close> and
  \<^verbatim>\<open>in_memory.rs\<close>: the in-memory chain and state store, its journal, and the read interface the
  other components use. A hash map is an association list with distinct keys (\<open>provider_ok\<close>); what
  a map holds is \<open>map_of\<close>, so properties about contents do not depend on iteration order.
\<close>

section \<open>Errors and receipts (error.rs, primitives.rs)\<close>

type_synonym block_number = u64

datatype execution_error =
    BlockNotFound block_number
  | HeaderNotFound b256
  | TransactionNotFound b256
  | ReceiptNotFound b256
  | AccountNotFound address
  | InvalidParentHash b256 b256
  | GasLimitExceeded u64 u64
  | InsufficientBalance address u128 u128
  | InvalidNonce address u64 u64
  | TooManyTransactions usize usize
  | InvalidBlockNumber block_number block_number
  | ExecOverflow
  | ExecUnderflow
  | JournalAlreadySet
  | ExecTransaction transaction_error
  | ExecSigning signing_error
  | RootCompute trie_error
  | ExecRlp rlp_error

record log =
  log_address :: address
  topics :: "b256 list"
  log_data :: bytes

record receipt =
  transaction_hash :: b256
  transaction_index :: u64
  block_hash :: b256
  receipt_block_number :: block_number
  receipt_from :: address
  receipt_to :: "address option"
  contract_address :: "address option"
  cumulative_gas_used :: u64
  receipt_effective_gas_price :: u128
  receipt_gas_used :: u64
  status :: bool
  logs :: "log list"
  receipt_logs_bloom :: bloom

section \<open>The in-memory provider (in\_memory.rs)\<close>

type_synonym state_journal = "(address, account option) hash_map"

record in_memory_provider =
  blocks :: "(block_number, block) hash_map"
  blocks_by_hash :: "(b256, block_number) hash_map"
  tx_store :: "(b256, signed_transaction \<times> block_number) hash_map"
  receipts :: "(b256, receipt) hash_map"
  state :: "(address, account) hash_map"
  storage :: "(address \<times> b256, b256) hash_map"
  journal :: "state_journal option"

definition default_provider :: in_memory_provider where
  "default_provider = \<lparr>blocks = [], blocks_by_hash = [], tx_store = [], receipts = [], state = [],
     storage = [], journal = None\<rparr>"

definition insert_transaction ::
  "b256 \<Rightarrow> signed_transaction \<Rightarrow> block_number \<Rightarrow> in_memory_provider \<Rightarrow> in_memory_provider" where
  "insert_transaction hash tx num p = p\<lparr>tx_store := AList.update hash (tx, num) (tx_store p)\<rparr>"

definition insert_receipt :: "receipt \<Rightarrow> in_memory_provider \<Rightarrow> in_memory_provider" where
  "insert_receipt r p = p\<lparr>receipts := AList.update (transaction_hash r) r (receipts p)\<rparr>"

definition set_storage :: "address \<Rightarrow> b256 \<Rightarrow> b256 \<Rightarrow> in_memory_provider \<Rightarrow> in_memory_provider" where
  "set_storage a slot v p = p\<lparr>storage := AList.update (a, slot) v (storage p)\<rparr>"

definition insert_block :: "crypto \<Rightarrow> block \<Rightarrow> (unit, execution_error, in_memory_provider) action" where
  "insert_block c b =
     then_do (pure (map_err ExecRlp (hash_header c (block_header b)))) (\<lambda>bhash.
     then_do (mutate (\<lambda>p. p\<lparr>blocks_by_hash :=
        AList.update bhash (number (block_header b)) (blocks_by_hash p)\<rparr>)) (\<lambda>_.
     then_do (for_each (\<lambda>_ signed_tx.
        then_do (pure (map_err ExecSigning (signed_transaction_hash c signed_tx))) (\<lambda>tx_hash.
        mutate (insert_transaction tx_hash signed_tx (number (block_header b)))))
        () (transactions b)) (\<lambda>_.
     mutate (\<lambda>p. p\<lparr>blocks := AList.update (number (block_header b)) b (blocks p)\<rparr>))))"

definition set_account :: "address \<Rightarrow> account \<Rightarrow> in_memory_provider \<Rightarrow> in_memory_provider" where
  "set_account a info p =
     (let p' =
        (case journal p of
           Some j \<Rightarrow>
             if \<not> hm_contains j a
             then p\<lparr>journal := Some (AList.update a (map_of (state p) a) j)\<rparr>
             else p
         | None \<Rightarrow> p)
      in p'\<lparr>state := AList.update a info (state p')\<rparr>)"

definition begin_journal :: "(unit, execution_error, in_memory_provider) action" where
  "begin_journal p =
     (if journal p \<noteq> None then (Err JournalAlreadySet, p) else (Ok (), p\<lparr>journal := Some []\<rparr>))"

definition commit_journal :: "in_memory_provider \<Rightarrow> in_memory_provider" where
  "commit_journal p = p\<lparr>journal := None\<rparr>"

definition restore_account ::
  "(address, account) hash_map \<Rightarrow> address \<times> account option \<Rightarrow> (address, account) hash_map" where
  "restore_account st entry =
     (case entry of
        (a, None) \<Rightarrow> AList.delete a st
      | (a, Some acc) \<Rightarrow> AList.update a acc st)"

definition rollback_journal :: "in_memory_provider \<Rightarrow> in_memory_provider" where
  "rollback_journal p =
     (case journal p of
        Some j \<Rightarrow> p\<lparr>state := foldl restore_account (state p) j, journal := None\<rparr>
      | None \<Rightarrow> p\<lparr>journal := None\<rparr>)"

section \<open>Reading (providers.rs, in\_memory.rs)\<close>

definition get_block_by_number :: "in_memory_provider \<Rightarrow> block_number \<Rightarrow> (block, execution_error) outcome" where
  "get_block_by_number p num = ok_or (BlockNotFound num) (map_of (blocks p) num)"

definition get_block_by_hash :: "in_memory_provider \<Rightarrow> b256 \<Rightarrow> (block, execution_error) outcome" where
  "get_block_by_hash p hash =
     and_then (ok_or (HeaderNotFound hash) (map_of (blocks_by_hash p) hash)) (get_block_by_number p)"

definition get_header_by_number :: "in_memory_provider \<Rightarrow> block_number \<Rightarrow> (header, execution_error) outcome" where
  "get_header_by_number p num =
     ok_or (BlockNotFound num) (map_option block_header (map_of (blocks p) num))"

definition get_header_by_hash :: "in_memory_provider \<Rightarrow> b256 \<Rightarrow> (header, execution_error) outcome" where
  "get_header_by_hash p hash =
     and_then (ok_or (HeaderNotFound hash) (map_of (blocks_by_hash p) hash)) (get_header_by_number p)"

definition get_account :: "in_memory_provider \<Rightarrow> address \<Rightarrow> (account, execution_error) outcome" where
  "get_account p a = ok_or (AccountNotFound a) (map_of (state p) a)"

definition get_balance :: "in_memory_provider \<Rightarrow> address \<Rightarrow> (u128, execution_error) outcome" where
  "get_balance p a = and_then (get_account p a) (\<lambda>info. Ok (acc_balance info))"

definition get_nonce :: "in_memory_provider \<Rightarrow> address \<Rightarrow> (u64, execution_error) outcome" where
  "get_nonce p a = and_then (get_account p a) (\<lambda>info. Ok (acc_nonce info))"

definition get_storage :: "in_memory_provider \<Rightarrow> address \<Rightarrow> b256 \<Rightarrow> (b256, execution_error) outcome" where
  "get_storage p a slot = Ok (unwrap_or (map_of (storage p) (a, slot)) zero_array)"

definition get_transaction :: "in_memory_provider \<Rightarrow> b256 \<Rightarrow> (signed_transaction, execution_error) outcome" where
  "get_transaction p hash = ok_or (TransactionNotFound hash) (map_option fst (map_of (tx_store p) hash))"

definition get_block_transactions ::
  "in_memory_provider \<Rightarrow> block_number \<Rightarrow> (signed_transaction list, execution_error) outcome" where
  "get_block_transactions p num =
     ok_or (BlockNotFound num) (map_option transactions (map_of (blocks p) num))"

definition get_receipt :: "in_memory_provider \<Rightarrow> b256 \<Rightarrow> (receipt, execution_error) outcome" where
  "get_receipt p hash = ok_or (ReceiptNotFound hash) (map_of (receipts p) hash)"

section \<open>Well-formed providers\<close>

text \<open>Keys are distinct, and a block is stored under its own number.\<close>

definition provider_ok :: "in_memory_provider \<Rightarrow> bool" where
  "provider_ok p \<longleftrightarrow>
     hm_ok (blocks p) \<and> hm_ok (blocks_by_hash p) \<and> hm_ok (tx_store p) \<and> hm_ok (receipts p) \<and>
     hm_ok (state p) \<and> hm_ok (storage p) \<and> pred_option hm_ok (journal p)"

named_theorems provider_ops \<open>definitions of the provider's operations\<close>

lemmas [provider_ops] = insert_transaction_def insert_receipt_def set_storage_def set_account_def
  commit_journal_def

lemma default_provider_ok: "provider_ok default_provider"
  by (simp add: provider_ok_def default_provider_def)

lemma restore_account_ok: "hm_ok st \<Longrightarrow> hm_ok (restore_account st e)"
  by (auto simp: restore_account_def hm_ok_update hm_ok_delete split: prod.split option.split)

lemma restore_accounts_ok: "hm_ok st \<Longrightarrow> hm_ok (foldl restore_account st j)"
  by (induction j arbitrary: st) (auto simp: restore_account_ok)

lemma provider_ok_set_account: "provider_ok p \<Longrightarrow> provider_ok (set_account a info p)"
  by (auto simp: provider_ok_def set_account_def Let_def hm_ok_update split: option.split)

lemma provider_ok_ops:
  "provider_ok p \<Longrightarrow> provider_ok (insert_transaction h tx num p)"
  "provider_ok p \<Longrightarrow> provider_ok (insert_receipt r p)"
  "provider_ok p \<Longrightarrow> provider_ok (set_storage a slot v p)"
  "provider_ok p \<Longrightarrow> provider_ok (commit_journal p)"
  "provider_ok p \<Longrightarrow> provider_ok (rollback_journal p)"
  "provider_ok p \<Longrightarrow> provider_ok (snd (begin_journal p))"
  by (auto simp: provider_ok_def provider_ops hm_ok_update rollback_journal_def begin_journal_def
      restore_accounts_ok split: option.split)

lemma provider_ok_insert_block: "keeps provider_ok (insert_block c b)"
  unfolding insert_block_def
  by (intro keeps_then_do keeps_pure keeps_for_each keeps_mutate)
     (auto simp: provider_ok_def insert_transaction_def hm_ok_update)

section \<open>Accounts: set, get, journal, rollback\<close>

lemma journal_set_account [simp]:
  "journal (set_account a info p) =
     map_option (\<lambda>j. if hm_contains j a then j else AList.update a (map_of (state p) a) j) (journal p)"
  by (simp add: set_account_def Let_def split: option.split)

lemma state_set_account [simp]: "state (set_account a info p) = AList.update a info (state p)"
  by (simp add: set_account_def Let_def split: option.split)

lemma set_account_frame [simp]:
  "blocks (set_account a info p) = blocks p" "blocks_by_hash (set_account a info p) = blocks_by_hash p"
  "tx_store (set_account a info p) = tx_store p" "receipts (set_account a info p) = receipts p"
  "storage (set_account a info p) = storage p"
  by (simp_all add: set_account_def Let_def split: option.split)

lemma get_account_set_account:
  "get_account (set_account a info p) b = (if b = a then Ok info else get_account p b)"
  by (simp add: get_account_def update_conv')

text \<open>Two providers hold the same accounts.\<close>

abbreviation accounts :: "in_memory_provider \<Rightarrow> address \<rightharpoonup> account" where
  "accounts p \<equiv> map_of (state p)"

text \<open>While a journal is open, it holds the original value of every account changed since.\<close>

definition journal_of :: "(address \<rightharpoonup> account) \<Rightarrow> in_memory_provider \<Rightarrow> bool" where
  "journal_of orig p \<longleftrightarrow>
     (case journal p of
        None \<Rightarrow> False
      | Some j \<Rightarrow>
          hm_ok j \<and> (\<forall>a. map_of j a = None \<longrightarrow> accounts p a = orig a) \<and>
          (\<forall>a r. map_of j a = Some r \<longrightarrow> r = orig a))"

lemma journal_of_begin: "journal p = None \<Longrightarrow> journal_of (accounts p) (p\<lparr>journal := Some []\<rparr>)"
  by (simp add: journal_of_def)

lemma journal_of_set_account: "journal_of orig p \<Longrightarrow> journal_of orig (set_account a info p)"
  by (auto simp: journal_of_def hm_contains_def update_conv' hm_ok_update split: option.splits if_splits)

lemma accounts_restore:
  "map_of (restore_account st (a, r)) b = (if b = a then r else map_of st b)"
  by (auto simp: restore_account_def update_conv' delete_conv' split: option.split)

lemma accounts_restore_all:
  "hm_ok j \<Longrightarrow> map_of (foldl restore_account st j) a = unwrap_or (map_of j a) (map_of st a)"
proof (induction j arbitrary: st)
  case (Cons e j)
  obtain b r where e: "e = (b, r)" by (cases e)
  with Cons have "map_of j b = None" by (simp add: map_of_eq_None_iff)
  with Cons e show ?case by (simp add: accounts_restore unwrap_or_def split: option.split)
qed (simp add: unwrap_or_def)

lemma accounts_rollback: "journal_of orig p \<Longrightarrow> accounts (rollback_journal p) = orig"
  by (fastforce simp: journal_of_def rollback_journal_def accounts_restore_all unwrap_or_def fun_eq_iff
      split: option.splits)

lemma rollback_frame [simp]:
  "journal (rollback_journal p) = None" "blocks (rollback_journal p) = blocks p"
  "blocks_by_hash (rollback_journal p) = blocks_by_hash p" "tx_store (rollback_journal p) = tx_store p"
  "receipts (rollback_journal p) = receipts p" "storage (rollback_journal p) = storage p"
  by (simp_all add: rollback_journal_def split: option.split)

lemma set_accounts_journal_of:
  "journal_of orig p \<Longrightarrow> journal_of orig (foldl (\<lambda>p (a, info). set_account a info p) p ws)"
  by (induction ws arbitrary: p) (auto simp: journal_of_set_account)

text \<open>
  The journal makes account writes undoable: after \<^verbatim>\<open>begin_journal\<close> on a provider with no open
  journal, any sequence of \<^verbatim>\<open>set_account\<close> calls followed by \<^verbatim>\<open>rollback_journal\<close> restores every
  account (including the absence of accounts that were created) and closes the journal, while a
  second \<^verbatim>\<open>begin_journal\<close> is refused and changes nothing.
\<close>

theorem journal_rollback_restores:
  assumes "begin_journal p = (Ok (), p')"
  shows "accounts (rollback_journal (foldl (\<lambda>p (a, info). set_account a info p) p' ws)) = accounts p \<and>
    journal (rollback_journal (foldl (\<lambda>p (a, info). set_account a info p) p' ws)) = None \<and>
    begin_journal p' = (Err JournalAlreadySet, p')"
proof -
  have "journal p = None" "p' = p\<lparr>journal := Some []\<rparr>"
    using assms by (auto simp: begin_journal_def split: if_splits)
  then show ?thesis
    using accounts_rollback [OF set_accounts_journal_of [OF journal_of_begin], of p ws]
    by (simp add: begin_journal_def)
qed

theorem journal_rollback_restores_witness:
  "accounts (rollback_journal (foldl (\<lambda>p (a, info). set_account a info p)
      (default_provider\<lparr>journal := Some []\<rparr>) [(zero_array, default_account)])) = accounts default_provider"
  using journal_rollback_restores [of default_provider "default_provider\<lparr>journal := Some []\<rparr>"]
  by (simp add: begin_journal_def default_provider_def del: foldl_Cons)

section \<open>Blocks: insertion and lookup\<close>

text \<open>
  Every hash in the index names a number at which a block is stored, and each stored block is
  indexed under its own hash and number. This is what the read interface needs.
\<close>

definition index_ok :: "crypto \<Rightarrow> in_memory_provider \<Rightarrow> bool" where
  "index_ok c p \<longleftrightarrow>
     (\<forall>num b. map_of (blocks p) num = Some b \<longrightarrow>
        number (block_header b) = num \<and>
        (\<exists>h. hash_header c (block_header b) = Ok h \<and> map_of (blocks_by_hash p) h = Some num))"

lemma tx_loop_frame:
  "for_each (\<lambda>_ tx. then_do (pure (map_err ExecSigning (signed_transaction_hash c tx)))
      (\<lambda>h. mutate (insert_transaction h tx num))) () txs p = (r, p') \<Longrightarrow>
     blocks p' = blocks p \<and> blocks_by_hash p' = blocks_by_hash p \<and> state p' = state p \<and>
     receipts p' = receipts p \<and> storage p' = storage p \<and> journal p' = journal p"
proof -
  let ?P = "\<lambda>q. blocks q = blocks p \<and> blocks_by_hash q = blocks_by_hash p \<and> state q = state p \<and>
     receipts q = receipts p \<and> storage q = storage p \<and> journal q = journal p"
  have "keeps ?P (for_each (\<lambda>_ tx. then_do (pure (map_err ExecSigning (signed_transaction_hash c tx)))
      (\<lambda>h. mutate (insert_transaction h tx num))) () txs)"
    by (intro keeps_for_each keeps_then_do keeps_pure keeps_mutate) (simp add: insert_transaction_def)
  from keepsD [OF this, of p] show "for_each (\<lambda>_ tx. then_do (pure (map_err ExecSigning (signed_transaction_hash c tx)))
      (\<lambda>h. mutate (insert_transaction h tx num))) () txs p = (r, p') \<Longrightarrow> ?P p'"
    by simp
qed

lemma insert_block_Ok:
  assumes "insert_block c b p = (Ok (), p')"
  obtains h where "hash_header c (block_header b) = Ok h"
    "blocks p' = AList.update (number (block_header b)) b (blocks p)"
    "blocks_by_hash p' = AList.update h (number (block_header b)) (blocks_by_hash p)"
    "state p' = state p" "receipts p' = receipts p" "storage p' = storage p" "journal p' = journal p"
  using assms
  by (auto simp: insert_block_def outcome_iffs hash_header_eq dest!: tx_loop_frame
      intro!: that [OF hash_header_eq])

lemma index_ok_default: "index_ok c default_provider"
  by (simp add: index_ok_def default_provider_def)

text \<open>Inserting keeps the index as long as the new header's hash is not that of another stored header.\<close>

lemma index_ok_insert_block:
  assumes "index_ok c p" and "insert_block c b p = (Ok (), p')"
    and "\<And>num b'. map_of (blocks p) num = Some b' \<Longrightarrow>
      hash_header c (block_header b') = hash_header c (block_header b) \<Longrightarrow> num = number (block_header b)"
  shows "index_ok c p'"
  using assms(2)
proof (rule insert_block_Ok)
  fix h
  assume h: "hash_header c (block_header b) = Ok h"
    and bl: "blocks p' = AList.update (number (block_header b)) b (blocks p)"
    and ix: "blocks_by_hash p' = AList.update h (number (block_header b)) (blocks_by_hash p)"
  show ?thesis
    unfolding index_ok_def bl ix
  proof (intro allI impI)
    fix num b'
    assume b': "map_of (AList.update (number (block_header b)) b (blocks p)) num = Some b'"
    show "number (block_header b') = num \<and> (\<exists>h'. hash_header c (block_header b') = Ok h' \<and>
        map_of (AList.update h (number (block_header b)) (blocks_by_hash p)) h' = Some num)"
    proof (cases "num = number (block_header b)")
      case True
      with b' h show ?thesis by (simp add: update_conv')
    next
      case False
      with b' have old: "map_of (blocks p) num = Some b'" by (simp add: update_conv')
      with assms(1) obtain h' where "number (block_header b') = num"
        "hash_header c (block_header b') = Ok h'" "map_of (blocks_by_hash p) h' = Some num"
        by (auto simp: index_ok_def)
      moreover from this have "h' \<noteq> h" using assms(3) [OF old] False h by auto
      ultimately show ?thesis by (simp add: update_conv')
    qed
  qed
qed

text \<open>What the other components rely on when they read the chain.\<close>

locale chain_reader =
  fixes c :: crypto
    and invar :: "'p \<Rightarrow> bool"
    and block_by_number :: "'p \<Rightarrow> block_number \<Rightarrow> (block, execution_error) outcome"
    and block_by_hash :: "'p \<Rightarrow> b256 \<Rightarrow> (block, execution_error) outcome"
    and header_by_number :: "'p \<Rightarrow> block_number \<Rightarrow> (header, execution_error) outcome"
    and header_by_hash :: "'p \<Rightarrow> b256 \<Rightarrow> (header, execution_error) outcome"
  assumes block_by_hash_number: "invar p \<Longrightarrow> block_by_hash p h = Ok b \<Longrightarrow>
      block_by_number p (number (block_header b)) = Ok b"
    and header_by_number_hash: "invar p \<Longrightarrow> header_by_number p num = Ok hdr \<Longrightarrow>
      hash_header c hdr = Ok h \<Longrightarrow> header_by_hash p h = Ok hdr"
    and not_Panic: "block_by_number p num \<noteq> Panic" "block_by_hash p h \<noteq> Panic"
      "header_by_number p num \<noteq> Panic" "header_by_hash p h \<noteq> Panic"

lemmas getter_defs = get_block_by_number_def get_block_by_hash_def get_header_by_number_def
  get_header_by_hash_def get_account_def get_storage_def get_transaction_def
  get_block_transactions_def get_receipt_def

interpretation memory_reader: chain_reader c "index_ok c" get_block_by_number get_block_by_hash
    get_header_by_number get_header_by_hash for c
  by unfold_locales
     (fastforce simp: getter_defs index_ok_def outcome_iffs)+

text \<open>
  Looking up what was inserted: after a successful \<^verbatim>\<open>insert_block\<close> the block is found under its
  number and under its hash, its header likewise, and no account, receipt or storage slot has
  changed.
\<close>

theorem insert_block_lookup:
  assumes "insert_block c b p = (Ok (), p')"
  shows "\<exists>h. hash_header c (block_header b) = Ok h \<and>
    get_block_by_number p' (number (block_header b)) = Ok b \<and> get_block_by_hash p' h = Ok b \<and>
    get_header_by_number p' (number (block_header b)) = Ok (block_header b) \<and>
    get_header_by_hash p' h = Ok (block_header b) \<and>
    get_block_transactions p' (number (block_header b)) = Ok (transactions b) \<and>
    state p' = state p \<and> receipts p' = receipts p \<and> storage p' = storage p"
  using assms by (rule insert_block_Ok) (auto simp: getter_defs update_conv')

theorem insert_block_lookup_witness:
  "\<exists>p' h. insert_block sample_crypto \<lparr>block_header = genesis_header \<lparr>gc_chain_id = 1, gc_accounts = [],
       genesis_timestamp = 0\<rparr>, transactions = []\<rparr> default_provider = (Ok (), p') \<and>
     get_block_by_hash p' h = Ok \<lparr>block_header = genesis_header \<lparr>gc_chain_id = 1, gc_accounts = [],
       genesis_timestamp = 0\<rparr>, transactions = []\<rparr>"
proof -
  have "\<exists>p'. insert_block sample_crypto \<lparr>block_header = genesis_header \<lparr>gc_chain_id = 1,
      gc_accounts = [], genesis_timestamp = 0\<rparr>, transactions = []\<rparr> default_provider = (Ok (), p')"
    by (simp add: insert_block_def hash_header_eq then_do_def)
  then show ?thesis using insert_block_lookup by blast
qed

end
