(* ===== verification/Cached_Provider.thy ===== *)
theory Cached_Provider
  imports Provider
begin

text \<open>
  The crate \<^verbatim>\<open>core/execution\<close>, file \<^verbatim>\<open>cached.rs\<close>: a read-through cache over any provider. The
  generic parameter \<^verbatim>\<open>T\<close> with its trait bounds is a record of the functions the cache calls. The
  \<^verbatim>\<open>RefCell\<close>s are explicit state. The entry that \<^verbatim>\<open>cache.keys().next()\<close> picks for eviction is the
  first of the association list, whatever that order is.
\<close>

section \<open>The cache\<close>

record 'p provider_ops =
  op_block_by_number :: "'p \<Rightarrow> block_number \<Rightarrow> (block, execution_error) outcome"
  op_block_by_hash :: "'p \<Rightarrow> b256 \<Rightarrow> (block, execution_error) outcome"
  op_header_by_number :: "'p \<Rightarrow> block_number \<Rightarrow> (header, execution_error) outcome"
  op_header_by_hash :: "'p \<Rightarrow> b256 \<Rightarrow> (header, execution_error) outcome"
  op_account :: "'p \<Rightarrow> address \<Rightarrow> (account, execution_error) outcome"
  op_storage :: "'p \<Rightarrow> address \<Rightarrow> b256 \<Rightarrow> (b256, execution_error) outcome"
  op_transaction :: "'p \<Rightarrow> b256 \<Rightarrow> (signed_transaction, execution_error) outcome"
  op_block_transactions :: "'p \<Rightarrow> block_number \<Rightarrow> (signed_transaction list, execution_error) outcome"
  op_receipt :: "'p \<Rightarrow> b256 \<Rightarrow> (receipt, execution_error) outcome"

definition memory_ops :: "in_memory_provider provider_ops" where
  "memory_ops =
     \<lparr>op_block_by_number = get_block_by_number, op_block_by_hash = get_block_by_hash,
      op_header_by_number = get_header_by_number, op_header_by_hash = get_header_by_hash,
      op_account = get_account, op_storage = get_storage, op_transaction = get_transaction,
      op_block_transactions = get_block_transactions, op_receipt = get_receipt\<rparr>"

record 'p cached_provider =
  inner :: 'p
  block_cache :: "(block_number, block) hash_map"
  header_cache :: "(b256, header) hash_map"
  account_cache :: "(address, account) hash_map"
  capacity :: usize

definition cached_new :: "'p \<Rightarrow> usize \<Rightarrow> 'p cached_provider" where
  "cached_new inn cap =
     \<lparr>inner = inn, block_cache = [], header_cache = [], account_cache = [], capacity = cap\<rparr>"

definition evict :: "usize \<Rightarrow> ('k, 'v) hash_map \<Rightarrow> ('k, 'v) hash_map" where
  "evict cap cache =
     (if length cache \<ge> cap then
        (case cache of (key, _) # _ \<Rightarrow> AList.delete key cache | [] \<Rightarrow> cache)
      else cache)"

definition cache_insert :: "usize \<Rightarrow> 'k \<Rightarrow> 'v \<Rightarrow> ('k, 'v) hash_map \<Rightarrow> ('k, 'v) hash_map" where
  "cache_insert cap key v cache = AList.update key v (evict cap cache)"

definition cached_block_by_hash ::
  "'p provider_ops \<Rightarrow> b256 \<Rightarrow> (block, execution_error, 'p cached_provider) action" where
  "cached_block_by_hash ops hash =
     then_do (reading (\<lambda>cp. op_block_by_hash ops (inner cp) hash)) (\<lambda>b.
     then_do (reading (\<lambda>cp. Ok (map_of (block_cache cp) (number (block_header b))))) (\<lambda>hit.
     case hit of
       Some v \<Rightarrow> pure (Ok v)
     | None \<Rightarrow>
         then_do (mutate (\<lambda>cp. cp\<lparr>block_cache :=
            cache_insert (capacity cp) (number (block_header b)) b (block_cache cp)\<rparr>)) (\<lambda>_.
         pure (Ok b))))"

definition cached_block_by_number ::
  "'p provider_ops \<Rightarrow> block_number \<Rightarrow> (block, execution_error, 'p cached_provider) action" where
  "cached_block_by_number ops num =
     then_do (reading (\<lambda>cp. Ok (map_of (block_cache cp) num))) (\<lambda>hit.
     case hit of
       Some v \<Rightarrow> pure (Ok v)
     | None \<Rightarrow>
         then_do (reading (\<lambda>cp. op_block_by_number ops (inner cp) num)) (\<lambda>b.
         then_do (mutate (\<lambda>cp. cp\<lparr>block_cache := cache_insert (capacity cp) num b (block_cache cp)\<rparr>)) (\<lambda>_.
         pure (Ok b))))"

definition cached_header_by_hash ::
  "'p provider_ops \<Rightarrow> b256 \<Rightarrow> (header, execution_error, 'p cached_provider) action" where
  "cached_header_by_hash ops hash =
     then_do (reading (\<lambda>cp. Ok (map_of (header_cache cp) hash))) (\<lambda>hit.
     case hit of
       Some v \<Rightarrow> pure (Ok v)
     | None \<Rightarrow>
         then_do (reading (\<lambda>cp. op_header_by_hash ops (inner cp) hash)) (\<lambda>hdr.
         then_do (mutate (\<lambda>cp. cp\<lparr>header_cache := cache_insert (capacity cp) hash hdr (header_cache cp)\<rparr>)) (\<lambda>_.
         pure (Ok hdr))))"

definition cached_header_by_number ::
  "crypto \<Rightarrow> 'p provider_ops \<Rightarrow> block_number \<Rightarrow> (header, execution_error, 'p cached_provider) action" where
  "cached_header_by_number c ops num =
     then_do (reading (\<lambda>cp. op_header_by_number ops (inner cp) num)) (\<lambda>hdr.
     then_do (pure (map_err ExecRlp (hash_header c hdr))) (\<lambda>hash.
     then_do (reading (\<lambda>cp. Ok (map_of (header_cache cp) hash))) (\<lambda>hit.
     case hit of
       Some v \<Rightarrow> pure (Ok v)
     | None \<Rightarrow>
         then_do (mutate (\<lambda>cp. cp\<lparr>header_cache := cache_insert (capacity cp) hash hdr (header_cache cp)\<rparr>)) (\<lambda>_.
         pure (Ok hdr)))))"

definition cached_account ::
  "'p provider_ops \<Rightarrow> address \<Rightarrow> (account, execution_error, 'p cached_provider) action" where
  "cached_account ops a =
     then_do (reading (\<lambda>cp. Ok (map_of (account_cache cp) a))) (\<lambda>hit.
     case hit of
       Some v \<Rightarrow> pure (Ok v)
     | None \<Rightarrow>
         then_do (reading (\<lambda>cp. op_account ops (inner cp) a)) (\<lambda>info.
         then_do (mutate (\<lambda>cp. cp\<lparr>account_cache := cache_insert (capacity cp) a info (account_cache cp)\<rparr>)) (\<lambda>_.
         pure (Ok info))))"

definition cached_storage ::
  "'p provider_ops \<Rightarrow> address \<Rightarrow> b256 \<Rightarrow> (b256, execution_error, 'p cached_provider) action" where
  "cached_storage ops a slot = reading (\<lambda>cp. op_storage ops (inner cp) a slot)"

definition cached_block_transactions ::
  "'p provider_ops \<Rightarrow> block_number \<Rightarrow> (signed_transaction list, execution_error, 'p cached_provider) action" where
  "cached_block_transactions ops num = reading (\<lambda>cp. op_block_transactions ops (inner cp) num)"

definition cached_transaction ::
  "'p provider_ops \<Rightarrow> b256 \<Rightarrow> (signed_transaction, execution_error, 'p cached_provider) action" where
  "cached_transaction ops hash = reading (\<lambda>cp. op_transaction ops (inner cp) hash)"

definition cached_receipt ::
  "'p provider_ops \<Rightarrow> b256 \<Rightarrow> (receipt, execution_error, 'p cached_provider) action" where
  "cached_receipt ops hash = reading (\<lambda>cp. op_receipt ops (inner cp) hash)"

text \<open>A provider that holds a block and an account.\<close>

definition stored_block :: block where
  "stored_block = \<lparr>block_header = genesis_header \<lparr>gc_chain_id = 1, gc_accounts = [], genesis_timestamp = 0\<rparr>,
     transactions = []\<rparr>"

definition stored_hash :: b256 where
  "stored_hash = keccak256 sample_crypto (rlp_bytes (header_to_rlp_item (block_header stored_block)))"

definition sample_store :: in_memory_provider where
  "sample_store = default_provider\<lparr>blocks := [(0, stored_block)], blocks_by_hash := [(stored_hash, 0)],
     state := [(zero_array, default_account)]\<rparr>"

section \<open>Coherence\<close>

text \<open>Every cached entry is what the wrapped provider answers, and no cache outgrows its capacity.\<close>

definition coherent :: "('k, 'v) hash_map \<Rightarrow> ('k \<Rightarrow> ('v, 'e) outcome) \<Rightarrow> bool" where
  "coherent cache f \<longleftrightarrow> hm_ok cache \<and> (\<forall>k v. map_of cache k = Some v \<longrightarrow> f k = Ok v)"

definition within :: "usize \<Rightarrow> ('k, 'v) hash_map \<Rightarrow> bool" where
  "within cap cache \<longleftrightarrow> length cache \<le> max 1 cap"

definition cache_ok :: "'p provider_ops \<Rightarrow> 'p cached_provider \<Rightarrow> bool" where
  "cache_ok ops cp \<longleftrightarrow>
     coherent (block_cache cp) (op_block_by_number ops (inner cp)) \<and>
     coherent (header_cache cp) (op_header_by_hash ops (inner cp)) \<and>
     coherent (account_cache cp) (op_account ops (inner cp)) \<and>
     within (capacity cp) (block_cache cp) \<and> within (capacity cp) (header_cache cp) \<and>
     within (capacity cp) (account_cache cp)"

lemma coherent_evict: "coherent cache f \<Longrightarrow> coherent (evict cap cache) f"
  by (auto simp: coherent_def evict_def hm_ok_delete delete_conv' split: list.split if_splits)

lemma coherent_insert: "coherent cache f \<Longrightarrow> f k = Ok v \<Longrightarrow> coherent (cache_insert cap k v cache) f"
  using coherent_evict [of cache f cap]
  by (auto simp: coherent_def cache_insert_def hm_ok_update update_conv' split: if_splits)

lemma length_update_le: "length (AList.update k v m) \<le> Suc (length m)"
  by (induction m) auto

lemma length_evict: "length cache \<le> max 1 cap \<Longrightarrow> length (evict cap cache) < max 1 cap"
proof (cases cache)
  case (Cons kv rest)
  then have "length (AList.delete (fst kv) cache) < length cache"
    by (intro length_hm_delete) simp
  moreover assume "length cache \<le> max 1 cap"
  ultimately show ?thesis using Cons by (auto simp: evict_def split: prod.split)
qed (simp add: evict_def)

lemma within_cache_insert: "within cap cache \<Longrightarrow> within cap (cache_insert cap k v cache)"
  using length_evict [of cache cap] length_update_le [of k v "evict cap cache"]
  by (simp add: cache_insert_def within_def)

text \<open>A getter is transparent: same answer as the wrapped provider, and the cache stays good.\<close>

definition transparent :: "'p provider_ops \<Rightarrow> ('a, execution_error, 'p cached_provider) action \<Rightarrow>
    ('p \<Rightarrow> ('a, execution_error) outcome) \<Rightarrow> 'p cached_provider \<Rightarrow> bool" where
  "transparent ops m f cp \<longleftrightarrow>
     fst (m cp) = f (inner cp) \<and> cache_ok ops (snd (m cp)) \<and>
     inner (snd (m cp)) = inner cp \<and> capacity (snd (m cp)) = capacity cp"

lemmas cached_defs = cached_block_by_number_def cached_header_by_hash_def cached_account_def
  cached_block_by_hash_def cached_header_by_number_def cached_storage_def cached_transaction_def
  cached_block_transactions_def cached_receipt_def

lemma cache_ok_inserts:
  "cache_ok ops cp \<Longrightarrow> op_block_by_number ops (inner cp) num = Ok b \<Longrightarrow>
     cache_ok ops (cp\<lparr>block_cache := cache_insert (capacity cp) num b (block_cache cp)\<rparr>)"
  "cache_ok ops cp \<Longrightarrow> op_header_by_hash ops (inner cp) h = Ok hdr \<Longrightarrow>
     cache_ok ops (cp\<lparr>header_cache := cache_insert (capacity cp) h hdr (header_cache cp)\<rparr>)"
  "cache_ok ops cp \<Longrightarrow> op_account ops (inner cp) a = Ok acc \<Longrightarrow>
     cache_ok ops (cp\<lparr>account_cache := cache_insert (capacity cp) a acc (account_cache cp)\<rparr>)"
  by (simp_all add: cache_ok_def coherent_insert within_cache_insert)

lemma cache_hits:
  "cache_ok ops cp \<Longrightarrow> map_of (block_cache cp) num = Some b \<Longrightarrow> op_block_by_number ops (inner cp) num = Ok b"
  "cache_ok ops cp \<Longrightarrow> map_of (header_cache cp) h = Some hdr \<Longrightarrow> op_header_by_hash ops (inner cp) h = Ok hdr"
  "cache_ok ops cp \<Longrightarrow> map_of (account_cache cp) a = Some acc \<Longrightarrow> op_account ops (inner cp) a = Ok acc"
  by (simp_all add: cache_ok_def coherent_def)

lemma transparent_direct:
  assumes "cache_ok ops cp"
  shows "transparent ops (cached_block_by_number ops num) (\<lambda>p. op_block_by_number ops p num) cp"
    and "transparent ops (cached_header_by_hash ops h) (\<lambda>p. op_header_by_hash ops p h) cp"
    and "transparent ops (cached_account ops a) (\<lambda>p. op_account ops p a) cp"
    and "transparent ops (cached_storage ops a slot) (\<lambda>p. op_storage ops p a slot) cp"
    and "transparent ops (cached_transaction ops h) (\<lambda>p. op_transaction ops p h) cp"
    and "transparent ops (cached_block_transactions ops num) (\<lambda>p. op_block_transactions ops p num) cp"
    and "transparent ops (cached_receipt ops h) (\<lambda>p. op_receipt ops p h) cp"
  using assms cache_hits [OF assms] cache_ok_inserts [OF assms]
  by (auto simp: transparent_def cached_defs then_do_def split: option.split outcome.split)

text \<open>
  The two getters that read by one key and cache under another are transparent over every
  provider that meets the contract of \<open>chain_reader\<close>.
\<close>

context chain_reader
begin

lemma transparent_block_by_hash:
  assumes "cache_ok ops cp" "invar (inner cp)"
    and "op_block_by_number ops = block_by_number" "op_block_by_hash ops = block_by_hash"
  shows "transparent ops (cached_block_by_hash ops h) (\<lambda>p. op_block_by_hash ops p h) cp"
proof (cases "op_block_by_hash ops (inner cp) h")
  case (Ok b)
  then have "op_block_by_number ops (inner cp) (number (block_header b)) = Ok b"
    using block_by_hash_number [OF assms(2)] assms(3,4) by simp
  with Ok assms(1) cache_ok_inserts(1) [OF assms(1)] show ?thesis
    by (auto simp: transparent_def cached_defs then_do_def dest!: cache_hits(1) [OF assms(1)]
        split: option.split)
qed (use assms(1) in \<open>simp_all add: transparent_def cached_defs then_do_def\<close>)

lemma transparent_header_by_number:
  assumes "cache_ok ops cp" "invar (inner cp)"
    and "op_header_by_number ops = header_by_number" "op_header_by_hash ops = header_by_hash"
  shows "transparent ops (cached_header_by_number c ops num) (\<lambda>p. op_header_by_number ops p num) cp"
proof (cases "op_header_by_number ops (inner cp) num")
  case (Ok hdr)
  obtain h where h: "hash_header c hdr = Ok h" by (simp add: hash_header_eq)
  with Ok have "op_header_by_hash ops (inner cp) h = Ok hdr"
    using header_by_number_hash [OF assms(2)] assms(3,4) by simp
  with Ok h assms(1) cache_ok_inserts(2) [OF assms(1)] show ?thesis
    by (auto simp: transparent_def cached_defs then_do_def dest!: cache_hits(2) [OF assms(1)]
        split: option.split)
qed (use assms(1) in \<open>simp_all add: transparent_def cached_defs then_do_def\<close>)

end

section \<open>Any sequence of reads\<close>

datatype query =
    BlockByNumber block_number | BlockByHash b256 | HeaderByNumber block_number | HeaderByHash b256
  | AccountAt address | StorageAt address b256 | TransactionByHash b256
  | BlockTransactions block_number | ReceiptOf b256

datatype reply =
    RBlock "(block, execution_error) outcome" | RHeader "(header, execution_error) outcome"
  | RAccount "(account, execution_error) outcome" | RStorage "(b256, execution_error) outcome"
  | RTransaction "(signed_transaction, execution_error) outcome"
  | RTransactions "(signed_transaction list, execution_error) outcome"
  | RReceipt "(receipt, execution_error) outcome"

fun ask :: "'p provider_ops \<Rightarrow> 'p \<Rightarrow> query \<Rightarrow> reply" where
  "ask ops p (BlockByNumber n) = RBlock (op_block_by_number ops p n)"
| "ask ops p (BlockByHash h) = RBlock (op_block_by_hash ops p h)"
| "ask ops p (HeaderByNumber n) = RHeader (op_header_by_number ops p n)"
| "ask ops p (HeaderByHash h) = RHeader (op_header_by_hash ops p h)"
| "ask ops p (AccountAt a) = RAccount (op_account ops p a)"
| "ask ops p (StorageAt a slot) = RStorage (op_storage ops p a slot)"
| "ask ops p (TransactionByHash h) = RTransaction (op_transaction ops p h)"
| "ask ops p (BlockTransactions n) = RTransactions (op_block_transactions ops p n)"
| "ask ops p (ReceiptOf h) = RReceipt (op_receipt ops p h)"

fun ask_cached :: "crypto \<Rightarrow> 'p provider_ops \<Rightarrow> query \<Rightarrow> 'p cached_provider \<Rightarrow> reply \<times> 'p cached_provider" where
  "ask_cached c ops (BlockByNumber n) cp = apfst RBlock (cached_block_by_number ops n cp)"
| "ask_cached c ops (BlockByHash h) cp = apfst RBlock (cached_block_by_hash ops h cp)"
| "ask_cached c ops (HeaderByNumber n) cp = apfst RHeader (cached_header_by_number c ops n cp)"
| "ask_cached c ops (HeaderByHash h) cp = apfst RHeader (cached_header_by_hash ops h cp)"
| "ask_cached c ops (AccountAt a) cp = apfst RAccount (cached_account ops a cp)"
| "ask_cached c ops (StorageAt a slot) cp = apfst RStorage (cached_storage ops a slot cp)"
| "ask_cached c ops (TransactionByHash h) cp = apfst RTransaction (cached_transaction ops h cp)"
| "ask_cached c ops (BlockTransactions n) cp = apfst RTransactions (cached_block_transactions ops n cp)"
| "ask_cached c ops (ReceiptOf h) cp = apfst RReceipt (cached_receipt ops h cp)"

fun ask_all :: "crypto \<Rightarrow> 'p provider_ops \<Rightarrow> query list \<Rightarrow> 'p cached_provider \<Rightarrow> reply list \<times> 'p cached_provider" where
  "ask_all c ops [] cp = ([], cp)"
| "ask_all c ops (q # qs) cp =
     (let (r, cp') = ask_cached c ops q cp; (rs, cp'') = ask_all c ops qs cp' in (r # rs, cp''))"

lemma transparentD:
  "transparent ops m f cp \<Longrightarrow> apfst R (m cp) = (r, cp') \<Longrightarrow>
     r = R (f (inner cp)) \<and> cache_ok ops cp' \<and> inner cp' = inner cp \<and> capacity cp' = capacity cp"
  by (cases "m cp") (auto simp: transparent_def)

lemma ask_cached_memory:
  assumes "cache_ok memory_ops cp" "index_ok c (inner cp)" "ask_cached c memory_ops q cp = (r, cp')"
  shows "r = ask memory_ops (inner cp) q \<and> cache_ok memory_ops cp' \<and> inner cp' = inner cp \<and>
    capacity cp' = capacity cp"
proof -
  note direct = transparent_direct [OF assms(1)]
  have b: "transparent memory_ops (cached_block_by_hash memory_ops h) (\<lambda>p. op_block_by_hash memory_ops p h) cp" for h
    by (rule memory_reader.transparent_block_by_hash [OF assms(1,2)]) (simp_all add: memory_ops_def)
  have n: "transparent memory_ops (cached_header_by_number c memory_ops k) (\<lambda>p. op_header_by_number memory_ops p k) cp" for k
    by (rule memory_reader.transparent_header_by_number [OF assms(1,2)]) (simp_all add: memory_ops_def)
  show ?thesis
    using assms(3) by (cases q) (auto dest!: transparentD [OF direct(1)] transparentD [OF direct(2)]
      transparentD [OF direct(3)] transparentD [OF direct(4)] transparentD [OF direct(5)]
      transparentD [OF direct(6)] transparentD [OF direct(7)] transparentD [OF b] transparentD [OF n])
qed

lemma ask_all_memory:
  "cache_ok memory_ops cp \<Longrightarrow> index_ok c (inner cp) \<Longrightarrow> ask_all c memory_ops qs cp = (rs, cp') \<Longrightarrow>
     rs = map (ask memory_ops (inner cp)) qs \<and> cache_ok memory_ops cp' \<and> inner cp' = inner cp \<and>
     capacity cp' = capacity cp"
proof (induction qs arbitrary: cp rs)
  case (Cons q qs)
  obtain r cp1 rs1 where q: "ask_cached c memory_ops q cp = (r, cp1)" "ask_all c memory_ops qs cp1 = (rs1, cp')"
    "rs = r # rs1"
    using Cons.prems(3) by (auto simp: Let_def split: prod.splits)
  from ask_cached_memory [OF Cons.prems(1,2) q(1)] Cons.IH [OF _ _ q(2)] Cons.prems(2) q(3)
  show ?case by simp
qed simp

lemma cached_new_ok: "cache_ok ops (cached_new p cap)"
  by (simp add: cache_ok_def cached_new_def coherent_def within_def)

lemma sample_store_index: "index_ok sample_crypto sample_store"
  by (simp add: index_ok_def sample_store_def stored_hash_def stored_block_def genesis_header_def hash_header_eq)

text \<open>
  C23. The cache is invisible: over an in-memory provider with a consistent index, every sequence of
  reads through a fresh \<^verbatim>\<open>CachedProvider\<close> returns exactly what the provider itself answers,
  errors included, whatever is evicted; and no cache ever holds more than \<^verbatim>\<open>capacity\<close> entries
  (one, when the capacity is zero).
\<close>

theorem cached_provider_transparent:
  assumes "index_ok c p"
  shows "\<exists>cp. ask_all c memory_ops qs (cached_new p cap) = (map (ask memory_ops p) qs, cp) \<and>
    length (block_cache cp) \<le> max 1 cap \<and> length (header_cache cp) \<le> max 1 cap \<and>
    length (account_cache cp) \<le> max 1 cap"
proof -
  obtain rs cp where run: "ask_all c memory_ops qs (cached_new p cap) = (rs, cp)" by fastforce
  from ask_all_memory [OF cached_new_ok _ run] assms
  have "rs = map (ask memory_ops p) qs \<and> cache_ok memory_ops cp \<and> capacity cp = cap"
    by (simp add: cached_new_def)
  with run show ?thesis by (auto simp: cache_ok_def within_def)
qed

theorem cached_provider_transparent_witness:
  "\<exists>cp. ask_all sample_crypto memory_ops
       [BlockByNumber 0, HeaderByHash stored_hash, BlockByHash stored_hash, AccountAt zero_array, AccountAt zero_array,
        HeaderByNumber 3] (cached_new sample_store 1) =
     ([RBlock (Ok stored_block), RHeader (Ok (block_header stored_block)), RBlock (Ok stored_block),
       RAccount (Ok default_account), RAccount (Ok default_account), RHeader (Err (BlockNotFound 3))], cp) \<and>
     length (block_cache cp) \<le> 1 \<and> map_of (block_cache cp) 0 = Some stored_block \<and>
     map_of (account_cache cp) zero_array = Some default_account"
proof -
  let ?qs = "[BlockByNumber 0, HeaderByHash stored_hash, BlockByHash stored_hash, AccountAt zero_array, AccountAt zero_array,
        HeaderByNumber 3]"
  obtain cp where run: "ask_all sample_crypto memory_ops ?qs (cached_new sample_store 1) =
      (map (ask memory_ops sample_store) ?qs, cp)" "length (block_cache cp) \<le> max 1 1"
    using cached_provider_transparent [OF sample_store_index, of ?qs 1] by blast
  moreover have "map_of (block_cache cp) 0 = Some stored_block" "map_of (account_cache cp) zero_array = Some default_account"
    using run(1) by (auto simp: cached_new_def cached_defs then_do_def memory_ops_def getter_defs sample_store_def
        cache_insert_def evict_def stored_block_def genesis_header_def)
  ultimately show ?thesis
    by (simp add: memory_ops_def getter_defs sample_store_def)
qed

end
