(* ===== verification/State_Root.thy ===== *)
theory State_Root
  imports Provider
begin

text \<open>
  The crate \<^verbatim>\<open>core/execution\<close>, file \<^verbatim>\<open>executor.rs\<close>, first part: the state root. The loop runs over a
  hash map in an unspecified order; the root is shown to depend on the accounts only, to exist
  for every provider, and to commit to the accounts.
\<close>

definition account_rlp :: "account \<Rightarrow> rlp_item" where
  "account_rlp info =
     List [u64_to_rlp_item (acc_nonce info), u128_to_rlp_item (acc_balance info),
           b256_to_rlp_item zero_array, b256_to_rlp_item (acc_code_hash info)]"

definition build_state_trie :: "in_memory_provider \<Rightarrow> (merkle_trie, trie_error) outcome" where
  "build_state_trie p =
     try_fold (\<lambda>state_trie (a, info).
        and_then (map_err EncodeError (encode (account_rlp info))) (\<lambda>bytes.
        trie_insert state_trie (as_bytes a) bytes)) trie_new (state p)"

definition compute_state_root :: "crypto \<Rightarrow> in_memory_provider \<Rightarrow> (b256, trie_error) outcome" where
  "compute_state_root c p = and_then (build_state_trie p) (root_hash c)"

section \<open>The account encoding\<close>

lemma account_rlp_len: "encoded_len (account_rlp a) \<le> 158"
proof -
  have "sum_list (map encoded_len [u64_to_rlp_item (acc_nonce a), u128_to_rlp_item (acc_balance a),
      b256_to_rlp_item zero_array, b256_to_rlp_item (acc_code_hash a)]) \<le> 156"
    using u64_len [of "acc_nonce a"] u128_len [of "acc_balance a"] b256_len [of zero_array]
      b256_len [of "acc_code_hash a"] by simp
  from encoded_len_List_le [OF this] show ?thesis
    by (simp add: account_rlp_def length_prefix_len_156)
qed

lemma account_rlp_len64: "encoded_len (account_rlp a) < 2 ^ 64"
  using account_rlp_len [of a] by (rule le_less_trans) simp

lemma account_rlp_bytes_inject: "rlp_bytes (account_rlp a) = rlp_bytes (account_rlp b) \<longleftrightarrow> a = b"
proof
  assume "rlp_bytes (account_rlp a) = rlp_bytes (account_rlp b)"
  then have "account_rlp a = account_rlp b" using rlp_bytes_inj account_rlp_len64 by blast
  then show "a = b"
    by (simp add: account_rlp_def u64_rlp.to_rlp_item_inject u128_rlp.to_rlp_item_inject
        b256_rlp.to_rlp_item_inject)
qed simp

section \<open>The state trie\<close>

definition state_entries :: "in_memory_provider \<Rightarrow> (bytes \<times> bytes) list" where
  "state_entries p = map (\<lambda>(a, info). (as_bytes a, rlp_bytes (account_rlp info))) (state p)"

lemma build_state_trie_eq:
  "build_state_trie p = try_fold (\<lambda>t (key, v). trie_insert t key v) trie_new (state_entries p)"
proof -
  have "try_fold (\<lambda>state_trie (a, info).
      and_then (map_err EncodeError (encode (account_rlp info))) (\<lambda>bytes.
      trie_insert state_trie (as_bytes a) bytes)) t st =
    try_fold (\<lambda>t (key, v). trie_insert t key v) t
      (map (\<lambda>(a, info). (as_bytes a, rlp_bytes (account_rlp info))) st)" for t st
  proof (induction st arbitrary: t)
    case (Cons e st)
    then show ?case
      by (cases e) (simp add: encode_eq [OF account_rlp_len64] del: encode.simps rlp_bytes.simps)
  qed simp
  then show ?thesis by (simp add: build_state_trie_def state_entries_def)
qed

lemma state_keys_ok: "list_all (\<lambda>kv. key_ok 20 (fst kv)) (state_entries p)"
proof -
  have "as_bytes a \<noteq> []" for a :: address
    using length_as_bytes [of a] by (auto simp del: length_as_bytes)
  then show ?thesis by (auto simp: state_entries_def list_all_iff key_ok_def)
qed

lemma map_of_rev_distinct: "distinct (map fst kvs) \<Longrightarrow> map_of (rev kvs) = map_of kvs"
proof (rule ext)
  fix k
  assume "distinct (map fst kvs)"
  then have "map_of (rev kvs) k = Some v \<longleftrightarrow> map_of kvs k = Some v" for v
    by (simp add: map_of_eq_Some_iff rev_map [symmetric])
  then show "map_of (rev kvs) k = map_of kvs k" by (metis option.exhaust)
qed

lemma map_of_state_entries:
  "map_of (state_entries p) (as_bytes a) = map_option (\<lambda>info. rlp_bytes (account_rlp info)) (accounts p a)"
proof -
  have "map_of (map (\<lambda>(a, info). (as_bytes a, rlp_bytes (account_rlp info))) st) (as_bytes a) =
      map_option (\<lambda>info. rlp_bytes (account_rlp info)) (map_of st a)" for st
    by (induction st) (auto simp: as_bytes_eq_iff)
  then show ?thesis by (simp add: state_entries_def)
qed

lemma map_of_state_entries_other:
  "length key \<noteq> 20 \<Longrightarrow> map_of (state_entries p) key = None"
  by (auto simp: state_entries_def map_of_eq_None_iff)

lemma state_entries_map:
  assumes "accounts p = accounts q"
  shows "map_of (state_entries p) = map_of (state_entries q)"
proof (rule ext)
  fix key
  show "map_of (state_entries p) key = map_of (state_entries q) key"
  proof (cases "length key = 20")
    case True
    then have "key = as_bytes (byte_array key :: address)" by simp
    then show ?thesis using assms map_of_state_entries by metis
  qed (simp add: map_of_state_entries_other)
qed

lemma distinct_state_entries: "provider_ok p \<Longrightarrow> distinct (map fst (state_entries p))"
proof -
  assume "provider_ok p"
  then have "distinct (map fst (state p))" by (simp add: provider_ok_def)
  moreover have "inj_on as_bytes (set (map fst (state p)))" by (simp add: inj_on_def as_bytes_eq_iff)
  ultimately have "distinct (map as_bytes (map fst (state p)))"
    using distinct_map [of as_bytes "map fst (state p)"] by blast
  moreover have "map fst (state_entries p) = map as_bytes (map fst (state p))"
    by (simp add: state_entries_def comp_def case_prod_unfold)
  ultimately show ?thesis by simp
qed

lemma state_trie:
  assumes "provider_ok p"
  obtains t where "build_state_trie p = Ok t" "trie_ok 20 t" "trie_contents t = map_of (state_entries p)"
    "trie_fits t"
proof -
  obtain t where t: "build_state_trie p = Ok t" "trie_ok 20 t"
    "trie_contents t = map_of (state_entries p)"
    using key_trie.insert_all [OF key_trie.new_invar state_keys_ok, of p]
    by (auto simp: build_state_trie_eq key_trie.new_contents
        map_of_rev_distinct [OF distinct_state_entries [OF assms]])
  have "length v < 2 ^ 32" if "v \<in> ran (trie_contents t)" for v
  proof -
    from that obtain info where "v = rlp_bytes (account_rlp info)"
      by (auto simp: t(3) ran_def state_entries_def dest!: map_of_SomeD)
    then show ?thesis using account_rlp_len [of info] by (simp add: length_rlp_bytes del: rlp_bytes.simps)
  qed
  then have "trie_fits t" by (intro trie_fits_contents [OF t(2)]) simp_all
  with t that show thesis by blast
qed

lemma state_root_ex:
  assumes "provider_ok q"
  shows "\<exists>root. compute_state_root c q = Ok root"
  using assms by (rule state_trie) (simp add: compute_state_root_def root_hash_eq)

section \<open>Properties\<close>

text \<open>
  The state root is a function of the accounts: for every well-formed provider
  \<^verbatim>\<open>compute_state_root\<close> returns a root (it never fails or panics), and two providers with the
  same accounts have the same root, whatever the iteration order of their hash maps.
\<close>

theorem state_root_deterministic:
  assumes "provider_ok p" and "provider_ok q" and "accounts p = accounts q"
  shows "\<exists>h. compute_state_root c p = Ok h \<and> compute_state_root c q = Ok h"
proof -
  from assms(1) obtain s where s: "build_state_trie p = Ok s" "trie_ok 20 s"
    "trie_contents s = map_of (state_entries p)" "trie_fits s" by (rule state_trie)
  from assms(2) obtain t where t: "build_state_trie q = Ok t" "trie_ok 20 t"
    "trie_contents t = map_of (state_entries q)" "trie_fits t" by (rule state_trie)
  have "s = t" using key_trie.unique [OF s(2) t(2)] s(3) t(3) state_entries_map [OF assms(3)] by simp
  then show ?thesis using s t root_hash_eq [OF s(4)] by (simp add: compute_state_root_def)
qed

theorem state_root_deterministic_witness:
  "\<exists>h. compute_state_root sample_crypto (default_provider\<lparr>state :=
        [(zero_array, default_account), (byte_array [1], default_account)]\<rparr>) = Ok h \<and>
      compute_state_root sample_crypto (default_provider\<lparr>state :=
        [(byte_array [1], default_account), (zero_array, default_account)]\<rparr>) = Ok h"
proof -
  have ne: "(zero_array :: address) \<noteq> byte_array [1]"
    by (simp add: zero_array_def as_bytes_byte_array numeral_eq_Suc flip: as_bytes_eq_iff)
  show ?thesis
    by (rule state_root_deterministic)
       (use ne in \<open>auto simp: provider_ok_def default_provider_def fun_eq_iff\<close>)
qed

text \<open>
  C21. The state root commits to the accounts: if the hash function does not collide on the node
  encodings of the two state tries, equal roots mean equal accounts (balance, nonce and code hash
  at every address).
\<close>

theorem state_root_binding:
  assumes "provider_ok p" and "provider_ok q"
    and "build_state_trie p = Ok s" and "build_state_trie q = Ok t"
    and "inj_on (keccak256 c) (trie_preimages c s \<union> trie_preimages c t)"
    and "compute_state_root c p = compute_state_root c q"
  shows "accounts p = accounts q"
proof -
  have s: "trie_ok 20 s" "trie_contents s = map_of (state_entries p)" "trie_fits s"
    using state_trie [OF assms(1)] assms(3) by auto
  have t: "trie_ok 20 t" "trie_contents t = map_of (state_entries q)" "trie_fits t"
    using state_trie [OF assms(2)] assms(4) by auto
  have "keccak256 c (root_preimage c s) = keccak256 c (root_preimage c t)"
    using assms(3,4,6) s t by (simp add: compute_state_root_def root_hash_eq)
  then have "root_preimage c s = root_preimage c t"
    using inj_onD [OF assms(5)] root_preimage_mem by blast
  then have "s = t" using root_preimage_inject [OF s(1) t(1) s(3) t(3) assms(5)] by blast
  then have "map_of (state_entries p) (as_bytes a) = map_of (state_entries q) (as_bytes a)" for a :: address
    using s(2) t(2) by simp
  then have eq: "map_option (\<lambda>info. rlp_bytes (account_rlp info)) (accounts p a) =
      map_option (\<lambda>info. rlp_bytes (account_rlp info)) (accounts q a)" for a
    by (simp only: map_of_state_entries)
  have "inj (\<lambda>info. rlp_bytes (account_rlp info))"
    using account_rlp_bytes_inject by (auto simp only: inj_def)
  from option.inj_map [OF this] eq have "accounts p a = accounts q a" for a
    by (rule injD)
  then show ?thesis by blast
qed

lemma hd_sample_keccak: "bs \<noteq> [] \<Longrightarrow> hd (as_bytes (keccak256 sample_crypto bs)) = hd bs"
  by (cases bs) (simp_all add: keccak256_def sample_crypto_def as_bytes_byte_array)

theorem state_root_binding_witness:
  "compute_state_root sample_crypto default_provider \<noteq>
   compute_state_root sample_crypto (default_provider\<lparr>state := [(zero_array, default_account)]\<rparr>)"
proof
  let ?q = "default_provider\<lparr>state := [(zero_array, default_account)]\<rparr>"
  assume eq: "compute_state_root sample_crypto default_provider = compute_state_root sample_crypto ?q"
  have ok: "provider_ok default_provider" "provider_ok ?q"
    by (simp_all add: provider_ok_def default_provider_def)
  have s: "build_state_trie default_provider = Ok trie_new"
    by (simp add: build_state_trie_def default_provider_def)
  obtain n where t: "build_state_trie ?q = Ok \<lparr>root = Some n\<rparr>" and n: "\<exists>r v. n = Leaf r v"
    using state_keys_ok [of ?q]
    by (auto simp: build_state_trie_eq state_entries_def trie_insert_def trie_new_def key_ok_def
        simp del: rlp_bytes.simps)
  from state_trie [OF ok(2)] t have "node_fits n" by (auto simp: trie_fits_def)
  moreover obtain items where i: "node_item sample_crypto n = List items" using node_item_List by blast
  ultimately have "0xc0 \<le> hd (rlp_bytes (node_item sample_crypto n))"
    using hd_list_bytes [of items] node_item_len [of n sample_crypto] by simp
  then have "hd (rlp_bytes (node_item sample_crypto n)) \<noteq> 0x80" by auto
  then have "inj_on (keccak256 sample_crypto) {[0x80], rlp_bytes (node_item sample_crypto n)}"
    using hd_sample_keccak [of "[0x80]"] hd_sample_keccak [of "rlp_bytes (node_item sample_crypto n)"]
    by (auto simp: inj_on_def)
  moreover have "trie_preimages sample_crypto trie_new \<union> trie_preimages sample_crypto \<lparr>root = Some n\<rparr> =
      {[0x80], rlp_bytes (node_item sample_crypto n)}"
    using n by (auto simp: trie_preimages_def trie_new_def)
  ultimately have "accounts default_provider = accounts ?q"
    using state_root_binding [OF ok s t _ eq] by simp
  from fun_cong [OF this, of zero_array] show False by (simp add: default_provider_def)
qed

end
