(* ===== verification/Executor.thy ===== *)
theory Executor
  imports State_Root
begin

text \<open>
  The crate \<^verbatim>\<open>core/execution\<close>, file \<^verbatim>\<open>executor.rs\<close>, second part: execution of a block's value
  transfers. The model keeps the mutations of a failing execution, as the code does (the pipeline
  rolls them back). Contract creation is \<^verbatim>\<open>todo!()\<close> in the source and panics.
\<close>

section \<open>Execution\<close>

record execution_output =
  out_gas_used :: u64
  out_receipts :: "receipt list"
  out_logs_bloom :: bloom
  out_state_root :: b256

record block_with_senders =
  bws_block :: block
  senders :: "address list"

text \<open>The variables of the loop.\<close>

record loop_state =
  cumulative :: u64
  loop_receipts :: "receipt list"
  loop_bloom :: bloom

definition base_fee_per_gas :: "header \<Rightarrow> u128" where
  "base_fee_per_gas hdr = ucast (gas_limit hdr) div 2"

text \<open>\<^verbatim>\<open>state.get_account(a).or_else(..)\<close>: an unknown recipient is a default account.\<close>

definition get_or_default :: "in_memory_provider \<Rightarrow> address \<Rightarrow> (account, execution_error) outcome" where
  "get_or_default p a =
     (case get_account p a of
        Err (AccountNotFound _) \<Rightarrow> Ok default_account
      | other \<Rightarrow> other)"

definition execute_transaction ::
  "crypto \<Rightarrow> header \<Rightarrow> b256 \<Rightarrow> loop_state \<Rightarrow> nat \<times> signed_transaction \<times> address \<Rightarrow>
     (loop_state, execution_error, in_memory_provider) action" where
  "execute_transaction c hdr bhash ls = (\<lambda>(i, signed_tx, sender).
     let tx = transaction signed_tx in
     then_do (reading (\<lambda>p. get_account p sender)) (\<lambda>acc.
     if tx_nonce tx \<noteq> acc_nonce acc
     then pure (Err (InvalidNonce sender (acc_nonce acc) (tx_nonce tx)))
     else
       then_do (pure (map_err ExecTransaction (max_cost tx))) (\<lambda>cost.
       if cost > acc_balance acc
       then pure (Err (InsufficientBalance sender (acc_balance acc) cost))
       else
         then_do (pure (map_err ExecTransaction (effective_gas_price tx (base_fee_per_gas hdr)))) (\<lambda>price.
         then_do (pure (ok_or ExecOverflow (checked_mul price (ucast (tx_gas_limit tx))))) (\<lambda>fee.
         then_do (pure (ok_or ExecOverflow (checked_add fee (tx_value tx)))) (\<lambda>total.
         then_do (pure (ok_or ExecUnderflow (checked_sub (acc_balance acc) total))) (\<lambda>new_balance.
         then_do (pure (ok_or ExecOverflow (checked_add (acc_nonce acc) 1))) (\<lambda>new_nonce.
         then_do (mutate (set_account sender (acc\<lparr>acc_balance := new_balance, acc_nonce := new_nonce\<rparr>))) (\<lambda>_.
         case tx_to tx of
           None \<Rightarrow> pure Panic
         | Some recipient_address \<Rightarrow>
             then_do (reading (\<lambda>p. get_or_default p recipient_address)) (\<lambda>recipient.
             then_do (pure (ok_or ExecOverflow (checked_add (acc_balance recipient) (tx_value tx)))) (\<lambda>credited.
             then_do (mutate (set_account recipient_address (recipient\<lparr>acc_balance := credited\<rparr>))) (\<lambda>_.
             then_do (pure (ok_or ExecOverflow (checked_add (cumulative ls) (tx_gas_limit tx)))) (\<lambda>gas.
             then_do (pure (map_err ExecSigning (signed_transaction_hash c signed_tx))) (\<lambda>tx_hash.
             pure (Ok \<lparr>cumulative = gas,
                loop_receipts = loop_receipts ls @
                  [\<lparr>transaction_hash = tx_hash, transaction_index = of_nat i, block_hash = bhash,
                    receipt_block_number = number hdr, receipt_from = sender,
                    receipt_to = tx_to tx, contract_address = None, cumulative_gas_used = gas,
                    receipt_effective_gas_price = price, receipt_gas_used = tx_gas_limit tx,
                    status = True, logs = [], receipt_logs_bloom = zero_array\<rparr>],
                loop_bloom = bitor_assign (loop_bloom ls) zero_array\<rparr>)))))))))))))))"

definition execute_loop ::
  "crypto \<Rightarrow> block_with_senders \<Rightarrow> b256 \<Rightarrow> (loop_state, execution_error, in_memory_provider) action" where
  "execute_loop c b bhash =
     for_each (execute_transaction c (block_header (bws_block b)) bhash)
       \<lparr>cumulative = 0, loop_receipts = [], loop_bloom = zero_array\<rparr>
       (zip [0..<length (transactions (bws_block b))] (zip (transactions (bws_block b)) (senders b)))"

definition execute ::
  "crypto \<Rightarrow> block_with_senders \<Rightarrow> (execution_output, execution_error, in_memory_provider) action" where
  "execute c b =
     then_do (pure (map_err ExecRlp (hash_header c (block_header (bws_block b))))) (\<lambda>bhash.
     then_do (execute_loop c b bhash) (\<lambda>ls.
     then_do (reading (\<lambda>p. map_err RootCompute (compute_state_root c p))) (\<lambda>sroot.
     pure (Ok \<lparr>out_gas_used = cumulative ls, out_receipts = loop_receipts ls,
               out_logs_bloom = loop_bloom ls, out_state_root = sroot\<rparr>))))"

section \<open>One transfer\<close>

lemma get_account_Ok_iff: "get_account p a = Ok acc \<longleftrightarrow> accounts p a = Some acc"
  by (simp add: get_account_def)

lemma get_or_default_eq: "get_or_default p a = Ok (unwrap_or (accounts p a) default_account)"
  by (simp add: get_or_default_def get_account_def unwrap_or_def split: option.split)

text \<open>What a transaction pays for its gas.\<close>

definition gas_fee :: "u128 \<Rightarrow> transaction \<Rightarrow> nat" where
  "gas_fee price tx = unat price * unat (tx_gas_limit tx)"

text \<open>Everything a successful transfer has checked and written.\<close>

lemma execute_transaction_OkE:
  assumes "execute_transaction c hdr bh ls (i, stx, sender) p = (Ok ls', p')"
  obtains acc to debited nonce' recipient credited gas h price cost where
    "p' = set_account to (recipient\<lparr>acc_balance := credited\<rparr>)
       (set_account sender (acc\<lparr>acc_balance := debited, acc_nonce := nonce'\<rparr>) p)"
    "ls' = \<lparr>cumulative = gas, loop_receipts = loop_receipts ls @
       [\<lparr>transaction_hash = h, transaction_index = of_nat i, block_hash = bh,
         receipt_block_number = number hdr, receipt_from = sender,
         receipt_to = Some to, contract_address = None, cumulative_gas_used = gas,
         receipt_effective_gas_price = price, receipt_gas_used = tx_gas_limit (transaction stx),
         status = True, logs = [], receipt_logs_bloom = zero_array\<rparr>],
       loop_bloom = loop_bloom ls\<rparr>"
    "accounts p sender = Some acc" "tx_nonce (transaction stx) = acc_nonce acc"
    "max_cost (transaction stx) = Ok cost" "cost \<le> acc_balance acc"
    "effective_gas_price (transaction stx) (base_fee_per_gas hdr) = Ok price"
    "tx_to (transaction stx) = Some to"
    "recipient = unwrap_or
       (accounts (set_account sender (acc\<lparr>acc_balance := debited, acc_nonce := nonce'\<rparr>) p) to)
       default_account"
    "unat debited + (gas_fee price (transaction stx) + unat (tx_value (transaction stx))) =
       unat (acc_balance acc)"
    "unat nonce' = unat (acc_nonce acc) + 1"
    "unat credited = unat (acc_balance recipient) + unat (tx_value (transaction stx))"
    "unat gas = unat (cumulative ls) + unat (tx_gas_limit (transaction stx))"
    "signed_transaction_hash c stx = Ok h"
proof -
  note [simp del] = state_set_account
  have arith: "unat d + (gas_fee p tx + v) = b"
    if "checked_mul p (ucast (tx_gas_limit tx)) = Some fee" "checked_add fee w = Some t"
      "v = unat w" "checked_sub b' t = Some d" "b = unat b'" for p fee w t b' d tx v b
    using that by (auto simp: checked_mul_eq_Some checked_add_eq_Some checked_sub_eq_Some gas_fee_def)
  show thesis
    using assms
    by (clarsimp simp: execute_transaction_def Let_def outcome_iffs get_account_Ok_iff get_or_default_eq
        split: if_splits option.splits)
      (rule that, assumption, assumption, assumption, assumption, assumption, simp, assumption,
        assumption, rule refl, erule arith, assumption, rule refl, assumption, rule refl,
        simp_all add: checked_add_eq_Some)
qed

section \<open>The ledger a block is meant to update\<close>

text \<open>
  The specification: addresses with a balance and a nonce as plain numbers, and a transfer that
  burns the gas fee, moves the value and counts the nonce. The order of the two updates matters
  when a transaction pays its own sender.
\<close>

type_synonym ledger = "address \<rightharpoonup> nat \<times> nat"

definition spec_price :: "nat \<Rightarrow> transaction \<Rightarrow> nat" where
  "spec_price base tx =
     (case tx of
        Legacy _ p _ _ _ _ \<Rightarrow> unat p
      | _ \<Rightarrow> min (unat (max_fee_per_gas tx)) (base + unat (max_priority_fee_per_gas tx)))"

definition spec_transfer :: "nat \<Rightarrow> transaction \<times> address \<Rightarrow> ledger \<Rightarrow> ledger option" where
  "spec_transfer base = (\<lambda>(tx, sender) L.
     case (L sender, tx_to tx) of
       (Some (b, n), Some to) \<Rightarrow>
         let gas = unat (tx_gas_limit tx); v = unat (tx_value tx);
             L1 = L(sender \<mapsto> (b - (spec_price base tx * gas + v), n + 1));
             (rb, rn) = unwrap_or (L1 to) (0, 0)
         in if unat (tx_nonce tx) = n \<and> unat (fee_cap tx) * gas + v \<le> b \<and>
               (is_Legacy tx \<or> base \<le> unat (fee_cap tx))
            then Some (L1(to \<mapsto> (rb + v, rn)))
            else None
     | _ \<Rightarrow> None)"

primrec spec_run :: "nat \<Rightarrow> (transaction \<times> address) list \<Rightarrow> ledger \<Rightarrow> ledger option" where
  "spec_run base [] L = Some L"
| "spec_run base (x # xs) L = Option.bind (spec_transfer base x L) (spec_run base xs)"

definition ledger_of :: "in_memory_provider \<Rightarrow> ledger" where
  "ledger_of p a = map_option (\<lambda>acc. (unat (acc_balance acc), unat (acc_nonce acc))) (accounts p a)"

lemma ledger_of_set_account [simp]:
  "ledger_of (set_account a acc p) = (ledger_of p)(a \<mapsto> (unat (acc_balance acc), unat (acc_nonce acc)))"
  by (auto simp: ledger_of_def fun_eq_iff update_conv')

lemma effective_gas_price_spec:
  assumes "effective_gas_price tx base = Ok price"
  shows "unat price = spec_price (unat base) tx" and "is_Legacy tx \<or> unat base \<le> unat (fee_cap tx)"
  using assms
  by (cases tx;
      auto simp: effective_gas_price_def dynamic_gas_price_def spec_price_def fee_cap_def outcome_iffs
        checked_add_eq_Some word_le_nat_alt word_less_nat_alt min_def split: if_splits)+

lemma execute_transaction_refines:
  assumes "execute_transaction c hdr bh ls (i, stx, sender) p = (Ok ls', p')"
  shows "spec_transfer (unat (base_fee_per_gas hdr)) (transaction stx, sender) (ledger_of p) =
      Some (ledger_of p')"
  using assms
proof (rule execute_transaction_OkE)
  fix acc to debited nonce' recipient credited gas h price cost
  assume p': "p' = set_account to (recipient\<lparr>acc_balance := credited\<rparr>)
       (set_account sender (acc\<lparr>acc_balance := debited, acc_nonce := nonce'\<rparr>) p)"
    and acc: "accounts p sender = Some acc" "tx_nonce (transaction stx) = acc_nonce acc"
    and cost: "max_cost (transaction stx) = Ok cost" "cost \<le> acc_balance acc"
    and price: "effective_gas_price (transaction stx) (base_fee_per_gas hdr) = Ok price"
    and to: "tx_to (transaction stx) = Some to"
    and r: "recipient = unwrap_or
       (accounts (set_account sender (acc\<lparr>acc_balance := debited, acc_nonce := nonce'\<rparr>) p) to)
       default_account"
    and d: "unat debited + (gas_fee price (transaction stx) + unat (tx_value (transaction stx))) =
       unat (acc_balance acc)"
    and n: "unat nonce' = unat (acc_nonce acc) + 1"
    and cr: "unat credited = unat (acc_balance recipient) + unat (tx_value (transaction stx))"
  have L: "ledger_of p sender = Some (unat (acc_balance acc), unat (acc_nonce acc))"
    using acc by (simp add: ledger_of_def)
  let ?L1 = "(ledger_of p)(sender \<mapsto> (unat debited, unat nonce'))"
  have "unwrap_or (?L1 to) (0, 0) = (unat (acc_balance recipient), unat (acc_nonce recipient))"
    by (auto simp: r ledger_of_def unwrap_or_def update_conv' default_account_def split: option.split)
  moreover have "unat (acc_balance acc) -
      (spec_price (unat (base_fee_per_gas hdr)) (transaction stx) * unat (tx_gas_limit (transaction stx)) +
       unat (tx_value (transaction stx))) = unat debited"
    using d effective_gas_price_spec(1) [OF price] by (simp add: gas_fee_def)
  ultimately show ?thesis
    using L acc cost to n cr effective_gas_price_spec(2) [OF price]
    by (auto simp: spec_transfer_def Let_def p' max_cost_Ok_iff word_le_nat_alt)
qed

section \<open>Total balance\<close>

definition total_balance :: "in_memory_provider \<Rightarrow> nat" where
  "total_balance p = sum_list (map (\<lambda>e. unat (acc_balance (snd e))) (state p))"

lemma sum_list_update:
  "hm_ok m \<Longrightarrow>
     sum_list (map (\<lambda>e. f (snd e)) (AList.update k v m)) + (case map_of m k of None \<Rightarrow> 0 | Some w \<Rightarrow> f w) =
     sum_list (map (\<lambda>e. f (snd e)) m) + (f v :: nat)"
  by (induction m) (auto simp: map_of_eq_None_iff image_iff split: option.splits)

lemma total_balance_set_account:
  assumes "provider_ok p"
  shows "total_balance (set_account a info p) + unat (acc_balance (unwrap_or (accounts p a) default_account)) =
    total_balance p + unat (acc_balance info)"
  using sum_list_update [of "state p" "\<lambda>acc. unat (acc_balance acc)" a info] assms
  by (cases "accounts p a")
     (simp_all add: total_balance_def provider_ok_def unwrap_or_def default_account_def)

lemma balance_le_total: "accounts p a = Some acc \<Longrightarrow> unat (acc_balance acc) \<le> total_balance p"
  unfolding total_balance_def by (rule member_le_sum_list) (force dest: map_of_SomeD, simp)

lemma execute_transaction_conserves:
  assumes "execute_transaction c hdr bh ls (i, stx, sender) p = (Ok ls', p')" and "provider_ok p"
  shows "\<exists>r. loop_receipts ls' = loop_receipts ls @ [r] \<and>
    total_balance p' + unat (receipt_effective_gas_price r) * unat (receipt_gas_used r) = total_balance p"
  using assms(1)
proof (rule execute_transaction_OkE)
  fix acc to debited nonce' recipient credited gas h price cost
  let ?p1 = "set_account sender (acc\<lparr>acc_balance := debited, acc_nonce := nonce'\<rparr>) p"
  assume p': "p' = set_account to (recipient\<lparr>acc_balance := credited\<rparr>) ?p1"
    and ls': "ls' = \<lparr>cumulative = gas, loop_receipts = loop_receipts ls @
       [\<lparr>transaction_hash = h, transaction_index = of_nat i, block_hash = bh,
         receipt_block_number = number hdr, receipt_from = sender,
         receipt_to = Some to, contract_address = None, cumulative_gas_used = gas,
         receipt_effective_gas_price = price, receipt_gas_used = tx_gas_limit (transaction stx),
         status = True, logs = [], receipt_logs_bloom = zero_array\<rparr>],
       loop_bloom = loop_bloom ls\<rparr>"
    and acc: "accounts p sender = Some acc"
    and r: "recipient = unwrap_or (accounts ?p1 to) default_account"
    and d: "unat debited + (gas_fee price (transaction stx) + unat (tx_value (transaction stx))) =
       unat (acc_balance acc)"
    and cr: "unat credited = unat (acc_balance recipient) + unat (tx_value (transaction stx))"
  have "total_balance ?p1 + unat (acc_balance acc) = total_balance p + unat debited"
    using total_balance_set_account [OF assms(2), of sender "acc\<lparr>acc_balance := debited, acc_nonce := nonce'\<rparr>"]
      acc by (simp add: unwrap_or_def)
  moreover have "total_balance p' + unat (acc_balance recipient) =
      total_balance ?p1 + unat (acc_balance (recipient\<lparr>acc_balance := credited\<rparr>))"
    unfolding p' r by (rule total_balance_set_account [OF provider_ok_set_account [OF assms(2)]])
  ultimately show ?thesis
    using d cr by (simp add: ls' gas_fee_def)
qed

section \<open>The whole block\<close>

text \<open>The transactions paired with their senders, as the loop sees them.\<close>

definition indexed :: "block_with_senders \<Rightarrow> (nat \<times> signed_transaction \<times> address) list" where
  "indexed b = zip [0..<length (transactions (bws_block b))] (zip (transactions (bws_block b)) (senders b))"

definition transfers :: "block_with_senders \<Rightarrow> (transaction \<times> address) list" where
  "transfers b = map (\<lambda>(stx, sender). (transaction stx, sender)) (zip (transactions (bws_block b)) (senders b))"

lemma transfers_indexed: "transfers b = map (\<lambda>(i, stx, sender). (transaction stx, sender)) (indexed b)"
proof -
  have "map (\<lambda>(i, stx, sender). (transaction stx, sender)) (zip is xs) =
      map (\<lambda>(stx, sender). (transaction stx, sender)) (take (length is) xs)"
    for "is" :: "nat list" and xs :: "(signed_transaction \<times> address) list"
    by (induction "is" xs rule: list_induct2') auto
  then show ?thesis by (simp add: transfers_def indexed_def)
qed

lemma execute_OkE:
  assumes "execute c b p = (Ok out, p')"
  obtains bh ls where "hash_header c (block_header (bws_block b)) = Ok bh"
    "for_each (execute_transaction c (block_header (bws_block b)) bh)
       \<lparr>cumulative = 0, loop_receipts = [], loop_bloom = zero_array\<rparr> (indexed b) p = (Ok ls, p')"
    "compute_state_root c p' = Ok (out_state_root out)"
    "out_gas_used out = cumulative ls" "out_receipts out = loop_receipts ls"
    "out_logs_bloom out = loop_bloom ls"
  using assms by (auto simp: execute_def execute_loop_def indexed_def outcome_iffs)

text \<open>The executor writes accounts only, so it keeps whatever \<^verbatim>\<open>set_account\<close> keeps.\<close>

lemma execute_keeps:
  assumes "\<And>a info p. P p \<Longrightarrow> P (set_account a info p)"
  shows "keeps P (execute c b)"
proof -
  have "keeps P (execute_transaction c hdr bh ls x)" for hdr bh ls x
    unfolding execute_transaction_def Let_def
    by (auto intro!: keeps_then_do keeps_pure keeps_reading keeps_mutate assms split: prod.split option.split)
  then show ?thesis
    unfolding execute_def execute_loop_def by (intro keeps_then_do keeps_pure keeps_reading keeps_for_each)
qed

lemma execute_keeps_ok: "keeps provider_ok (execute c b)"
  by (rule execute_keeps) (rule provider_ok_set_account)

lemma execute_keeps_journal: "keeps (journal_of orig) (execute c b)"
  by (rule execute_keeps) (rule journal_of_set_account)

lemma execute_frame:
  "keeps (\<lambda>q. blocks q = bs \<and> blocks_by_hash q = ix \<and> tx_store q = ts \<and> receipts q = rs \<and>
     storage q = st) (execute c b)"
  by (rule execute_keeps) simp

lemma execute_transaction_ok:
  "provider_ok p \<Longrightarrow> execute_transaction c hdr bh ls x p = (r, p') \<Longrightarrow> provider_ok p'"
proof -
  have "keeps provider_ok (execute_transaction c hdr bh ls x)"
    unfolding execute_transaction_def Let_def
    by (auto intro!: keeps_then_do keeps_pure keeps_reading keeps_mutate provider_ok_set_account
        split: prod.split option.split)
  from keepsD [OF this, of p] show "provider_ok p \<Longrightarrow>
      execute_transaction c hdr bh ls x p = (r, p') \<Longrightarrow> provider_ok p'" by simp
qed

lemma loop_refines:
  "for_each (execute_transaction c hdr bh) ls xs p = (Ok ls', p') \<Longrightarrow>
     spec_run (unat (base_fee_per_gas hdr)) (map (\<lambda>(i, stx, sender). (transaction stx, sender)) xs)
       (ledger_of p) = Some (ledger_of p')"
proof (induction xs arbitrary: ls p)
  case (Cons x xs)
  obtain i stx sender where "x = (i, stx, sender)" by (cases x)
  with Cons show ?case by (auto simp: outcome_iffs execute_transaction_refines)
qed simp

lemma loop_conserves:
  "for_each (execute_transaction c hdr bh) ls xs p = (Ok ls', p') \<Longrightarrow> provider_ok p \<Longrightarrow>
     \<exists>rs. loop_receipts ls' = loop_receipts ls @ rs \<and>
       total_balance p' + (\<Sum>r\<leftarrow>rs. unat (receipt_effective_gas_price r) * unat (receipt_gas_used r)) =
       total_balance p"
proof (induction xs arbitrary: ls p)
  case (Cons x xs)
  obtain i stx sender where x: "x = (i, stx, sender)" by (cases x)
  with Cons.prems obtain ls1 p1 where
    step: "execute_transaction c hdr bh ls (i, stx, sender) p = (Ok ls1, p1)" and
    rest: "for_each (execute_transaction c hdr bh) ls1 xs p1 = (Ok ls', p')"
    by (auto simp: outcome_iffs)
  from execute_transaction_conserves [OF step Cons.prems(2)]
    Cons.IH [OF rest execute_transaction_ok [OF Cons.prems(2) step]]
  show ?case by force
qed simp

section \<open>Progress\<close>

text \<open>A dynamic fee whose base fee plus tip fits 128 bits.\<close>

definition tip_fits :: "u128 \<Rightarrow> transaction \<Rightarrow> bool" where
  "tip_fits base tx \<longleftrightarrow> is_Legacy tx \<or> unat base + unat (max_priority_fee_per_gas tx) < 2 ^ 128"

lemma effective_gas_price_ex:
  assumes "tip_fits base tx" and "is_Legacy tx \<or> unat base \<le> unat (fee_cap tx)"
  shows "\<exists>price. effective_gas_price tx base = Ok price"
  using assms checked_add_ex [of base "max_priority_fee_per_gas tx"]
  by (cases tx) (auto simp: tip_fits_def effective_gas_price_def dynamic_gas_price_def fee_cap_def
      word_less_nat_alt)

lemma spec_transfer_SomeE:
  assumes "spec_transfer base (tx, sender) L = Some L'"
  obtains b n to where "L sender = Some (b, n)" "tx_to tx = Some to" "unat (tx_nonce tx) = n"
    "unat (fee_cap tx) * unat (tx_gas_limit tx) + unat (tx_value tx) \<le> b"
    "is_Legacy tx \<or> base \<le> unat (fee_cap tx)"
    "L' = (let v = unat (tx_value tx);
             L1 = L(sender \<mapsto> (b - (spec_price base tx * unat (tx_gas_limit tx) + v), n + 1));
             (rb, rn) = unwrap_or (L1 to) (0, 0)
         in L1(to \<mapsto> (rb + v, rn)))"
  using assms
  by (auto simp: spec_transfer_def Let_def split: option.splits prod.splits if_splits)

lemma debit_ex:
  assumes "price \<le> cap" and "unat cap * unat gas + unat v \<le> unat balance"
  shows "\<exists>fee all debited. checked_mul price (ucast (gas :: u64)) = Some fee \<and>
    checked_add fee v = Some all \<and> checked_sub balance all = Some debited \<and>
    unat debited + unat v \<le> unat (balance :: u128)"
proof -
  have b: "unat balance < 2 ^ 128" using unsigned_less [of balance, where ?'a = nat] by simp
  have "unat price * unat gas \<le> unat cap * unat gas"
    using assms(1) by (intro mult_right_mono) (simp_all add: word_le_nat_alt)
  then have le: "unat price * unat gas + unat v \<le> unat balance" using assms(2) by linarith
  then obtain fee where fee: "checked_mul price (ucast gas) = Some fee" "unat fee = unat price * unat gas"
    using b checked_mul_ex [of price "ucast gas"] by auto
  then obtain all where all: "checked_add fee v = Some all" "unat all = unat fee + unat v"
    using b le checked_add_ex [of fee v] by auto
  then obtain debited where "checked_sub balance all = Some debited"
    using checked_sub_ex [of all balance] le fee(2) by (auto simp: word_le_nat_alt)
  with fee all le show ?thesis by (auto simp: checked_sub_eq_Some)
qed

lemma execute_transaction_complete:
  assumes spec: "spec_transfer (unat (base_fee_per_gas hdr)) (transaction stx, sender) (ledger_of p) = Some L'"
    and ok: "provider_ok p" and total: "total_balance p < 2 ^ 128"
    and nonce: "unat (tx_nonce (transaction stx)) + 1 < 2 ^ 64"
    and gas: "unat (cumulative ls) + unat (tx_gas_limit (transaction stx)) < 2 ^ 64"
    and wire: "encoded_len (wire_item stx) < 2 ^ 64"
    and tip: "tip_fits (base_fee_per_gas hdr) (transaction stx)"
  shows "\<exists>ls' p'. execute_transaction c hdr bh ls (i, stx, sender) p = (Ok ls', p')"
  using spec
proof (rule spec_transfer_SomeE)
  let ?tx = "transaction stx"
  fix b n to
  assume L: "ledger_of p sender = Some (b, n)" and to: "tx_to ?tx = Some to"
    and n: "unat (tx_nonce ?tx) = n"
    and cap: "unat (fee_cap ?tx) * unat (tx_gas_limit ?tx) + unat (tx_value ?tx) \<le> b"
    and base: "is_Legacy ?tx \<or> unat (base_fee_per_gas hdr) \<le> unat (fee_cap ?tx)"
  obtain acc where acc: "accounts p sender = Some acc" "b = unat (acc_balance acc)" "n = unat (acc_nonce acc)"
    using L by (auto simp: ledger_of_def)
  have b: "b < 2 ^ 128" using acc(2) unsigned_less [of "acc_balance acc", where ?'a = nat] by simp
  obtain price where price: "effective_gas_price ?tx (base_fee_per_gas hdr) = Ok price"
    using effective_gas_price_ex [OF tip base] by blast
  obtain cost where cost: "max_cost ?tx = Ok cost" "unat cost \<le> b"
    using cap b ex_unat [of "unat (fee_cap ?tx) * unat (tx_gas_limit ?tx) + unat (tx_value ?tx)", where ?'a = 128]
    by (auto simp: max_cost_Ok_iff)
  obtain fee all debited where
    fee: "checked_mul price (ucast (tx_gas_limit ?tx)) = Some fee" "checked_add fee (tx_value ?tx) = Some all"
      "checked_sub (acc_balance acc) all = Some debited"
    and debited: "unat debited + unat (tx_value ?tx) \<le> b"
    using debit_ex [OF effective_gas_price_le_cap [OF price]] cap acc(2) by blast
  obtain nonce' where nonce': "checked_add (acc_nonce acc) 1 = Some nonce'"
    using nonce n acc(3) checked_add_ex [of "acc_nonce acc" 1] by auto
  let ?p1 = "set_account sender (acc\<lparr>acc_balance := debited, acc_nonce := nonce'\<rparr>) p"
  let ?r = "unwrap_or (accounts ?p1 to) default_account"
  have "total_balance ?p1 + b = total_balance p + unat debited"
    using total_balance_set_account [OF ok, of sender "acc\<lparr>acc_balance := debited, acc_nonce := nonce'\<rparr>"]
      acc by (simp add: unwrap_or_def)
  moreover have "unat (acc_balance ?r) \<le> total_balance ?p1"
    using balance_le_total [of ?p1 to] by (cases "accounts ?p1 to") (simp_all add: unwrap_or_def default_account_def)
  ultimately have "unat (acc_balance ?r) + unat (tx_value ?tx) < 2 ^ 128" using total debited by linarith
  then obtain credited where credited: "checked_add (acc_balance ?r) (tx_value ?tx) = Some credited"
    using checked_add_ex [of "acc_balance ?r" "tx_value ?tx"] by auto
  obtain g where "checked_add (cumulative ls) (tx_gas_limit ?tx) = Some g"
    using gas checked_add_ex [of "cumulative ls" "tx_gas_limit ?tx"] by auto
  with acc n cost price fee nonce' to credited signed_transaction_hash_eq [OF wire]
  show ?thesis
    by (simp add: execute_transaction_def get_account_def get_or_default_eq then_do_def Let_def
        word_unat_eq_iff word_less_nat_alt del: state_set_account)
qed

definition nonces_below :: "nat \<Rightarrow> ledger \<Rightarrow> bool" where
  "nonces_below k L \<longleftrightarrow> (\<forall>a b n. L a = Some (b, n) \<longrightarrow> n + k < 2 ^ 64)"

lemma nonces_below_step:
  assumes "spec_transfer base (tx, sender) L = Some L'" and "nonces_below (Suc k) L"
  shows "nonces_below k L' \<and> unat (tx_nonce tx) + 1 < 2 ^ 64"
  using assms(1)
proof (rule spec_transfer_SomeE)
  fix b n to
  assume L: "L sender = Some (b, n)" "unat (tx_nonce tx) = n"
    and L': "L' = (let v = unat (tx_value tx);
             L1 = L(sender \<mapsto> (b - (spec_price base tx * unat (tx_gas_limit tx) + v), n + 1));
             (rb, rn) = unwrap_or (L1 to) (0, 0)
         in L1(to \<mapsto> (rb + v, rn)))"
  have below: "n + k < 2 ^ 64" if "L a = Some (b, n)" for a b n
    using that assms(2) by (fastforce simp: nonces_below_def)
  have n: "Suc (n + k) < 2 ^ 64" using assms(2) L by (fastforce simp: nonces_below_def)
  with below have "nonces_below k L'"
    by (auto simp: L' nonces_below_def Let_def unwrap_or_def split: prod.split option.split)
  with n L show ?thesis by simp
qed

text \<open>What a transaction needs besides being valid: its encoding and its fee fit the machine.\<close>

definition tx_fits :: "header \<Rightarrow> signed_transaction \<Rightarrow> bool" where
  "tx_fits hdr stx \<longleftrightarrow>
     encoded_len (wire_item stx) < 2 ^ 64 \<and> tip_fits (base_fee_per_gas hdr) (transaction stx)"

lemma total_balance_decreases:
  "execute_transaction c hdr bh ls (i, stx, sender) p = (Ok ls', p') \<Longrightarrow> provider_ok p \<Longrightarrow>
     total_balance p' \<le> total_balance p"
  using execute_transaction_conserves by fastforce

lemma execute_transaction_gas:
  "execute_transaction c hdr bh ls (i, stx, sender) p = (Ok ls', p') \<Longrightarrow>
     unat (cumulative ls') = unat (cumulative ls) + unat (tx_gas_limit (transaction stx))"
  by (erule execute_transaction_OkE) simp

lemma loop_complete:
  assumes "spec_run (unat (base_fee_per_gas hdr)) (map (\<lambda>(i, stx, sender). (transaction stx, sender)) xs)
      (ledger_of p) = Some L"
    and "provider_ok p" and "total_balance p < 2 ^ 128" and "nonces_below (length xs) (ledger_of p)"
    and "unat (cumulative ls) + (\<Sum>(i, stx, sender)\<leftarrow>xs. unat (tx_gas_limit (transaction stx))) < 2 ^ 64"
    and "list_all (\<lambda>(i, stx, sender). tx_fits hdr stx) xs"
  shows "\<exists>ls' p'. for_each (execute_transaction c hdr bh) ls xs p = (Ok ls', p') \<and> ledger_of p' = L"
  using assms
proof (induction xs arbitrary: ls p)
  case (Cons x xs)
  obtain i stx sender where x: "x = (i, stx, sender)" by (cases x)
  with Cons.prems(1) obtain L1 where
    L1: "spec_transfer (unat (base_fee_per_gas hdr)) (transaction stx, sender) (ledger_of p) = Some L1"
    and rest: "spec_run (unat (base_fee_per_gas hdr)) (map (\<lambda>(i, stx, sender). (transaction stx, sender)) xs) L1 = Some L"
    by (auto simp: bind_eq_Some_conv)
  note nonces = nonces_below_step [OF L1, of "length xs"]
  obtain ls1 p1 where step: "execute_transaction c hdr bh ls (i, stx, sender) p = (Ok ls1, p1)"
    using execute_transaction_complete [OF L1 Cons.prems(2,3)] nonces Cons.prems(4-) x
    by (fastforce simp: tx_fits_def)
  have p1: "ledger_of p1 = L1" using execute_transaction_refines [OF step] L1 by simp
  have "\<exists>ls' p'. for_each (execute_transaction c hdr bh) ls1 xs p1 = (Ok ls', p') \<and> ledger_of p' = L"
  proof (rule Cons.IH)
    show "total_balance p1 < 2 ^ 128"
      using total_balance_decreases [OF step Cons.prems(2)] Cons.prems(3) by simp
    show "unat (cumulative ls1) + (\<Sum>(i, stx, sender)\<leftarrow>xs. unat (tx_gas_limit (transaction stx))) < 2 ^ 64"
      using execute_transaction_gas [OF step] Cons.prems(5) x by simp
  qed (use rest p1 nonces Cons.prems execute_transaction_ok [OF Cons.prems(2) step] in auto)
  with step x show ?case by (auto simp: then_do_def)
qed simp

lemma execute_loop_Ok:
  assumes "for_each (execute_transaction c (block_header (bws_block b)) bh)
      \<lparr>cumulative = 0, loop_receipts = [], loop_bloom = zero_array\<rparr> (indexed b) p = (Ok ls, p')"
    and "hash_header c (block_header (bws_block b)) = Ok bh" and "provider_ok p"
  shows "\<exists>out. execute c b p = (Ok out, p')"
proof -
  have "keeps provider_ok (for_each (execute_transaction c (block_header (bws_block b)) bh)
      \<lparr>cumulative = 0, loop_receipts = [], loop_bloom = zero_array\<rparr> (indexed b))"
    by (intro keeps_for_each keepsI) (metis execute_transaction_ok prod.collapse)
  from keepsD [OF this assms(3)] have "provider_ok p'" by (simp add: assms(1))
  then obtain t where "build_state_trie p' = Ok t" "trie_fits t" by (rule state_trie)
  then have "compute_state_root c p' = Ok (keccak256 c (root_preimage c t))"
    by (simp add: compute_state_root_def root_hash_eq)
  with assms(1,2) show ?thesis by (simp add: execute_def execute_loop_def indexed_def then_do_def)
qed

definition block_gas :: "block_with_senders \<Rightarrow> nat" where
  "block_gas b = (\<Sum>(tx, sender)\<leftarrow>transfers b. unat (tx_gas_limit tx))"

lemma execute_complete:
  assumes "spec_run (unat (base_fee_per_gas (block_header (bws_block b)))) (transfers b) (ledger_of p) = Some L"
    and "provider_ok p" and "total_balance p < 2 ^ 128"
    and "nonces_below (length (transfers b)) (ledger_of p)" and "block_gas b < 2 ^ 64"
    and "\<forall>stx \<in> set (transactions (bws_block b)). tx_fits (block_header (bws_block b)) stx"
  shows "\<exists>out p'. execute c b p = (Ok out, p') \<and> ledger_of p' = L"
proof -
  have "list_all (\<lambda>(i, stx, sender). tx_fits (block_header (bws_block b)) stx) (indexed b)"
    using assms(6) by (auto simp: list_all_iff indexed_def elim!: in_set_zipE)
  moreover have "block_gas b = (\<Sum>(i, stx, sender)\<leftarrow>indexed b. unat (tx_gas_limit (transaction stx)))"
    by (simp add: block_gas_def transfers_indexed comp_def case_prod_unfold)
  ultimately show ?thesis
    using loop_complete [of "block_header (bws_block b)" "indexed b" p L
        "\<lparr>cumulative = 0, loop_receipts = [], loop_bloom = zero_array\<rparr>" c] assms
      execute_loop_Ok [OF _ hash_header_eq] by (fastforce simp: transfers_indexed)
qed

section \<open>A sample block\<close>

definition sample_sender :: address where
  "sample_sender = byte_array [1]"

definition sample_block :: block_with_senders where
  "sample_block =
     \<lparr>bws_block = \<lparr>block_header = genesis_header \<lparr>gc_chain_id = 1, gc_accounts = [], genesis_timestamp = 0\<rparr>,
        transactions = [\<lparr>transaction = Legacy 0 2 21000 (Some zero_array) 5 [], sig_v = 0,
          sig_r = zero_array, sig_s = zero_array\<rparr>]\<rparr>,
      senders = [sample_sender]\<rparr>"

definition sample_provider :: in_memory_provider where
  "sample_provider = default_provider\<lparr>state :=
     [(sample_sender, \<lparr>acc_balance = 50000, acc_nonce = 0, acc_code_hash = default_hash\<rparr>)]\<rparr>"

lemma sample_sender_ne: "sample_sender \<noteq> zero_array"
  by (simp add: sample_sender_def zero_array_def as_bytes_byte_array numeral_eq_Suc flip: as_bytes_eq_iff)

lemma sample_fits: "list_all (tx_fits hdr) (transactions (bws_block sample_block))"
  using transfer_wire_len by (simp add: sample_block_def tx_fits_def tip_fits_def del: encoded_len.simps)

lemma sample_ok: "provider_ok sample_provider"
  by (simp add: provider_ok_def sample_provider_def default_provider_def)

lemma sample_transfers: "transfers sample_block = [(Legacy 0 2 21000 (Some zero_array) 5 [], sample_sender)]"
  by (simp add: transfers_def sample_block_def)

definition sample_ledger :: ledger where
  "sample_ledger = [sample_sender \<mapsto> (7995, 1), zero_array \<mapsto> (5, 0)]"

lemma sample_run: "spec_run base (transfers sample_block) (ledger_of sample_provider) = Some sample_ledger"
  using sample_sender_ne
  by (simp add: sample_transfers spec_transfer_def ledger_of_def sample_provider_def spec_price_def
      fee_cap_def Let_def unwrap_or_def default_provider_def sample_ledger_def fun_eq_iff)

lemma sample_bounds:
  "total_balance sample_provider < 2 ^ 128" "nonces_below (length (transfers sample_block)) (ledger_of sample_provider)"
  "block_gas sample_block < 2 ^ 64"
  by (simp_all add: total_balance_def sample_provider_def nonces_below_def ledger_of_def block_gas_def
      sample_transfers)

lemma sample_execute:
  "\<exists>out p'. execute c sample_block sample_provider = (Ok out, p') \<and> ledger_of p' = sample_ledger"
  using sample_fits by (intro execute_complete sample_run sample_ok sample_bounds) (simp add: list_all_iff)

section \<open>Receipts\<close>

fun running :: "nat \<Rightarrow> nat list \<Rightarrow> nat list" where
  "running acc [] = []"
| "running acc (g # gs) = (acc + g) # running (acc + g) gs"

definition receipt_for ::
  "crypto \<Rightarrow> header \<Rightarrow> nat \<times> signed_transaction \<times> address \<Rightarrow> receipt \<Rightarrow> bool" where
  "receipt_for c hdr = (\<lambda>(i, stx, sender) r.
     signed_transaction_hash c stx = Ok (transaction_hash r) \<and> transaction_index r = of_nat i \<and>
     hash_header c hdr = Ok (block_hash r) \<and> receipt_block_number r = number hdr \<and>
     receipt_from r = sender \<and> receipt_to r = tx_to (transaction stx) \<and>
     effective_gas_price (transaction stx) (base_fee_per_gas hdr) = Ok (receipt_effective_gas_price r) \<and>
     receipt_gas_used r = tx_gas_limit (transaction stx) \<and> status r \<and> logs r = [])"

lemma execute_transaction_receipt:
  assumes "execute_transaction c hdr bh ls x p = (Ok ls', p')" and "hash_header c hdr = Ok bh"
  shows "\<exists>r. loop_receipts ls' = loop_receipts ls @ [r] \<and> receipt_for c hdr x r \<and>
    unat (cumulative_gas_used r) = unat (cumulative ls) + unat (receipt_gas_used r) \<and>
    cumulative ls' = cumulative_gas_used r \<and> loop_bloom ls' = loop_bloom ls"
proof -
  obtain i stx sender where x: "x = (i, stx, sender)" by (cases x)
  show ?thesis using assms(1) unfolding x
    by (rule execute_transaction_OkE) (simp add: receipt_for_def assms(2))
qed

lemma loop_receipts_spec:
  "for_each (execute_transaction c hdr bh) ls xs p = (Ok ls', p') \<Longrightarrow> hash_header c hdr = Ok bh \<Longrightarrow>
     \<exists>rs. loop_receipts ls' = loop_receipts ls @ rs \<and> list_all2 (receipt_for c hdr) xs rs \<and>
       map (\<lambda>r. unat (cumulative_gas_used r)) rs =
         running (unat (cumulative ls)) (map (\<lambda>r. unat (receipt_gas_used r)) rs) \<and>
       unat (cumulative ls') = unat (cumulative ls) + (\<Sum>r\<leftarrow>rs. unat (receipt_gas_used r)) \<and>
       loop_bloom ls' = loop_bloom ls"
proof (induction xs arbitrary: ls p)
  case (Cons x xs)
  then obtain ls1 p1 where
    step: "execute_transaction c hdr bh ls x p = (Ok ls1, p1)" and
    rest: "for_each (execute_transaction c hdr bh) ls1 xs p1 = (Ok ls', p')"
    by (auto simp: outcome_iffs)
  from execute_transaction_receipt [OF step Cons.prems(2)] obtain r where
    r: "loop_receipts ls1 = loop_receipts ls @ [r]" "receipt_for c hdr x r"
    "unat (cumulative_gas_used r) = unat (cumulative ls) + unat (receipt_gas_used r)"
    "cumulative ls1 = cumulative_gas_used r" "loop_bloom ls1 = loop_bloom ls" by blast
  from Cons.IH [OF rest Cons.prems(2)] obtain rs where
    rs: "loop_receipts ls' = loop_receipts ls1 @ rs" "list_all2 (receipt_for c hdr) xs rs"
      "map (\<lambda>r. unat (cumulative_gas_used r)) rs =
         running (unat (cumulative ls1)) (map (\<lambda>r. unat (receipt_gas_used r)) rs)"
      "unat (cumulative ls') = unat (cumulative ls1) + (\<Sum>r\<leftarrow>rs. unat (receipt_gas_used r))"
      "loop_bloom ls' = loop_bloom ls1" by blast
  with r show ?case by (intro exI [of _ "r # rs"]) simp
qed simp

section \<open>Failures\<close>

definition transfer_error :: "execution_error \<Rightarrow> bool" where
  "transfer_error e \<longleftrightarrow>
     (case e of
        AccountNotFound _ \<Rightarrow> True | InvalidNonce _ _ _ \<Rightarrow> True | InsufficientBalance _ _ _ \<Rightarrow> True
      | ExecTransaction _ \<Rightarrow> True | ExecOverflow \<Rightarrow> True | _ \<Rightarrow> False)"

lemma debit_no_underflow:
  assumes "max_cost tx = Ok cost" and "cost \<le> balance" and "effective_gas_price tx base = Ok price"
    and "checked_mul price (ucast (tx_gas_limit tx)) = Some fee" and "checked_add fee (tx_value tx) = Some all"
  shows "checked_sub balance all \<noteq> None"
  using debit_ex [OF effective_gas_price_le_cap [OF assms(3)], of "tx_gas_limit tx" "tx_value tx" balance] assms
  by (auto simp: max_cost_Ok_iff word_le_nat_alt)

lemma execute_transaction_Err:
  assumes "encoded_len (wire_item stx) < 2 ^ 64"
    and "execute_transaction c hdr bh ls (i, stx, sender) p = (Err e, p')"
  shows "transfer_error e"
  using assms(2) debit_no_underflow
  by (fastforce simp: execute_transaction_def Let_def then_do_Err_iff get_account_def get_or_default_eq
      signed_transaction_hash_eq [OF assms(1)] map_err_Err_iff transfer_error_def linorder_not_less
      split: if_splits option.splits)

lemma execute_transaction_Panic:
  assumes "encoded_len (wire_item stx) < 2 ^ 64"
    and "execute_transaction c hdr bh ls (i, stx, sender) p = (Panic, p')"
  shows "tx_to (transaction stx) = None"
  using assms(2)
  by (auto simp: execute_transaction_def Let_def then_do_Panic_iff get_account_def get_or_default_eq
      signed_transaction_hash_eq [OF assms(1)] split: if_splits option.splits)

lemma loop_Err:
  "for_each (execute_transaction c hdr bh) ls xs p = (Err e, p') \<Longrightarrow>
     list_all (\<lambda>(i, stx, sender). encoded_len (wire_item stx) < 2 ^ 64) xs \<Longrightarrow> transfer_error e"
proof (induction xs arbitrary: ls p)
  case (Cons x xs)
  obtain i stx sender where "x = (i, stx, sender)" by (cases x)
  with Cons execute_transaction_Err show ?case by (fastforce simp: then_do_Err_iff)
qed simp

lemma loop_Panic:
  "for_each (execute_transaction c hdr bh) ls xs p = (Panic, p') \<Longrightarrow>
     list_all (\<lambda>(i, stx, sender). encoded_len (wire_item stx) < 2 ^ 64) xs \<Longrightarrow>
     \<exists>(i, stx, sender) \<in> set xs. tx_to (transaction stx) = None"
proof (induction xs arbitrary: ls p)
  case (Cons x xs)
  obtain i stx sender where x: "x = (i, stx, sender)" by (cases x)
  from Cons.prems x consider (now) p'' where "execute_transaction c hdr bh ls (i, stx, sender) p = (Panic, p'')"
    | (later) ls1 p1 where "for_each (execute_transaction c hdr bh) ls1 xs p1 = (Panic, p')"
    by (auto simp: then_do_Panic_iff)
  then show ?case
  proof cases
    case now
    with Cons.prems x execute_transaction_Panic show ?thesis by fastforce
  next
    case later
    with Cons show ?thesis by auto
  qed
qed simp

lemma indexed_txs: "(i, stx, sender) \<in> set (indexed b) \<Longrightarrow> stx \<in> set (transactions (bws_block b))"
  by (auto simp: indexed_def elim!: in_set_zipE)

lemma execute_Panic:
  assumes "provider_ok p"
    and "list_all (\<lambda>stx. encoded_len (wire_item stx) < 2 ^ 64) (transactions (bws_block b))"
    and "execute c b p = (Panic, p')"
  shows "\<exists>stx \<in> set (transactions (bws_block b)). tx_to (transaction stx) = None"
proof -
  let ?bh = "keccak256 c (rlp_bytes (header_to_rlp_item (block_header (bws_block b))))"
  have fits: "list_all (\<lambda>(i, stx, sender). encoded_len (wire_item stx) < 2 ^ 64) (indexed b)"
    using assms(2) by (auto simp: list_all_iff dest: indexed_txs)
  obtain r q where loop: "for_each (execute_transaction c (block_header (bws_block b)) ?bh)
      \<lparr>cumulative = 0, loop_receipts = [], loop_bloom = zero_array\<rparr> (indexed b) p = (r, q)"
    by fastforce
  show ?thesis
  proof (cases r)
    case (Ok ls)
    with execute_loop_Ok [OF _ hash_header_eq assms(1)] loop assms(3) show ?thesis by fastforce
  next
    case (Err e)
    then show ?thesis
      using loop assms(3) by (simp add: execute_def execute_loop_def indexed_def hash_header_eq then_do_def)
  next
    case Panic
    with loop_Panic [OF _ fits] loop show ?thesis by (fastforce dest: indexed_txs)
  qed
qed

section \<open>Properties\<close>

text \<open>
  C1. Execution refines the ledger: whenever \<^verbatim>\<open>execute\<close> succeeds, running the specified transfers in
  block order on the balances and nonces before the block succeeds too and gives exactly the
  balances and nonces after it. Machine arithmetic never shows.
\<close>

theorem execute_refines_ledger:
  assumes "execute c b p = (Ok out, p')"
  shows "spec_run (unat (base_fee_per_gas (block_header (bws_block b)))) (transfers b) (ledger_of p) =
    Some (ledger_of p')"
  using assms by (rule execute_OkE) (simp add: transfers_indexed loop_refines)

theorem execute_refines_ledger_witness:
  "\<exists>out p'. execute sample_crypto sample_block sample_provider = (Ok out, p') \<and>
     spec_run (unat (base_fee_per_gas (block_header (bws_block sample_block)))) (transfers sample_block)
       (ledger_of sample_provider) = Some (ledger_of p') \<and> ledger_of p' sample_sender = Some (7995, 1)"
proof -
  obtain out p' where *: "execute sample_crypto sample_block sample_provider = (Ok out, p')"
    "ledger_of p' = sample_ledger" using sample_execute by blast
  have "ledger_of p' sample_sender = Some (7995, 1)"
    using *(2) sample_sender_ne by (simp add: sample_ledger_def)
  with *(1) execute_refines_ledger [OF *(1)] show ?thesis by blast
qed

text \<open>
  C9. Money is conserved: after a successful block the balances of all accounts add up to what they
  were before, less exactly the gas fees that the receipts record. Nothing is minted, and a
  payment to oneself is no exception.
\<close>

theorem execute_conserves_balance:
  assumes "execute c b p = (Ok out, p')" and "provider_ok p"
  shows "total_balance p' +
      (\<Sum>r\<leftarrow>out_receipts out. unat (receipt_effective_gas_price r) * unat (receipt_gas_used r)) =
    total_balance p"
  using assms(1) by (rule execute_OkE) (use loop_conserves assms(2) in fastforce)

theorem execute_conserves_balance_witness:
  "\<exists>out p'. execute sample_crypto sample_block sample_provider = (Ok out, p') \<and>
     total_balance p' +
       (\<Sum>r\<leftarrow>out_receipts out. unat (receipt_effective_gas_price r) * unat (receipt_gas_used r)) = 50000"
proof -
  obtain out p' where *: "execute sample_crypto sample_block sample_provider = (Ok out, p')"
    using sample_execute by blast
  have "total_balance sample_provider = 50000" by (simp add: total_balance_def sample_provider_def)
  with * execute_conserves_balance [OF * sample_ok] show ?thesis by auto
qed

text \<open>
  C19. Valid blocks execute: if the specified transfers succeed on the ledger, the money supply fits
  128 bits, no nonce and no gas total can reach the 64-bit limit and the transactions fit the
  machine, then \<^verbatim>\<open>execute\<close> returns an output, and the ledger after it is the specified one.
\<close>

theorem execute_progress:
  assumes "spec_run (unat (base_fee_per_gas (block_header (bws_block b)))) (transfers b) (ledger_of p) = Some L"
    and "provider_ok p" and "total_balance p < 2 ^ 128"
    and "nonces_below (length (transfers b)) (ledger_of p)" and "block_gas b < 2 ^ 64"
    and "list_all (tx_fits (block_header (bws_block b))) (transactions (bws_block b))"
  shows "\<exists>out p'. execute c b p = (Ok out, p') \<and> ledger_of p' = L"
  using assms by (intro execute_complete) (auto simp: list_all_iff)

theorem execute_progress_witness:
  "\<exists>out p'. execute sample_crypto sample_block sample_provider = (Ok out, p') \<and> ledger_of p' = sample_ledger"
  by (rule execute_progress [OF sample_run sample_ok sample_bounds sample_fits])

text \<open>
  The output of a successful block: one receipt per executed transaction, in order, carrying
  that transaction's hash, index, parties, gas and effective price and the block's hash and number;
  the cumulative gas of the receipts are the running sums, and \<^verbatim>\<open>gas_used\<close> is their total, which
  fits 64 bits; the state root is the root of the accounts after the block.
\<close>

theorem execute_output:
  assumes "execute c b p = (Ok out, p')"
  shows "list_all2 (receipt_for c (block_header (bws_block b))) (indexed b) (out_receipts out) \<and>
    map (\<lambda>r. unat (cumulative_gas_used r)) (out_receipts out) =
      running 0 (map (\<lambda>r. unat (receipt_gas_used r)) (out_receipts out)) \<and>
    unat (out_gas_used out) = (\<Sum>r\<leftarrow>out_receipts out. unat (receipt_gas_used r)) \<and>
    out_logs_bloom out = zero_array \<and> compute_state_root c p' = Ok (out_state_root out)"
  using assms by (rule execute_OkE) (drule (1) loop_receipts_spec, auto)

theorem execute_output_witness:
  "\<exists>out p'. execute sample_crypto sample_block sample_provider = (Ok out, p') \<and>
     compute_state_root sample_crypto p' = Ok (out_state_root out) \<and> length (out_receipts out) = 1"
proof -
  obtain out p' where *: "execute sample_crypto sample_block sample_provider = (Ok out, p')"
    using sample_execute by blast
  have "length (indexed sample_block) = 1" by (simp add: indexed_def sample_block_def)
  with * execute_output [OF *] show ?thesis by (auto dest: list_all2_lengthD)
qed

text \<open>
  C38. How a block can fail. When the transactions' encodings exist, an error is a missing sender,
  a wrong nonce, a balance below the maximal cost, a fee error or an overflow; \<^verbatim>\<open>Underflow\<close>, signing,
  RLP and trie errors never occur. The executor panics only if the block creates a contract
  (\<^verbatim>\<open>todo!()\<close>).
\<close>

theorem execute_failures:
  assumes "provider_ok p"
    and "list_all (\<lambda>stx. encoded_len (wire_item stx) < 2 ^ 64) (transactions (bws_block b))"
  shows "case fst (execute c b p) of
      Ok _ \<Rightarrow> True
    | Err e \<Rightarrow> transfer_error e
    | Panic \<Rightarrow> \<exists>stx \<in> set (transactions (bws_block b)). tx_to (transaction stx) = None"
proof -
  let ?bh = "keccak256 c (rlp_bytes (header_to_rlp_item (block_header (bws_block b))))"
  have fits: "list_all (\<lambda>(i, stx, sender). encoded_len (wire_item stx) < 2 ^ 64) (indexed b)"
    using assms(2) by (auto simp: list_all_iff dest: indexed_txs)
  obtain r q where loop: "for_each (execute_transaction c (block_header (bws_block b)) ?bh)
      \<lparr>cumulative = 0, loop_receipts = [], loop_bloom = zero_array\<rparr> (indexed b) p = (r, q)"
    by fastforce
  show ?thesis
  proof (cases r)
    case (Ok ls)
    with execute_loop_Ok [OF _ hash_header_eq assms(1)] loop show ?thesis by fastforce
  next
    case (Err e)
    then have "fst (execute c b p) = Err e"
      using loop by (simp add: execute_def execute_loop_def indexed_def hash_header_eq then_do_def)
    then show ?thesis using loop_Err [OF _ fits] loop Err by simp
  next
    case Panic
    then have "execute c b p = (Panic, q)"
      using loop by (simp add: execute_def execute_loop_def indexed_def hash_header_eq then_do_def)
    then show ?thesis using execute_Panic [OF assms] by simp
  qed
qed

theorem execute_failures_witness:
  "fst (execute sample_crypto sample_block default_provider) = Err (AccountNotFound sample_sender) \<and>
   transfer_error (AccountNotFound sample_sender)"
proof -
  have e: "fst (execute sample_crypto sample_block default_provider) = Err (AccountNotFound sample_sender)"
    by (simp add: execute_def execute_loop_def sample_block_def hash_header_eq execute_transaction_def
        then_do_def Let_def get_account_def default_provider_def)
  have "list_all (\<lambda>stx. encoded_len (wire_item stx) < 2 ^ 64) (transactions (bws_block sample_block))"
    using sample_fits by (simp add: list_all_iff tx_fits_def)
  from execute_failures [OF default_provider_ok this, of sample_crypto] e show ?thesis by simp
qed

end
