(* ===== verification/Deposits.thy ===== *)
theory Deposits
  imports Executor
begin

text \<open>
  The code under the feature \<^verbatim>\<open>optimism\<close>, which is off by default: deposit transactions in \<^verbatim>\<open>transaction.rs\<close>,
  \<^verbatim>\<open>signing.rs\<close>, \<^verbatim>\<open>traits.rs\<close> and \<^verbatim>\<open>executor.rs\<close>. With the feature every function has one more case; the
  other cases are the functions of the default build. A deposit is credited by the executor, but its
  hash, its signature, its sender and its encoding are \<^verbatim>\<open>todo!()\<close>.
\<close>

section \<open>Transactions with deposits\<close>

datatype op_transaction =
    Plain transaction
  | is_Deposit: Deposit (source_hash: b256) (deposit_from: address) (deposit_to: "address option") (mint: u128)
      (deposit_value: u128) (deposit_gas_limit: u64) (deposit_data: bytes)

record op_signed_transaction =
  op_transaction :: op_transaction
  op_v :: u64
  op_r :: b256
  op_s :: b256

definition op_tx_type :: "op_transaction \<Rightarrow> (u8, transaction_error) outcome" where
  "op_tx_type tx = (case tx of Plain tx \<Rightarrow> tx_type tx | Deposit _ _ _ _ _ _ _ \<Rightarrow> Ok 0x7e)"

definition op_is_create :: "op_transaction \<Rightarrow> (bool, transaction_error) outcome" where
  "op_is_create tx = (case tx of Plain tx \<Rightarrow> is_create tx | Deposit _ _ to _ _ _ _ \<Rightarrow> Ok (to = None))"

definition op_effective_gas_price :: "op_transaction \<Rightarrow> u128 \<Rightarrow> (u128, transaction_error) outcome" where
  "op_effective_gas_price tx base_fee =
     (case tx of Plain tx \<Rightarrow> effective_gas_price tx base_fee | Deposit _ _ _ _ _ _ _ \<Rightarrow> Ok 0)"

definition op_max_cost :: "op_transaction \<Rightarrow> (u128, transaction_error) outcome" where
  "op_max_cost tx = (case tx of Plain tx \<Rightarrow> max_cost tx | Deposit _ _ _ _ _ _ _ \<Rightarrow> Ok 0)"

fun op_value_and_limit :: "op_transaction \<Rightarrow> u128 \<times> u64" where
  "op_value_and_limit (Plain tx) = (tx_value tx, tx_gas_limit tx)"
| "op_value_and_limit (Deposit _ _ _ _ value limit _) = (value, limit)"

fun op_summarise_loop :: "op_transaction list \<Rightarrow> u128 \<Rightarrow> u64 \<Rightarrow> usize \<Rightarrow>
    (u128 \<times> u64 \<times> usize, transaction_error) outcome" where
  "op_summarise_loop [] value limit creates = Ok (value, limit, creates)"
| "op_summarise_loop (tx # txs) value limit creates =
     and_then (ok_or TxOverflow (checked_add (fst (op_value_and_limit tx)) value)) (\<lambda>value'.
     and_then (ok_or TxOverflow (checked_add (snd (op_value_and_limit tx)) limit)) (\<lambda>limit'.
     and_then (op_is_create tx) (\<lambda>create.
     op_summarise_loop txs value' limit' (if create then creates + 1 else creates))))"

section \<open>Encoding and signing\<close>

definition op_transaction_to_rlp_item :: "op_transaction \<Rightarrow> (rlp_item, rlp_error) outcome" where
  "op_transaction_to_rlp_item tx =
     (case tx of Plain tx \<Rightarrow> Ok (transaction_to_rlp_item tx) | Deposit _ _ _ _ _ _ _ \<Rightarrow> Panic)"

text \<open>A signed transaction that is no deposit, as one of the default build.\<close>

definition plain_signed :: "transaction \<Rightarrow> op_signed_transaction \<Rightarrow> signed_transaction" where
  "plain_signed tx stx = \<lparr>transaction = tx, sig_v = op_v stx, sig_r = op_r stx, sig_s = op_s stx\<rparr>"

definition with_deposits :: "signed_transaction \<Rightarrow> op_signed_transaction" where
  "with_deposits stx =
     \<lparr>op_transaction = Plain (transaction stx), op_v = sig_v stx, op_r = sig_r stx, op_s = sig_s stx\<rparr>"

definition op_signed_transaction_hash :: "crypto \<Rightarrow> op_signed_transaction \<Rightarrow> (b256, signing_error) outcome" where
  "op_signed_transaction_hash c stx =
     (case op_transaction stx of
        Plain tx \<Rightarrow> signed_transaction_hash c (plain_signed tx stx)
      | Deposit _ _ _ _ _ _ _ \<Rightarrow> Panic)"

definition op_sign :: "crypto \<Rightarrow> op_transaction \<Rightarrow> bytes \<Rightarrow> u64 \<Rightarrow> (op_signed_transaction, signing_error) outcome" where
  "op_sign c tx key chain_id =
     (case tx of
        Plain tx \<Rightarrow> and_then (sign c tx key chain_id) (\<lambda>stx. Ok (with_deposits stx))
      | Deposit _ _ _ _ _ _ _ \<Rightarrow> Panic)"

definition op_recover_sender :: "crypto \<Rightarrow> op_signed_transaction \<Rightarrow> u64 \<Rightarrow> (address, signing_error) outcome" where
  "op_recover_sender c stx chain_id =
     (case op_transaction stx of
        Plain tx \<Rightarrow> recover_sender c (plain_signed tx stx) chain_id
      | Deposit _ _ _ _ _ _ _ \<Rightarrow> Panic)"

section \<open>Execution\<close>

definition execute_deposit ::
  "crypto \<Rightarrow> header \<Rightarrow> b256 \<Rightarrow> loop_state \<Rightarrow> nat \<times> op_signed_transaction \<times> address \<Rightarrow>
     (loop_state, execution_error, in_memory_provider) action" where
  "execute_deposit c hdr bhash ls = (\<lambda>(i, signed_tx, sender).
     let tx = op_transaction signed_tx in
     then_do (reading (\<lambda>p. get_account p sender)) (\<lambda>_.
     then_do (pure (map_err ExecTransaction (op_effective_gas_price tx (base_fee_per_gas hdr)))) (\<lambda>price.
     case deposit_to tx of
       None \<Rightarrow> pure Panic
     | Some recipient_address \<Rightarrow>
         then_do (reading (\<lambda>p. get_or_default p recipient_address)) (\<lambda>recipient.
         then_do (pure (ok_or ExecOverflow (checked_add (mint tx) (deposit_value tx)))) (\<lambda>amount.
         then_do (pure (ok_or ExecOverflow (checked_add (acc_balance recipient) amount))) (\<lambda>credited.
         then_do (mutate (set_account recipient_address (recipient\<lparr>acc_balance := credited\<rparr>))) (\<lambda>_.
         then_do (pure (map_err ExecSigning (op_signed_transaction_hash c signed_tx))) (\<lambda>tx_hash.
         pure (Ok \<lparr>cumulative = cumulative ls,
            loop_receipts = loop_receipts ls @
              [\<lparr>transaction_hash = tx_hash, transaction_index = of_nat i, block_hash = bhash,
                receipt_block_number = number hdr, receipt_from = deposit_from tx,
                receipt_to = deposit_to tx, contract_address = None, cumulative_gas_used = cumulative ls,
                receipt_effective_gas_price = price, receipt_gas_used = 0,
                status = True, logs = [], receipt_logs_bloom = zero_array\<rparr>],
            loop_bloom = bitor_assign (loop_bloom ls) zero_array\<rparr>)))))))))"

definition op_execute_transaction ::
  "crypto \<Rightarrow> header \<Rightarrow> b256 \<Rightarrow> loop_state \<Rightarrow> nat \<times> op_signed_transaction \<times> address \<Rightarrow>
     (loop_state, execution_error, in_memory_provider) action" where
  "op_execute_transaction c hdr bhash ls = (\<lambda>(i, signed_tx, sender).
     case op_transaction signed_tx of
       Plain tx \<Rightarrow> execute_transaction c hdr bhash ls (i, plain_signed tx signed_tx, sender)
     | Deposit _ _ _ _ _ _ _ \<Rightarrow> execute_deposit c hdr bhash ls (i, signed_tx, sender))"

record op_block_with_senders =
  op_header :: header
  op_transactions :: "op_signed_transaction list"
  op_senders :: "address list"

definition op_execute ::
  "crypto \<Rightarrow> op_block_with_senders \<Rightarrow> (execution_output, execution_error, in_memory_provider) action" where
  "op_execute c b =
     then_do (pure (map_err ExecRlp (hash_header c (op_header b)))) (\<lambda>bhash.
     then_do (for_each (op_execute_transaction c (op_header b) bhash)
       \<lparr>cumulative = 0, loop_receipts = [], loop_bloom = zero_array\<rparr>
       (zip [0..<length (op_transactions b)] (zip (op_transactions b) (op_senders b)))) (\<lambda>ls.
     then_do (reading (\<lambda>p. map_err RootCompute (compute_state_root c p))) (\<lambda>sroot.
     pure (Ok \<lparr>out_gas_used = cumulative ls, out_receipts = loop_receipts ls,
               out_logs_bloom = loop_bloom ls, out_state_root = sroot\<rparr>))))"

section \<open>Blocks without deposits\<close>

definition block_with_deposits :: "block_with_senders \<Rightarrow> op_block_with_senders" where
  "block_with_deposits b = \<lparr>op_header = block_header (bws_block b),
     op_transactions = map with_deposits (transactions (bws_block b)), op_senders = senders b\<rparr>"

lemma for_each_map: "for_each f acc (map g xs) = for_each (\<lambda>acc x. f acc (g x)) acc xs"
  by (induction xs arbitrary: acc) simp_all

text \<open>The feature changes nothing for them.\<close>

lemma op_execute_plain: "op_execute c (block_with_deposits b) = execute c b"
proof -
  have same: "op_execute_transaction c hdr bh ls (i, with_deposits stx, a) = execute_transaction c hdr bh ls (i, stx, a)"
    for hdr bh ls i stx a by (cases stx) (simp add: op_execute_transaction_def with_deposits_def plain_signed_def)
  have "zip is (zip (map with_deposits txs) as) = map (\<lambda>(i, stx, a). (i, with_deposits stx, a)) (zip is (zip txs as))"
    for "is" :: "nat list" and txs and as :: "address list"
    by (simp add: zip_map1 zip_map2 case_prod_unfold)
  then show ?thesis
    by (simp add: op_execute_def execute_def execute_loop_def block_with_deposits_def for_each_map case_prod_unfold same)
qed

lemma op_summarise_plain: "op_summarise_loop (map Plain txs) v l n = summarise_loop txs v l n"
  by (induction txs arbitrary: v l n) (simp_all add: op_is_create_def)

section \<open>Blocks with deposits\<close>

text \<open>A deposit that is executed is credited, and then the program panics.\<close>

lemma execute_deposit_credits:
  assumes "get_account p sender = Ok acc" and "op_transaction stx = Deposit src from (Some a) m v limit data"
    and "checked_add m v = Some amount" and "checked_add (acc_balance (unwrap_or (accounts p a) default_account)) amount = Some new"
  shows "op_execute_transaction c hdr bh ls (i, stx, sender) p =
    (Panic, set_account a ((unwrap_or (accounts p a) default_account)\<lparr>acc_balance := new\<rparr>) p)"
  using assms
  by (simp add: op_execute_transaction_def execute_deposit_def op_effective_gas_price_def then_do_def get_or_default_eq
      op_signed_transaction_hash_def)

lemma execute_deposit_fails:
  "is_Deposit (op_transaction stx) \<Longrightarrow> op_execute_transaction c hdr bh ls (i, stx, sender) p \<noteq> (Ok ls', p')"
  by (cases "op_transaction stx")
    (auto simp: op_execute_transaction_def execute_deposit_def Let_def outcome_iffs op_signed_transaction_hash_def
      split: option.splits)

lemma for_each_fails:
  "x \<in> set xs \<Longrightarrow> (\<And>acc p acc' p'. f acc x p \<noteq> (Ok acc', p')) \<Longrightarrow> for_each f acc xs p \<noteq> (Ok acc', p')"
  by (induction xs arbitrary: acc p) (auto simp: outcome_iffs)

text \<open>
  C32. With the feature \<^verbatim>\<open>optimism\<close> no block that contains a deposit is ever executed: the executor returns no output
  for it in any state, since the receipt of a deposit needs its hash, which is not implemented.
\<close>

theorem deposit_never_executes:
  assumes "length (op_senders b) = length (op_transactions b)"
    and "stx \<in> set (op_transactions b)" and "is_Deposit (op_transaction stx)"
  shows "fst (op_execute c b p) \<noteq> Ok out"
proof -
  obtain i where i: "i < length (op_transactions b)" "op_transactions b ! i = stx"
    using assms(2) by (auto simp: in_set_conv_nth)
  let ?xs = "zip [0..<length (op_transactions b)] (zip (op_transactions b) (op_senders b))"
  have "?xs ! i = (i, stx, op_senders b ! i)" "i < length ?xs" using i assms(1) by simp_all
  then have "(i, stx, op_senders b ! i) \<in> set ?xs" by (metis nth_mem)
  from for_each_fails [OF this, of "op_execute_transaction c (op_header b) bh" for bh]
  have "for_each (op_execute_transaction c (op_header b) bh) ls ?xs p \<noteq> (Ok ls', p')" for bh ls p ls' p'
    using execute_deposit_fails [OF assms(3)] by blast
  then have "op_execute c b p \<noteq> (Ok out, p')" for p' by (auto simp: op_execute_def outcome_iffs)
  then show ?thesis by (cases "op_execute c b p") auto
qed

definition sample_deposit_block :: op_block_with_senders where
  "sample_deposit_block =
     \<lparr>op_header = block_header (bws_block sample_block),
      op_transactions = [\<lparr>op_transaction = Deposit zero_array sample_sender (Some zero_array) 7 5 21000 [],
        op_v = 0, op_r = zero_array, op_s = zero_array\<rparr>],
      op_senders = [sample_sender]\<rparr>"

theorem deposit_never_executes_witness:
  "length (op_senders sample_deposit_block) = length (op_transactions sample_deposit_block) \<and>
   is_Deposit (op_transaction (hd (op_transactions sample_deposit_block))) \<and>
   (\<forall>out. fst (op_execute sample_crypto sample_deposit_block sample_provider) \<noteq> Ok out)"
  using deposit_never_executes [of sample_deposit_block "hd (op_transactions sample_deposit_block)"]
  by (simp add: sample_deposit_block_def)

end
