(* ===== verification/Validator.thy ===== *)
theory Validator
  imports Provider
begin

text \<open>
  The crate \<^verbatim>\<open>core/execution\<close>, file \<^verbatim>\<open>validator.rs\<close>: the trait \<^verbatim>\<open>ConsensusValidator\<close> as a locale, and
  its two implementations. What a successful validation means is stated once for the trait and
  refined by the strict validator.
\<close>

section \<open>The two validators\<close>

definition check_parent_hash :: "crypto \<Rightarrow> header \<Rightarrow> header \<Rightarrow> (unit, execution_error) outcome" where
  "check_parent_hash c hdr parent =
     and_then (map_err ExecRlp (hash_header c parent)) (\<lambda>parent_h.
     if parent_hash hdr \<noteq> parent_h then Err (InvalidParentHash parent_h (parent_hash hdr)) else Ok ())"

definition check_gas :: "header \<Rightarrow> (unit, execution_error) outcome" where
  "check_gas hdr =
     (if gas_used hdr > gas_limit hdr then Err (GasLimitExceeded (gas_limit hdr) (gas_used hdr)) else Ok ())"

definition check_body :: "usize \<Rightarrow> block \<Rightarrow> (unit, execution_error) outcome" where
  "check_body max_txs b =
     (if length (transactions b) > max_txs
      then Err (TooManyTransactions max_txs (length (transactions b))) else Ok ())"

definition basic_validate_header :: "crypto \<Rightarrow> header \<Rightarrow> header \<Rightarrow> (unit, execution_error) outcome" where
  "basic_validate_header c hdr parent =
     and_then (check_parent_hash c hdr parent) (\<lambda>_. check_gas hdr)"

definition basic_validate_body :: "usize \<Rightarrow> block \<Rightarrow> (unit, execution_error) outcome" where
  "basic_validate_body max_txs b = check_body max_txs b"

definition strict_validate_header :: "crypto \<Rightarrow> header \<Rightarrow> header \<Rightarrow> (unit, execution_error) outcome" where
  "strict_validate_header c hdr parent =
     and_then (check_parent_hash c hdr parent) (\<lambda>_.
     and_then (ok_or ExecOverflow (checked_add (number parent) 1)) (\<lambda>actual_block_number.
     if number hdr \<noteq> actual_block_number
     then Err (InvalidBlockNumber actual_block_number (number hdr))
     else check_gas hdr))"

definition strict_validate_body :: "usize \<Rightarrow> block \<Rightarrow> (unit, execution_error) outcome" where
  "strict_validate_body max_txs b = check_body max_txs b"

section \<open>The contract of the trait\<close>

locale consensus_validator =
  fixes c :: crypto and max_txs :: usize
    and validate_header :: "header \<Rightarrow> header \<Rightarrow> (unit, execution_error) outcome"
    and validate_body :: "block \<Rightarrow> (unit, execution_error) outcome"
  assumes header_sound: "validate_header hdr parent = Ok () \<Longrightarrow>
      hash_header c parent = Ok (parent_hash hdr) \<and> gas_used hdr \<le> gas_limit hdr"
    and body_sound: "validate_body b = Ok () \<longleftrightarrow> length (transactions b) \<le> max_txs"
    and not_Panic: "validate_header hdr parent \<noteq> Panic" "validate_body b \<noteq> Panic"
begin

text \<open>Two accepted parents of one header have the same hash: the parent is named, not guessed.\<close>

lemma parent_unique_hash:
  "validate_header hdr p1 = Ok () \<Longrightarrow> validate_header hdr p2 = Ok () \<Longrightarrow> hash_header c p1 = hash_header c p2"
  using header_sound by metis

end

locale numbering_validator = consensus_validator +
  assumes header_number: "validate_header hdr parent = Ok () \<Longrightarrow> unat (number hdr) = unat (number parent) + 1"
begin

lemma number_increases: "validate_header hdr parent = Ok () \<Longrightarrow> number parent < number hdr"
  using header_number by (fastforce simp: word_less_nat_alt)

end

lemma check_parent_hash_Ok: "check_parent_hash c hdr parent = Ok () \<longleftrightarrow> hash_header c parent = Ok (parent_hash hdr)"
  by (auto simp: check_parent_hash_def outcome_iffs)

lemma check_gas_Ok: "check_gas hdr = Ok () \<longleftrightarrow> gas_used hdr \<le> gas_limit hdr"
  by (auto simp: check_gas_def)

lemma checks_not_Panic [simp]:
  "check_parent_hash c hdr parent \<noteq> Panic" "check_gas hdr \<noteq> Panic" "check_body m b \<noteq> Panic"
  by (auto simp: check_parent_hash_def check_gas_def check_body_def outcome_iffs hash_header_eq)

interpretation basic: consensus_validator c max_txs "basic_validate_header c" "basic_validate_body max_txs"
  for c max_txs
  by unfold_locales
     (auto simp: basic_validate_header_def basic_validate_body_def outcome_iffs check_parent_hash_Ok
      check_gas_Ok check_body_def)

interpretation strict: numbering_validator c max_txs "strict_validate_header c" "strict_validate_body max_txs"
  for c max_txs
  by unfold_locales
     (auto simp: strict_validate_header_def strict_validate_body_def outcome_iffs check_parent_hash_Ok
      check_gas_Ok check_body_def checked_add_eq_Some split: if_splits)

text \<open>
  The strict validator accepts exactly the headers that name their parent's hash, carry the next
  number (with no wrap at \<open>2 ^ 64\<close>) and stay within the gas limit, and everything it accepts the
  basic validator accepts too.
\<close>

theorem strict_validate_header_iff:
  "(strict_validate_header c hdr parent = Ok () \<longleftrightarrow>
      hash_header c parent = Ok (parent_hash hdr) \<and> unat (number hdr) = unat (number parent) + 1 \<and>
      gas_used hdr \<le> gas_limit hdr) \<and>
   (strict_validate_header c hdr parent = Ok () \<longrightarrow> basic_validate_header c hdr parent = Ok ())"
proof -
  have "unat (number hdr) < 2 ^ 64" using unsigned_less [of "number hdr", where ?'a = nat] by simp
  then show ?thesis
    by (auto simp: strict_validate_header_def basic_validate_header_def outcome_iffs check_parent_hash_Ok
        check_gas_Ok checked_add_eq_Some word_unat_eq_iff split: if_splits)
qed

theorem strict_validate_header_iff_witness:
  "basic_validate_header sample_crypto
     ((genesis_header \<lparr>gc_chain_id = 1, gc_accounts = [], genesis_timestamp = 0\<rparr>)
        \<lparr>number := 1, parent_hash := keccak256 sample_crypto (rlp_bytes (header_to_rlp_item
          (genesis_header \<lparr>gc_chain_id = 1, gc_accounts = [], genesis_timestamp = 0\<rparr>)))\<rparr>)
     (genesis_header \<lparr>gc_chain_id = 1, gc_accounts = [], genesis_timestamp = 0\<rparr>) = Ok ()"
proof -
  let ?g = "genesis_header \<lparr>gc_chain_id = 1, gc_accounts = [], genesis_timestamp = 0\<rparr>"
  let ?h = "?g\<lparr>number := 1, parent_hash := keccak256 sample_crypto (rlp_bytes (header_to_rlp_item ?g))\<rparr>"
  have "hash_header sample_crypto ?g = Ok (parent_hash ?h)" by (simp add: hash_header_eq)
  moreover have "unat (number ?h) = unat (number ?g) + 1" "gas_used ?h \<le> gas_limit ?h"
    by (simp_all add: genesis_header_def)
  ultimately show ?thesis
    using strict_validate_header_iff [of sample_crypto ?h ?g] by blast
qed

end
