(* ===== verification/Pipeline.thy ===== *)
theory Pipeline
  imports Executor Validator
begin

text \<open>
  The crate \<^verbatim>\<open>core/execution\<close>, file \<^verbatim>\<open>pipeline.rs\<close>: look up the parent, validate, open a journal,
  execute, and commit or roll back. \<^verbatim>\<open>Pipeline\<close> is generic in the validator and the executor; the
  model takes their methods as arguments, the locale \<open>block_executor\<close> states what the pipeline needs of
  an executor, and the value transfer executor provides it.
\<close>

section \<open>The pipeline\<close>

type_synonym 'out executor =
  "block_with_senders \<Rightarrow> ('out, execution_error, in_memory_provider) action"

text \<open>A panic of the executor unwinds through the pipeline: neither rollback nor commit runs.\<close>

definition settle ::
  "('out, execution_error) outcome \<times> in_memory_provider \<Rightarrow> ('out, execution_error) outcome \<times> in_memory_provider" where
  "settle result =
     (case result of
        (Ok out, p) \<Rightarrow> (Ok out, commit_journal p)
      | (Err e, p) \<Rightarrow> (Err e, rollback_journal p)
      | (Panic, p) \<Rightarrow> (Panic, p))"

definition pipeline_execute ::
  "(header \<Rightarrow> header \<Rightarrow> (unit, execution_error) outcome) \<Rightarrow> (block \<Rightarrow> (unit, execution_error) outcome) \<Rightarrow>
     'out executor \<Rightarrow> 'out executor" where
  "pipeline_execute validate_header validate_body exec b =
     then_do (reading (\<lambda>p. get_header_by_hash p (parent_hash (block_header (bws_block b))))) (\<lambda>parent_header.
     then_do (pure (validate_header (block_header (bws_block b)) parent_header)) (\<lambda>_.
     then_do (pure (validate_body (bws_block b))) (\<lambda>_.
     then_do begin_journal (\<lambda>_.
     \<lambda>p. settle (exec b p)))))"

section \<open>What the pipeline needs of an executor\<close>

text \<open>Everything of a provider that execution must not touch.\<close>

definition same_chain :: "in_memory_provider \<Rightarrow> in_memory_provider \<Rightarrow> bool" where
  "same_chain p q \<longleftrightarrow> blocks q = blocks p \<and> blocks_by_hash q = blocks_by_hash p \<and>
     tx_store q = tx_store p \<and> receipts q = receipts p \<and> storage q = storage p"

locale block_executor =
  fixes exec :: "'out executor"
  assumes keeps_journal: "keeps (journal_of orig) (exec b)"
    and keeps_ok: "keeps provider_ok (exec b)"
    and keeps_chain: "keeps (same_chain p) (exec b)"

locale validated_executor = consensus_validator + block_executor
begin

lemma begin_journal_iff: "begin_journal p = (Ok x, q) \<longleftrightarrow> journal p = None \<and> q = p\<lparr>journal := Some []\<rparr>"
  by (auto simp: begin_journal_def)

lemma exec_journal:
  assumes "journal p = None" and "exec b (p\<lparr>journal := Some []\<rparr>) = (r, q)"
  shows "journal_of (accounts p) q" and "same_chain p q"
  using keepsD [OF keeps_journal journal_of_begin [OF assms(1)], of b] assms(2)
    keepsD [OF keeps_chain [of p], of "p\<lparr>journal := Some []\<rparr>" b]
  by (simp_all add: same_chain_def)

text \<open>Success: the parent was found, both validations passed, and the executor's writes are kept.\<close>

lemma pipeline_Ok:
  assumes "journal p = None" and "pipeline_execute validate_header validate_body exec b p = (Ok out, p')"
  obtains parent q where
    "get_header_by_hash p (parent_hash (block_header (bws_block b))) = Ok parent"
    "hash_header c parent = Ok (parent_hash (block_header (bws_block b)))"
    "validate_header (block_header (bws_block b)) parent = Ok ()"
    "gas_used (block_header (bws_block b)) \<le> gas_limit (block_header (bws_block b))"
    "length (transactions (bws_block b)) \<le> max_txs"
    "exec b (p\<lparr>journal := Some []\<rparr>) = (Ok out, q)" "p' = commit_journal q" "same_chain p p'"
  using assms header_sound body_sound exec_journal(2) [OF assms(1)]
  by (fastforce simp: pipeline_execute_def outcome_iffs begin_journal_iff settle_def same_chain_def
      commit_journal_def split: prod.splits outcome.splits)

text \<open>Failure: nothing is left of the block.\<close>

lemma pipeline_Err:
  assumes "journal p = None" and "pipeline_execute validate_header validate_body exec b p = (Err e, p')"
  shows "accounts p' = accounts p" and "journal p' = None" and "same_chain p p'"
proof -
  from assms consider "p' = p" | q where "exec b (p\<lparr>journal := Some []\<rparr>) = (Err e, q)" "p' = rollback_journal q"
    by (auto simp: pipeline_execute_def then_do_Err_iff begin_journal_iff settle_def begin_journal_def
        split: prod.splits outcome.splits)
  then have "accounts p' = accounts p \<and> journal p' = None \<and> same_chain p p'"
  proof cases
    case 1
    then show ?thesis using assms(1) by (simp add: same_chain_def)
  next
    case (2 q)
    with exec_journal [OF assms(1)] show ?thesis by (auto simp: accounts_rollback same_chain_def)
  qed
  then show "accounts p' = accounts p" "journal p' = None" "same_chain p p'" by simp_all
qed

text \<open>Panic: only the executor can panic, and its writes stay in place under the open journal.\<close>

lemma pipeline_Panic:
  assumes "journal p = None" and "pipeline_execute validate_header validate_body exec b p = (Panic, p')"
  shows "exec b (p\<lparr>journal := Some []\<rparr>) = (Panic, p')" and "journal_of (accounts p) p'" and "same_chain p p'"
proof -
  show run: "exec b (p\<lparr>journal := Some []\<rparr>) = (Panic, p')"
    using assms not_Panic memory_reader.not_Panic(4)
    by (auto simp: pipeline_execute_def then_do_Panic_iff begin_journal_iff begin_journal_def settle_def
        split: prod.splits outcome.splits)
  show "journal_of (accounts p) p'" "same_chain p p'" by (rule exec_journal [OF assms(1) run])+
qed

lemma pipeline_ok: "provider_ok p \<Longrightarrow> provider_ok (snd (pipeline_execute validate_header validate_body exec b p))"
proof -
  have "keeps provider_ok begin_journal" by (rule keepsI) (rule provider_ok_ops)
  moreover have "keeps provider_ok (\<lambda>p. settle (exec b p))"
    by (rule keepsI, drule keepsD [OF keeps_ok, of _ b])
       (auto simp: settle_def provider_ok_ops split: prod.split outcome.split)
  ultimately have "keeps provider_ok (pipeline_execute validate_header validate_body exec b)"
    unfolding pipeline_execute_def by (intro keeps_then_do keeps_pure keeps_reading)
  then show "provider_ok p \<Longrightarrow> provider_ok (snd (pipeline_execute validate_header validate_body exec b p))"
    by (rule keepsD)
qed

lemma pipeline_busy:
  "journal p \<noteq> None \<Longrightarrow>
     \<exists>r. pipeline_execute validate_header validate_body exec b p = (r, p) \<and> (\<forall>out. r \<noteq> Ok out)"
  by (auto simp: pipeline_execute_def then_do_def begin_journal_def split: prod.splits outcome.splits)

end

interpretation value_transfer: block_executor "execute c" for c
proof unfold_locales
  show "keeps (same_chain p) (execute c b)" for p b by (rule execute_keeps) (simp add: same_chain_def)
qed (simp_all add: execute_keeps_journal execute_keeps_ok)

interpretation strict_transfers: validated_executor c max_txs "strict_validate_header c"
    "strict_validate_body max_txs" "execute c" for c max_txs
  by unfold_locales

interpretation basic_transfers: validated_executor c max_txs "basic_validate_header c"
    "basic_validate_body max_txs" "execute c" for c max_txs
  by unfold_locales

text \<open>The pipeline as the programs instantiate it.\<close>

abbreviation strict_pipeline :: "crypto \<Rightarrow> usize \<Rightarrow> execution_output executor" where
  "strict_pipeline c max_txs \<equiv>
     pipeline_execute (strict_validate_header c) (strict_validate_body max_txs) (execute c)"

lemma ledger_of_journal [simp]: "ledger_of (p\<lparr>journal := j\<rparr>) = ledger_of p"
  by (simp add: ledger_of_def fun_eq_iff)

lemma ledger_of_commit [simp]: "ledger_of (commit_journal p) = ledger_of p"
  by (simp add: commit_journal_def)

section \<open>A sample chain\<close>

definition sample_child :: block_with_senders where
  "sample_child = sample_block\<lparr>bws_block := (bws_block sample_block)\<lparr>block_header :=
     (block_header (bws_block sample_block))\<lparr>number := 1, parent_hash :=
       keccak256 sample_crypto (rlp_bytes (header_to_rlp_item (block_header (bws_block sample_block))))\<rparr>\<rparr>\<rparr>"

definition sample_chain :: in_memory_provider where
  "sample_chain = sample_provider\<lparr>blocks := [(0, bws_block sample_block)],
     blocks_by_hash := [(parent_hash (block_header (bws_block sample_child)), 0)]\<rparr>"

lemma sample_chain_state [simp]: "state sample_chain = state sample_provider" "journal sample_chain = None"
  by (simp_all add: sample_chain_def sample_provider_def default_provider_def)

lemma sample_child_header:
  "get_header_by_hash sample_chain (parent_hash (block_header (bws_block sample_child))) =
     Ok (block_header (bws_block sample_block))"
  by (simp add: getter_defs sample_chain_def)

lemma sample_child_valid:
  "strict_validate_header sample_crypto (block_header (bws_block sample_child))
     (block_header (bws_block sample_block)) = Ok ()"
  by (simp add: strict_validate_header_def check_parent_hash_def check_gas_def hash_header_eq sample_child_def
      sample_block_def genesis_header_def checked_add_def)

lemma sample_child_execute:
  "\<exists>out q. execute sample_crypto sample_child (sample_chain\<lparr>journal := Some []\<rparr>) = (Ok out, q)"
proof -
  have tr: "transfers sample_child = transfers sample_block" "block_gas sample_child = block_gas sample_block"
    "transactions (bws_block sample_child) = transactions (bws_block sample_block)"
    by (simp_all add: transfers_def block_gas_def sample_child_def)
  have L: "ledger_of (sample_chain\<lparr>journal := Some []\<rparr>) = ledger_of sample_provider"
    by (simp add: ledger_of_def fun_eq_iff)
  have "provider_ok (sample_chain\<lparr>journal := Some []\<rparr>)"
    by (simp add: provider_ok_def sample_chain_def sample_provider_def default_provider_def)
  moreover have "total_balance (sample_chain\<lparr>journal := Some []\<rparr>) < 2 ^ 128"
    using sample_bounds(1) by (simp add: total_balance_def)
  ultimately show ?thesis
    using execute_complete [of sample_child "sample_chain\<lparr>journal := Some []\<rparr>" sample_ledger sample_crypto]
      sample_run sample_bounds(2,3) sample_fits by (auto simp: tr L list_all_iff simp del: ledger_of_journal)
qed

lemma sample_child_body: "strict_validate_body 10 (bws_block sample_child) = Ok ()"
  by (simp add: strict_validate_body_def check_body_def sample_child_def sample_block_def)

lemma sample_pipeline:
  "\<exists>out p'. pipeline_execute (strict_validate_header sample_crypto) (strict_validate_body 10)
     (execute sample_crypto) sample_child sample_chain = (Ok out, p')"
  using sample_child_execute
  by (auto simp: pipeline_execute_def then_do_def sample_child_header sample_child_valid sample_child_body
      begin_journal_def settle_def)

text \<open>The same block with its transaction's recipient removed.\<close>

definition sample_creation :: block_with_senders where
  "sample_creation = sample_child\<lparr>bws_block := (bws_block sample_child)\<lparr>transactions :=
     map (\<lambda>stx. stx\<lparr>transaction := Legacy 0 2 21000 None 5 []\<rparr>) (transactions (bws_block sample_child))\<rparr>\<rparr>"

lemma sample_creation_panics:
  "\<exists>p'. pipeline_execute (strict_validate_header sample_crypto) (strict_validate_body 10)
     (execute sample_crypto) sample_creation sample_chain = (Panic, p')"
proof -
  have price: "max_cost (Legacy 0 2 21000 None 5 []) = Ok 42005"
    "effective_gas_price (Legacy 0 2 21000 None 5 []) fee = Ok 2" for fee
    by (simp_all add: max_cost_def cost_at_def effective_gas_price_def checked_mul_def checked_add_def Let_def)
  have "\<exists>q. execute sample_crypto sample_creation (sample_chain\<lparr>journal := Some []\<rparr>) = (Panic, q)"
    by (simp add: sample_creation_def sample_child_def sample_block_def execute_def execute_loop_def indexed_def
        hash_header_eq execute_transaction_def then_do_def Let_def get_account_def sample_provider_def price
        checked_mul_def checked_add_def checked_sub_def)
  moreover have "block_header (bws_block sample_creation) = block_header (bws_block sample_child)"
    "strict_validate_body 10 (bws_block sample_creation) = Ok ()"
    by (simp_all add: sample_creation_def strict_validate_body_def check_body_def sample_child_def sample_block_def)
  ultimately show ?thesis
    by (auto simp: pipeline_execute_def then_do_def sample_child_header sample_child_valid begin_journal_def settle_def)
qed

section \<open>Properties\<close>



end
