(* ===== verification/Message.thy ===== *)
theory Message
  imports Rlp_Traits
begin

text \<open>
  The crate \<^verbatim>\<open>core/networking\<close>, files \<^verbatim>\<open>constants.rs\<close>, \<^verbatim>\<open>chain.rs\<close> and \<^verbatim>\<open>message.rs\<close>: the messages peers
  exchange and their RLP form. A Rust \<^verbatim>\<open>String\<close> is a byte string that is well-formed UTF-8, which is
  what \<^verbatim>\<open>str::from_utf8\<close> checks.
\<close>

section \<open>Strings\<close>

definition continuation :: "u8 \<Rightarrow> bool" where
  "continuation b \<longleftrightarrow> 0x80 \<le> b \<and> b \<le> 0xBF"

text \<open>The ranges of the second byte of three- and four-byte sequences: no overlong forms, no surrogates.\<close>

definition second_of_three :: "u8 \<Rightarrow> u8 \<Rightarrow> bool" where
  "second_of_three b c \<longleftrightarrow> continuation c \<and> (b = 0xE0 \<longrightarrow> 0xA0 \<le> c) \<and> (b = 0xED \<longrightarrow> c \<le> 0x9F)"

definition second_of_four :: "u8 \<Rightarrow> u8 \<Rightarrow> bool" where
  "second_of_four b c \<longleftrightarrow> continuation c \<and> (b = 0xF0 \<longrightarrow> 0x90 \<le> c) \<and> (b = 0xF4 \<longrightarrow> c \<le> 0x8F)"

fun is_utf8 :: "bytes \<Rightarrow> bool" where
  "is_utf8 [] = True"
| "is_utf8 (b # bs) =
     (if b < 0x80 then is_utf8 bs
      else case bs of
        [] \<Rightarrow> False
      | c # cs \<Rightarrow>
          if 0xC2 \<le> b \<and> b \<le> 0xDF then continuation c \<and> is_utf8 cs
          else case cs of
            [] \<Rightarrow> False
          | d # ds \<Rightarrow>
              if 0xE0 \<le> b \<and> b \<le> 0xEF then second_of_three b c \<and> continuation d \<and> is_utf8 ds
              else case ds of
                [] \<Rightarrow> False
              | e # es \<Rightarrow>
                  0xF0 \<le> b \<and> b \<le> 0xF4 \<and> second_of_four b c \<and> continuation d \<and> continuation e \<and>
                  is_utf8 es)"

typedef rust_string = "{bs. is_utf8 bs}"
  morphisms string_bytes Abs_rust_string
  by (rule exI [of _ "[]"]) simp

definition from_utf8 :: "bytes \<Rightarrow> rust_string option" where
  "from_utf8 bs = (if is_utf8 bs then Some (Abs_rust_string bs) else None)"

lemma from_utf8_string_bytes [simp]: "from_utf8 (string_bytes s) = Some s"
  using string_bytes [of s] by (simp add: from_utf8_def string_bytes_inverse)

lemma from_utf8_Some_iff: "from_utf8 bs = Some s \<longleftrightarrow> bs = string_bytes s"
  using string_bytes [of s] by (auto simp: from_utf8_def Abs_rust_string_inverse string_bytes_inverse)

text \<open>A string literal of the source, which is ASCII.\<close>

definition ascii :: "string \<Rightarrow> bytes" where
  "ascii s = map (\<lambda>ch. of_nat (of_char ch)) s"

section \<open>Tags (constants.rs)\<close>

definition MSG_PING :: u8 where "MSG_PING = 0x00"
definition MSG_PONG :: u8 where "MSG_PONG = 0x01"
definition MSG_STATUS :: u8 where "MSG_STATUS = 0x02"
definition MSG_TRANSACTIONS :: u8 where "MSG_TRANSACTIONS = 0x03"
definition MSG_GET_BLOCK_HEADERS :: u8 where "MSG_GET_BLOCK_HEADERS = 0x04"
definition MSG_NEW_BLOCK :: u8 where "MSG_NEW_BLOCK = 0x07"
definition MSG_NEW_BLOCK_HASHES :: u8 where "MSG_NEW_BLOCK_HASHES = 0x08"
definition MSG_BLOCK_HEADERS :: u8 where "MSG_BLOCK_HEADERS = 0x09"
definition MSG_DISCONNECT :: u8 where "MSG_DISCONNECT = 0x0a"
definition MSG_GET_ACCOUNT_STATE :: u8 where "MSG_GET_ACCOUNT_STATE = 0x0b"
definition MSG_ACCOUNT_STATE :: u8 where "MSG_ACCOUNT_STATE = 0x0c"
definition MSG_GET_CHAIN_HEAD :: u8 where "MSG_GET_CHAIN_HEAD = 0x0d"
definition MSG_CHAIN_HEAD :: u8 where "MSG_CHAIN_HEAD = 0x0e"

lemmas tag_defs = MSG_PING_def MSG_PONG_def MSG_STATUS_def MSG_TRANSACTIONS_def MSG_GET_BLOCK_HEADERS_def
  MSG_NEW_BLOCK_def MSG_NEW_BLOCK_HASHES_def MSG_BLOCK_HEADERS_def MSG_DISCONNECT_def
  MSG_GET_ACCOUNT_STATE_def MSG_ACCOUNT_STATE_def MSG_GET_CHAIN_HEAD_def MSG_CHAIN_HEAD_def

section \<open>Announcements (chain.rs)\<close>

record block_announcement =
  ann_hash :: b256
  ann_number :: u64

definition announcement_to_rlp_item :: "block_announcement \<Rightarrow> rlp_item" where
  "announcement_to_rlp_item a = List [b256_to_rlp_item (ann_hash a), u64_to_rlp_item (ann_number a)]"

definition announcement_from_rlp_item :: "rlp_item \<Rightarrow> (block_announcement, rlp_error) outcome" where
  "announcement_from_rlp_item item =
     (case item of
        Bytes _ \<Rightarrow> Err (UnexpectedType 0x80)
      | List x \<Rightarrow>
          if length x \<noteq> 2 then Err (InvalidLength (length x))
          else
            and_then (field_of b256_from_rlp_item x 0) (\<lambda>hash.
            and_then (field_of u64_from_rlp_item x 1) (\<lambda>num.
            Ok \<lparr>ann_hash = hash, ann_number = num\<rparr>)))"

interpretation announcement_rlp: rlp_codable announcement_to_rlp_item announcement_from_rlp_item
  by unfold_locales
     (simp_all add: announcement_to_rlp_item_def announcement_from_rlp_item_def codec codec_no_panic
      outcome_iffs split: rlp_item.split)

lemmas [codec] = announcement_rlp.from_to announcement_rlp.decode_list_of_map
  tx_rlp.decode_list_of_map header_rlp.decode_list_of_map block_rlp.from_to

section \<open>Messages (message.rs)\<close>

datatype message =
    Ping
  | Pong
  | Status (msg_chain_id: u64) (msg_head_hash: b256) (msg_total_difficulty: u128)
  | Transactions (msg_txs: "transaction list")
  | GetBlockHeaders (msg_start_hash: b256) (msg_count: u64)
  | NewBlock (msg_block: block) (msg_td: u128)
  | NewBlockHashes (msg_new_blocks: "block_announcement list")
  | BlockHeaders (msg_headers: "header list")
  | Disconnect (msg_reason: rust_string)
  | GetAccountState (msg_address: address)
  | AccountState (msg_state_address: address) (msg_nonce: u64) (msg_balance: u128)
  | GetChainHead
  | ChainHead (msg_number: u64) (msg_hash: b256) (msg_head_difficulty: u128)

definition tag_item :: "u8 \<Rightarrow> rlp_item" where
  "tag_item tag = u64_to_rlp_item (ucast tag)"

definition message_to_rlp_item :: "message \<Rightarrow> rlp_item" where
  "message_to_rlp_item m =
     (case m of
        Ping \<Rightarrow> List [tag_item MSG_PING]
      | Pong \<Rightarrow> List [tag_item MSG_PONG]
      | Status chain_id hash td \<Rightarrow>
          List [tag_item MSG_STATUS, u64_to_rlp_item chain_id, b256_to_rlp_item hash,
                u128_to_rlp_item td]
      | Transactions txs \<Rightarrow>
          List [tag_item MSG_TRANSACTIONS, List (map transaction_to_rlp_item txs)]
      | GetBlockHeaders start_hash count \<Rightarrow>
          List [tag_item MSG_GET_BLOCK_HEADERS, b256_to_rlp_item start_hash, u64_to_rlp_item count]
      | NewBlock block td \<Rightarrow>
          List [tag_item MSG_NEW_BLOCK, block_to_rlp_item block, u128_to_rlp_item td]
      | NewBlockHashes new_blocks \<Rightarrow>
          List [tag_item MSG_NEW_BLOCK_HASHES, List (map announcement_to_rlp_item new_blocks)]
      | BlockHeaders headers \<Rightarrow>
          List [tag_item MSG_BLOCK_HEADERS, List (map header_to_rlp_item headers)]
      | Disconnect reason \<Rightarrow> List [tag_item MSG_DISCONNECT, Bytes (string_bytes reason)]
      | GetAccountState a \<Rightarrow> List [tag_item MSG_GET_ACCOUNT_STATE, address_to_rlp_item a]
      | AccountState a nonce balance \<Rightarrow>
          List [tag_item MSG_ACCOUNT_STATE, address_to_rlp_item a, u64_to_rlp_item nonce,
                u128_to_rlp_item balance]
      | GetChainHead \<Rightarrow> List [tag_item MSG_GET_CHAIN_HEAD]
      | ChainHead num hash td \<Rightarrow>
          List [tag_item MSG_CHAIN_HEAD, u64_to_rlp_item num, b256_to_rlp_item hash,
                u128_to_rlp_item td])"

text \<open>The reason of a \<^verbatim>\<open>Disconnect\<close>: bytes that must be UTF-8.\<close>

definition string_from_rlp_item :: "rlp_item \<Rightarrow> (rust_string, rlp_error) outcome" where
  "string_from_rlp_item item =
     (case item of
        List _ \<Rightarrow> Err (UnexpectedType 0xc0)
      | Bytes b \<Rightarrow> ok_or InvalidString (from_utf8 b))"

text \<open>The guard with which every arm begins.\<close>

definition with_len :: "rlp_item list \<Rightarrow> usize \<Rightarrow> ('a, rlp_error) outcome \<Rightarrow> ('a, rlp_error) outcome" where
  "with_len x n body = (if length x \<noteq> n then Err (InvalidLength (length x)) else body)"

definition message_from_rlp_item :: "rlp_item \<Rightarrow> (message, rlp_error) outcome" where
  "message_from_rlp_item item =
     (case item of
        Bytes _ \<Rightarrow> Err (UnexpectedType 0x80)
      | List x \<Rightarrow>
          if x = [] then Err (InvalidLength 0)
          else
            and_then (field_of u64_from_rlp_item x 0) (\<lambda>t.
            let tag = ucast t :: u8 in
            if tag = MSG_PING then with_len x 1 (Ok Ping)
            else if tag = MSG_PONG then with_len x 1 (Ok Pong)
            else if tag = MSG_STATUS then with_len x 4
              (and_then (field_of u64_from_rlp_item x 1) (\<lambda>chain_id.
               and_then (field_of b256_from_rlp_item x 2) (\<lambda>hash.
               and_then (field_of u128_from_rlp_item x 3) (\<lambda>td.
               Ok (Status chain_id hash td)))))
            else if tag = MSG_TRANSACTIONS then with_len x 2
              (and_then (field_of (decode_list_of transaction_from_rlp_item) x 1) (\<lambda>txs.
               Ok (Transactions txs)))
            else if tag = MSG_GET_BLOCK_HEADERS then with_len x 3
              (and_then (field_of b256_from_rlp_item x 1) (\<lambda>start_hash.
               and_then (field_of u64_from_rlp_item x 2) (\<lambda>count.
               Ok (GetBlockHeaders start_hash count))))
            else if tag = MSG_NEW_BLOCK then with_len x 3
              (and_then (field_of block_from_rlp_item x 1) (\<lambda>block.
               and_then (field_of u128_from_rlp_item x 2) (\<lambda>td.
               Ok (NewBlock block td))))
            else if tag = MSG_NEW_BLOCK_HASHES then with_len x 2
              (and_then (field_of (decode_list_of announcement_from_rlp_item) x 1) (\<lambda>new_blocks.
               Ok (NewBlockHashes new_blocks)))
            else if tag = MSG_BLOCK_HEADERS then with_len x 2
              (and_then (field_of (decode_list_of header_from_rlp_item) x 1) (\<lambda>headers.
               Ok (BlockHeaders headers)))
            else if tag = MSG_DISCONNECT then with_len x 2
              (and_then (field_of string_from_rlp_item x 1) (\<lambda>reason. Ok (Disconnect reason)))
            else if tag = MSG_GET_ACCOUNT_STATE then with_len x 2
              (and_then (field_of address_from_rlp_item x 1) (\<lambda>a. Ok (GetAccountState a)))
            else if tag = MSG_ACCOUNT_STATE then with_len x 4
              (and_then (field_of address_from_rlp_item x 1) (\<lambda>a.
               and_then (field_of u64_from_rlp_item x 2) (\<lambda>nonce.
               and_then (field_of u128_from_rlp_item x 3) (\<lambda>balance.
               Ok (AccountState a nonce balance)))))
            else if tag = MSG_GET_CHAIN_HEAD then with_len x 1 (Ok GetChainHead)
            else if tag = MSG_CHAIN_HEAD then with_len x 4
              (and_then (field_of u64_from_rlp_item x 1) (\<lambda>num.
               and_then (field_of b256_from_rlp_item x 2) (\<lambda>hash.
               and_then (field_of u128_from_rlp_item x 3) (\<lambda>td.
               Ok (ChainHead num hash td)))))
            else Err (UnexpectedType tag)))"

section \<open>Decoding what was encoded\<close>

lemma tag_item_decodes [codec]: "u64_from_rlp_item (tag_item tag) = Ok (ucast tag)"
  by (simp add: tag_item_def codec)

lemma ucast_tag: "ucast (ucast (tag :: u8) :: u64) = tag"
  by (rule bit_word_eqI) (simp add: bit_simps)

lemma string_from_to [codec]: "string_from_rlp_item (Bytes (string_bytes s)) = Ok s"
  by (simp add: string_from_rlp_item_def)

lemma string_not_Panic [simp]: "string_from_rlp_item item \<noteq> Panic"
  by (simp add: string_from_rlp_item_def split: rlp_item.split)

lemma with_len_not_Panic: "(length x = n \<Longrightarrow> body \<noteq> Panic) \<Longrightarrow> with_len x n body \<noteq> Panic"
  by (simp add: with_len_def)

lemmas list_not_Panic = tx_rlp.decode_list_of_not_Panic announcement_rlp.decode_list_of_not_Panic
  header_rlp.decode_list_of_not_Panic

interpretation message_rlp: rlp_codable message_to_rlp_item message_from_rlp_item
proof
  show "message_from_rlp_item (message_to_rlp_item m) = Ok m" for m
    by (cases m)
       (simp_all add: message_to_rlp_item_def message_from_rlp_item_def codec Let_def ucast_tag
        with_len_def, simp_all add: tag_defs)
  show "message_from_rlp_item item \<noteq> Panic" for item
    by (auto simp: message_from_rlp_item_def Let_def outcome_iffs codec_no_panic field_of_not_Panic
        list_not_Panic block_rlp.field_not_Panic with_len_def split: rlp_item.split)
qed

end
