(* ===== verification/Codec.thy ===== *)
theory Codec
  imports Message
begin

text \<open>
  The crate \<^verbatim>\<open>core/networking\<close>, files \<^verbatim>\<open>codec.rs\<close> and \<^verbatim>\<open>error.rs\<close>: frames of a four-byte length, a tag byte
  and an RLP list of fields. The codec mutates a byte buffer, so its methods are actions on one; the
  indexing of a frame is checked.
\<close>

section \<open>Errors (error.rs)\<close>

text \<open>The \<^verbatim>\<open>std::io::Error\<close> that \<^verbatim>\<open>Io\<close> carries comes from the operating system and has no content here.\<close>

datatype network_error =
    Io
  | NetEncode rlp_error
  | NetDecode rlp_error
  | UnknownMessageType u8
  | FrameTooLarge usize
  | PeerDisconnected

section \<open>Encoder\<close>

definition MAX_FRAME_SIZE :: usize where
  "MAX_FRAME_SIZE = 10 * 1024 * 1024"

definition codec_encode :: "message \<Rightarrow> (unit, network_error, bytes) action" where
  "codec_encode m =
     (case message_to_rlp_item m of
        Bytes _ \<Rightarrow> pure (Err (NetEncode (UnexpectedType 0x80)))
      | List x \<Rightarrow>
          then_do (pure (map_err NetDecode (field_of u64_from_rlp_item x 0))) (\<lambda>t.
          let tag = ucast t :: u8 in
          then_do (pure (slice_from x 1)) (\<lambda>fs.
          then_do (pure (map_err NetEncode (encode (List fs)))) (\<lambda>payload_bytes.
          let frame_length = 1 + length payload_bytes in
          if frame_length > MAX_FRAME_SIZE then pure (Err (FrameTooLarge frame_length))
          else mutate (\<lambda>dst. dst @ to_be_bytes (of_nat frame_length :: u32) @ [tag] @ payload_bytes)))))"

section \<open>Decoder\<close>

text \<open>The \<^verbatim>\<open>match tag\<close> on the decoded fields.\<close>

definition decode_fields :: "u8 \<Rightarrow> rlp_item list \<Rightarrow> (message, rlp_error) outcome" where
  "decode_fields tag fs =
     (if tag = MSG_PING then with_len fs 0 (Ok Ping)
      else if tag = MSG_PONG then with_len fs 0 (Ok Pong)
      else if tag = MSG_STATUS then with_len fs 3
        (and_then (field_of u64_from_rlp_item fs 0) (\<lambda>chain_id.
         and_then (field_of b256_from_rlp_item fs 1) (\<lambda>hash.
         and_then (field_of u128_from_rlp_item fs 2) (\<lambda>td.
         Ok (Status chain_id hash td)))))
      else if tag = MSG_TRANSACTIONS then with_len fs 1
        (and_then (field_of (decode_list_of transaction_from_rlp_item) fs 0) (\<lambda>txs.
         Ok (Transactions txs)))
      else if tag = MSG_GET_BLOCK_HEADERS then with_len fs 2
        (and_then (field_of b256_from_rlp_item fs 0) (\<lambda>start_hash.
         and_then (field_of u64_from_rlp_item fs 1) (\<lambda>count.
         Ok (GetBlockHeaders start_hash count))))
      else if tag = MSG_NEW_BLOCK then with_len fs 2
        (and_then (field_of block_from_rlp_item fs 0) (\<lambda>block.
         and_then (field_of u128_from_rlp_item fs 1) (\<lambda>td.
         Ok (NewBlock block td))))
      else if tag = MSG_NEW_BLOCK_HASHES then with_len fs 1
        (and_then (field_of (decode_list_of announcement_from_rlp_item) fs 0) (\<lambda>blocks.
         Ok (NewBlockHashes blocks)))
      else if tag = MSG_BLOCK_HEADERS then with_len fs 1
        (and_then (field_of (decode_list_of header_from_rlp_item) fs 0) (\<lambda>headers.
         Ok (BlockHeaders headers)))
      else if tag = MSG_DISCONNECT then with_len fs 1
        (and_then (field_of string_from_rlp_item fs 0) (\<lambda>reason. Ok (Disconnect reason)))
      else if tag = MSG_GET_ACCOUNT_STATE then with_len fs 1
        (and_then (field_of address_from_rlp_item fs 0) (\<lambda>a. Ok (GetAccountState a)))
      else if tag = MSG_ACCOUNT_STATE then with_len fs 3
        (and_then (field_of address_from_rlp_item fs 0) (\<lambda>a.
         and_then (field_of u64_from_rlp_item fs 1) (\<lambda>nonce.
         and_then (field_of u128_from_rlp_item fs 2) (\<lambda>balance.
         Ok (AccountState a nonce balance)))))
      else if tag = MSG_GET_CHAIN_HEAD then with_len fs 0 (Ok GetChainHead)
      else if tag = MSG_CHAIN_HEAD then with_len fs 3
        (and_then (field_of u64_from_rlp_item fs 0) (\<lambda>num.
         and_then (field_of b256_from_rlp_item fs 1) (\<lambda>hash.
         and_then (field_of u128_from_rlp_item fs 2) (\<lambda>td.
         Ok (ChainHead num hash td)))))
      else Err (UnexpectedType tag))"

definition decode_frame :: "bytes \<Rightarrow> (message, network_error) outcome" where
  "decode_frame frame =
     and_then (index frame 0) (\<lambda>tag.
     and_then (slice_from frame 1) (\<lambda>payload.
     and_then (map_err NetDecode (decode payload)) (\<lambda>(decoded_payload, _).
     and_then (case decoded_payload of
         List f \<Rightarrow> Ok f
       | Bytes _ \<Rightarrow> Err (NetDecode (UnexpectedType 0x80))) (\<lambda>fs.
     map_err NetDecode (decode_fields tag fs)))))"

text \<open>\<^verbatim>\<open>advance\<close> and \<^verbatim>\<open>split_to\<close> of \<^verbatim>\<open>BytesMut\<close>; both panic beyond the end.\<close>

definition advance :: "usize \<Rightarrow> (unit, 'e, bytes) action" where
  "advance n src = (if n \<le> length src then (Ok (), drop n src) else (Panic, src))"

definition split_to :: "usize \<Rightarrow> (bytes, 'e, bytes) action" where
  "split_to n src = (if n \<le> length src then (Ok (take n src), drop n src) else (Panic, src))"

definition codec_decode :: "(message option, network_error, bytes) action" where
  "codec_decode src =
     (if length src < 4 then (Ok None, src)
      else
        then_do (reading (\<lambda>src. slice_to src 4)) (\<lambda>len_bytes src.
        let frame_length = unat (from_be_bytes len_bytes :: u32) in
        if length src < 4 + frame_length then (Ok None, src)
        else
          then_do (advance 4) (\<lambda>_.
          then_do (split_to frame_length) (\<lambda>frame.
          then_do (pure (decode_frame frame)) (\<lambda>m.
          pure (Ok (Some m))))) src) src)"

section \<open>The decoder in one step\<close>

definition frame_length :: "bytes \<Rightarrow> usize" where
  "frame_length src = unat (from_be_bytes (take 4 src) :: u32)"

lemma codec_decode_eq:
  "codec_decode src =
     (if length src < 4 \<or> length src < 4 + frame_length src then (Ok None, src)
      else (and_then (decode_frame (take (frame_length src) (drop 4 src))) (\<lambda>m. Ok (Some m)),
            drop (4 + frame_length src) src))"
  by (cases "decode_frame (take (frame_length src) (drop 4 src))")
     (auto simp: codec_decode_def then_do_def Let_def slice_to_def frame_length_def advance_def split_to_def
      add.commute)

lemma frame_length_append: "4 \<le> length a \<Longrightarrow> frame_length (a @ b) = frame_length a"
  by (simp add: frame_length_def)

text \<open>More bytes at the end do not change a decision already taken.\<close>

lemma codec_decode_append:
  assumes "codec_decode a = (r, rest)" and "r \<noteq> Ok None"
  shows "codec_decode (a @ b) = (r, rest @ b)"
proof -
  from assms have l: "4 \<le> length a" "4 + frame_length a \<le> length a"
    and a: "r = and_then (decode_frame (take (frame_length a) (drop 4 a))) (\<lambda>m. Ok (Some m))"
      "rest = drop (4 + frame_length a) a"
    by (auto simp: codec_decode_eq split: if_splits)
  then show ?thesis by (simp add: codec_decode_eq frame_length_append)
qed

lemma codec_decode_shrinks:
  "codec_decode src = (Ok (Some m), rest) \<Longrightarrow> length rest + 4 \<le> length src"
  by (auto simp: codec_decode_eq split: if_splits)

section \<open>The two decoders agree\<close>

lemma if_Ok_cong:
  "(b \<Longrightarrow> P = Ok m \<longleftrightarrow> Q = Ok m) \<Longrightarrow> (\<not> b \<Longrightarrow> P' = Ok m \<longleftrightarrow> Q' = Ok m) \<Longrightarrow>
     (if b then P else P') = Ok m \<longleftrightarrow> (if b then Q else Q') = Ok m"
  by simp

lemma with_len_Cons:
  "with_len (y # fs) (Suc n) body = Ok m \<longleftrightarrow> with_len fs n body = Ok m"
  by (simp add: with_len_def)

lemma field_of_Suc: "field_of f (y # fs) (Suc i) = field_of f fs i"
  by simp

lemma decode_fields_iff:
  "decode_fields tag fs = Ok m \<longleftrightarrow> message_from_rlp_item (List (tag_item tag # fs)) = Ok m"
  unfolding decode_fields_def message_from_rlp_item_def rlp_item.case if_not_P [OF list.distinct(2)] field_of_simps(1)
    tag_item_decodes and_then.simps Let_def ucast_tag
  by (intro if_Ok_cong)
     (simp_all only: numeral_nat One_nat_def field_of_Suc with_len_Cons)

lemma not_Panic_intros:
  "(b \<Longrightarrow> P \<noteq> Panic) \<Longrightarrow> (\<not> b \<Longrightarrow> Q \<noteq> Panic) \<Longrightarrow> (if b then P else Q) \<noteq> Panic"
  "m \<noteq> Panic \<Longrightarrow> (\<And>x. f x \<noteq> Panic) \<Longrightarrow> and_then m f \<noteq> Panic"
  by (simp_all add: outcome_iffs)

lemma decode_fields_not_Panic: "decode_fields tag fs \<noteq> Panic"
  unfolding decode_fields_def
  by (intro not_Panic_intros with_len_not_Panic)
     (simp_all add: codec_no_panic field_of_not_Panic list_not_Panic block_rlp.field_not_Panic)

section \<open>Frames\<close>

definition message_tag :: "message \<Rightarrow> u8" where
  "message_tag m =
     (case m of
        Ping \<Rightarrow> MSG_PING | Pong \<Rightarrow> MSG_PONG | Status _ _ _ \<Rightarrow> MSG_STATUS | Transactions _ \<Rightarrow> MSG_TRANSACTIONS
      | GetBlockHeaders _ _ \<Rightarrow> MSG_GET_BLOCK_HEADERS | NewBlock _ _ \<Rightarrow> MSG_NEW_BLOCK
      | NewBlockHashes _ \<Rightarrow> MSG_NEW_BLOCK_HASHES | BlockHeaders _ \<Rightarrow> MSG_BLOCK_HEADERS
      | Disconnect _ \<Rightarrow> MSG_DISCONNECT | GetAccountState _ \<Rightarrow> MSG_GET_ACCOUNT_STATE
      | AccountState _ _ _ \<Rightarrow> MSG_ACCOUNT_STATE | GetChainHead \<Rightarrow> MSG_GET_CHAIN_HEAD
      | ChainHead _ _ _ \<Rightarrow> MSG_CHAIN_HEAD)"

definition message_payload :: "message \<Rightarrow> rlp_item" where
  "message_payload m = (case message_to_rlp_item m of List x \<Rightarrow> List (tl x) | Bytes bs \<Rightarrow> Bytes bs)"

lemma message_to_rlp_item_shape:
  obtains fs where "message_to_rlp_item m = List (tag_item (message_tag m) # fs)" "message_payload m = List fs"
  by (cases m) (simp_all add: message_to_rlp_item_def message_tag_def message_payload_def)

definition frame_of :: "message \<Rightarrow> bytes" where
  "frame_of m =
     to_be_bytes (of_nat (1 + encoded_len (message_payload m)) :: u32) @
     [message_tag m] @ rlp_bytes (message_payload m)"

definition fits_frame :: "message \<Rightarrow> bool" where
  "fits_frame m \<longleftrightarrow> 1 + encoded_len (message_payload m) \<le> MAX_FRAME_SIZE"

lemma codec_encode_eq:
  assumes "encoded_len (message_payload m) < 2 ^ 64"
  shows "codec_encode m dst =
    (if fits_frame m then (Ok (), dst @ frame_of m)
     else (Err (FrameTooLarge (1 + encoded_len (message_payload m))), dst))"
proof -
  obtain fs where fs: "message_to_rlp_item m = List (tag_item (message_tag m) # fs)"
    "message_payload m = List fs" by (rule message_to_rlp_item_shape)
  then have "encode (List fs) = Ok (rlp_bytes (message_payload m))"
    using encode_eq [OF assms] by simp
  then show ?thesis
    by (simp add: codec_encode_def then_do_def fs(1) codec ucast_tag slice_from_def Let_def fits_frame_def frame_of_def
        length_rlp_bytes not_le del: encode.simps rlp_bytes.simps)
qed

lemma length_frame_of: "length (frame_of m) = 5 + encoded_len (message_payload m)"
  by (simp add: frame_of_def length_rlp_bytes del: rlp_bytes.simps)

lemma frame_length_frame_of:
  assumes "fits_frame m"
  shows "frame_length (frame_of m @ rest) = 1 + encoded_len (message_payload m)"
proof -
  have "1 + encoded_len (message_payload m) < 2 ^ LENGTH(32)"
    using assms by (simp add: fits_frame_def MAX_FRAME_SIZE_def)
  then show ?thesis
    by (simp add: frame_length_def frame_of_def from_to_be_bytes unat_of_nat take_bit_nat_eq_self
        del: rlp_bytes.simps of_nat_Suc of_nat_add)
qed

lemma codec_decode_frame:
  assumes "fits_frame m"
  shows "codec_decode (frame_of m @ rest) = (Ok (Some m), rest)"
proof -
  obtain fs where fs: "message_to_rlp_item m = List (tag_item (message_tag m) # fs)"
    "message_payload m = List fs" by (rule message_to_rlp_item_shape)
  have len: "encoded_len (message_payload m) < 2 ^ 64"
    using assms by (simp add: fits_frame_def MAX_FRAME_SIZE_def)
  have "decode_fields (message_tag m) fs = Ok m"
    using message_rlp.from_to [of m] fs(1) by (simp add: decode_fields_iff)
  then have "decode_frame (message_tag m # rlp_bytes (message_payload m)) = Ok m"
    using decode_rlp_bytes [OF len, of "[]"] fs(2)
    by (simp add: decode_frame_def index_def slice_from_def del: rlp_bytes.simps)
  moreover have "take (1 + encoded_len (message_payload m)) (drop 4 (frame_of m @ rest)) =
      message_tag m # rlp_bytes (message_payload m)"
    by (simp add: frame_of_def length_rlp_bytes del: rlp_bytes.simps)
  moreover have "drop (4 + (1 + encoded_len (message_payload m))) (frame_of m @ rest) = rest"
    using length_frame_of [of m] by simp
  moreover have "\<not> (length (frame_of m @ rest) < 4 \<or>
      length (frame_of m @ rest) < 4 + (1 + encoded_len (message_payload m)))"
    using length_frame_of [of m] by simp
  ultimately show ?thesis
    by (simp only: codec_decode_eq frame_length_frame_of [OF assms] if_False and_then.simps)
qed

text \<open>An incomplete frame is left in the buffer.\<close>

lemma codec_decode_partial:
  assumes "fits_frame m" and "n < length (frame_of m)"
  shows "codec_decode (take n (frame_of m)) = (Ok None, take n (frame_of m))"
proof (cases "n < 4")
  case False
  then have "frame_length (take n (frame_of m)) = 1 + encoded_len (message_payload m)"
    using frame_length_frame_of [OF assms(1), of "[]"] by (simp add: frame_length_def min_def)
  then show ?thesis using assms(2) length_frame_of [of m] by (simp add: codec_decode_eq)
qed (simp add: codec_decode_eq min_less_iff_disj)

section \<open>Streams\<close>

text \<open>
  How the codec is driven: decode until more bytes are needed. The result is the messages and the
  bytes that stay in the buffer.
\<close>

function decode_all :: "bytes \<Rightarrow> (message list \<times> bytes, network_error) outcome" where
  "decode_all src =
     (case codec_decode src of
        (Ok None, rest) \<Rightarrow> Ok ([], rest)
      | (Ok (Some m), rest) \<Rightarrow> and_then (decode_all rest) (\<lambda>(ms, left). Ok (m # ms, left))
      | (Err e, rest) \<Rightarrow> Err e
      | (Panic, rest) \<Rightarrow> Panic)"
  by pat_completeness auto

termination decode_all
  by (relation "measure length") (auto dest!: codec_decode_shrinks [OF sym])

declare decode_all.simps [simp del]

definition encode_all :: "message list \<Rightarrow> (unit, network_error, bytes) action" where
  "encode_all ms = for_each (\<lambda>_ m. codec_encode m) () ms"

lemma encode_all_eq:
  "list_all fits_frame ms \<Longrightarrow> encode_all ms dst = (Ok (), dst @ concat (map frame_of ms))"
proof (induction ms arbitrary: dst)
  case (Cons m ms)
  then have "encoded_len (message_payload m) < 2 ^ 64"
    by (simp add: fits_frame_def MAX_FRAME_SIZE_def)
  with Cons show ?case by (simp add: encode_all_def then_do_def codec_encode_eq)
qed (simp add: encode_all_def)

lemma decode_all_frames:
  "list_all fits_frame ms \<Longrightarrow> codec_decode left = (Ok None, left) \<Longrightarrow>
     decode_all (concat (map frame_of ms) @ left) = Ok (ms, left)"
  by (induction ms) (simp_all add: decode_all.simps [of "_ @ _"] decode_all.simps [of left] codec_decode_frame)

lemma decode_all_chunks:
  "decode_all a = Ok (ms, left) \<Longrightarrow>
     decode_all (a @ b) = and_then (decode_all (left @ b)) (\<lambda>(ms', left'). Ok (ms @ ms', left'))"
proof (induction a arbitrary: ms left rule: decode_all.induct)
  case (1 a)
  obtain r rest where r: "codec_decode a = (r, rest)" by fastforce
  show ?case
  proof (cases "r = Ok None")
    case True
    with r have "rest = a" by (auto simp: codec_decode_eq outcome_iffs split: if_splits)
    with True r "1.prems" have "ms = []" "left = a" by (simp_all add: decode_all.simps [of a])
    then show ?thesis by (cases "decode_all (a @ b)") auto
  next
    case False
    with r "1.prems" obtain m ms1 where m: "r = Ok (Some m)" "ms = m # ms1" "decode_all rest = Ok (ms1, left)"
      by (auto simp: decode_all.simps [of a] outcome_iffs split: outcome.splits option.splits)
    have "codec_decode (a @ b) = (Ok (Some m), rest @ b)"
      using codec_decode_append [OF r False] m(1) by simp
    moreover have "decode_all (rest @ b) = and_then (decode_all (left @ b)) (\<lambda>(ms', left'). Ok (ms1 @ ms', left'))"
      using "1.IH" r m by auto
    ultimately show ?thesis
      by (cases "decode_all (left @ b)") (auto simp: decode_all.simps [of "a @ b"] m(2))
  qed
qed

lemma decode_all_chunks_failing:
  "decode_all a = Err e \<Longrightarrow> decode_all (a @ b) = Err e"
  "decode_all a = Panic \<Longrightarrow> decode_all (a @ b) = Panic"
proof (induction a rule: decode_all.induct)
  case (1 a)
  obtain r rest where r: "codec_decode a = (r, rest)" by fastforce
  show "decode_all (a @ b) = Err e" if "decode_all a = Err e"
    using that codec_decode_append [OF r, of b] "1.IH"(1) [OF r [symmetric]] r
    by (auto simp: decode_all.simps [of a] decode_all.simps [of "a @ b"] outcome_iffs
        split: outcome.splits option.splits)
  show "decode_all (a @ b) = Panic" if "decode_all a = Panic"
    using that codec_decode_append [OF r, of b] "1.IH"(2) [OF r [symmetric]] r
    by (auto simp: decode_all.simps [of a] decode_all.simps [of "a @ b"] outcome_iffs
        split: outcome.splits option.splits)
qed

lemma decode_frame_Panic_iff: "decode_frame frame = Panic \<longleftrightarrow> frame = []"
  by (cases frame)
     (auto simp: decode_frame_def index_def slice_from_def outcome_iffs decode_not_Panic
      decode_fields_not_Panic split: rlp_item.splits)

text \<open>The RLP form of a message truncates its tag to a byte, so 256 reads as a ping; a frame cannot carry it.\<close>

lemma message_tag_truncated: "message_from_rlp_item (List [u64_to_rlp_item 256]) = Ok Ping"
  by (simp add: message_from_rlp_item_def codec with_len_def Let_def MSG_PING_def)

section \<open>Properties\<close>

text \<open>
  C12. Messages survive the wire: encoding a sequence of messages that fit a frame into one buffer
  succeeds, and decoding that buffer, followed by any incomplete frame, gives back exactly the
  sequence and leaves the incomplete frame in the buffer.
\<close>

theorem codec_stream_roundtrip:
  assumes "list_all fits_frame ms" and "fits_frame m" and "n < length (frame_of m)"
  shows "\<exists>buf. encode_all ms [] = (Ok (), buf) \<and>
    decode_all (buf @ take n (frame_of m)) = Ok (ms, take n (frame_of m))"
  using encode_all_eq [OF assms(1), of "[]"] decode_all_frames [OF assms(1) codec_decode_partial [OF assms(2,3)]]
  by simp

theorem codec_stream_roundtrip_witness:
  "\<exists>buf. encode_all [Ping, GetChainHead] [] = (Ok (), buf) \<and>
    decode_all (buf @ take 3 (frame_of Pong)) = Ok ([Ping, GetChainHead], take 3 (frame_of Pong))"
proof (rule codec_stream_roundtrip)
  show "list_all fits_frame [Ping, GetChainHead]" "fits_frame Pong" "3 < length (frame_of Pong)"
    by (simp_all add: fits_frame_def message_payload_def message_to_rlp_item_def MAX_FRAME_SIZE_def
        list_prefix_len_def length_prefix_len_def length_frame_of)
qed

text \<open>
  The stream may be cut anywhere: decoding the bytes received so far and then the remainder
  together with the next bytes gives the same messages, the same left-over and the same failure as
  decoding everything at once.
\<close>

theorem codec_chunking:
  "decode_all (a @ b) =
     and_then (decode_all a) (\<lambda>(ms, left).
     and_then (decode_all (left @ b)) (\<lambda>(ms', left').
     Ok (ms @ ms', left')))"
  by (cases "decode_all a") (auto simp: decode_all_chunks decode_all_chunks_failing)

text \<open>
  C39. The decoder panics on exactly one kind of input: a frame that announces length zero. On every
  other input it returns a message, an error, or asks for more bytes without touching the buffer.
\<close>

theorem codec_decode_panics_iff:
  "(fst (codec_decode src) = Panic \<longleftrightarrow> 4 \<le> length src \<and> frame_length src = 0) \<and>
   (fst (codec_decode src) = Ok None \<longrightarrow> snd (codec_decode src) = src)"
  by (auto simp: codec_decode_eq outcome_iffs decode_frame_Panic_iff)

theorem codec_decode_panics_iff_witness:
  "fst (codec_decode [0, 0, 0, 0]) = Panic \<and> snd (codec_decode [0, 0]) = [0, 0]"
proof -
  have "frame_length [0, 0, 0, 0] = 0" by (simp add: frame_length_def from_be_bytes_def be_val_def)
  moreover have "fst (codec_decode [0, 0]) = Ok None" by (simp add: codec_decode_eq)
  ultimately show ?thesis
    using codec_decode_panics_iff [of "[0, 0, 0, 0]"] codec_decode_panics_iff [of "[0, 0]"] by simp
qed

text \<open>
  C40. The frame bound is one-sided. The encoder appends at most \<^verbatim>\<open>MAX_FRAME_SIZE\<close> bytes and a length,
  and appends nothing when it fails; the decoder has no such check, and goes on buffering a frame
  that no encoder can have sent.
\<close>

theorem codec_frame_bounds:
  "(let (r, dst') = codec_encode m dst in
      length dst' \<le> length dst + 4 + MAX_FRAME_SIZE \<and> (r = Ok () \<or> dst' = dst)) \<and>
   (\<exists>src. MAX_FRAME_SIZE + 4 < length src \<and> codec_decode src = (Ok None, src))"
proof -
  let ?src = "[0xff, 0xff, 0xff, 0xff] @ replicate (MAX_FRAME_SIZE + 1) 0"
  have "frame_length ?src = 4294967295"
    by (simp add: frame_length_def from_be_bytes_def be_val_def)
  then have "MAX_FRAME_SIZE + 4 < length ?src \<and> codec_decode ?src = (Ok None, ?src)"
    by (simp add: codec_decode_eq MAX_FRAME_SIZE_def)
  moreover have "let (r, dst') = codec_encode m dst in
      length dst' \<le> length dst + 4 + MAX_FRAME_SIZE \<and> (r = Ok () \<or> dst' = dst)"
    by (auto simp: codec_encode_def then_do_def Let_def split: rlp_item.split outcome.split)
  ultimately show ?thesis by blast
qed

end
