(* ===== verification/Connection.thy ===== *)
theory Connection
  imports Codec
begin

text \<open>
  The crate \<^verbatim>\<open>core/networking\<close>, file \<^verbatim>\<open>connection.rs\<close>, and the event types of \<^verbatim>\<open>manager.rs\<close>: the task that
  serves one peer. One iteration of its \<^verbatim>\<open>select!\<close> loop is a step on the state of the task; what the
  operating system and the other tasks decide (whether the socket accepts a message, whether the
  manager still listens, what the shared head holds) is an environment given with each step. The
  texts that the task logs are not modelled.
\<close>

section \<open>Events (manager.rs)\<close>

datatype peer_id = PeerId u64

text \<open>A \<^verbatim>\<open>SocketAddr\<close> is only passed on and printed, and stands for its text.\<close>

type_synonym socket_addr = string

text \<open>The sending half of the channel that \<^verbatim>\<open>listen\<close> creates for one connection.\<close>

datatype msg_sender = MsgSender u64

datatype peer_event =
    Connected peer_id socket_addr msg_sender
  | Disconnected peer_id
  | PeerMessage peer_id message
  | SendMessage peer_id message

datatype network_event =
    NetNewBlock block peer_id
  | NetGetAccountState address peer_id
  | NetGetChainHead peer_id

section \<open>The state of a connection task\<close>

datatype handshake_state = AwaitingStatus | Established

record connection_context =
  ctx_peer_id :: peer_id
  peer_address :: socket_addr
  expected_chain_id :: u64
  peer_sender :: msg_sender

text \<open>The task runs its loop, has left it, or has unwound after a panic of the decoder.\<close>

datatype task_status = Running | Stopped | Crashed

record conn =
  phase :: handshake_state
  conn_status :: task_status
  wire :: "message list"
  emitted :: "peer_event list"

definition conn_init :: conn where
  "conn_init = \<lparr>phase = AwaitingStatus, conn_status = Running, wire = [], emitted = []\<rparr>"

record conn_env =
  wire_ok :: bool
  manager_up :: bool
  env_head :: chain_head

text \<open>What \<^verbatim>\<open>select!\<close> yields: an item of the framed stream, or of the channel from the manager.\<close>

datatype conn_input =
    FromPeer "(message, network_error) outcome option"
  | Outbound "message option"

section \<open>Texts\<close>

fun decimal :: "nat \<Rightarrow> string" where
  "decimal n = (if n < 10 then [char_of (48 + n)] else decimal (n div 10) @ [char_of (48 + n mod 10)])"

declare decimal.simps [simp del]

definition string_lit :: "string \<Rightarrow> rust_string" where
  "string_lit s = unwrap_or (from_utf8 (ascii s)) (Abs_rust_string [])"

definition chain_id_reason :: "u64 \<Rightarrow> u64 \<Rightarrow> rust_string" where
  "chain_id_reason chain_id expected =
     string_lit (''Invalid Chain Id. Received '' @ decimal (unat chain_id) @ '', Expected '' @ decimal (unat expected))"

section \<open>The loop\<close>

text \<open>\<^verbatim>\<open>framed.send(m).await\<close> fails if the message does not encode or the socket does not take it.\<close>

definition framed_send :: "conn_env \<Rightarrow> message \<Rightarrow> conn \<Rightarrow> bool \<times> conn" where
  "framed_send env m s =
     (if wire_ok env \<and> fst (codec_encode m []) = Ok () then (True, s\<lparr>wire := wire s @ [m]\<rparr>) else (False, s))"

definition event_send :: "conn_env \<Rightarrow> peer_event \<Rightarrow> conn \<Rightarrow> bool \<times> conn" where
  "event_send env ev s =
     (if manager_up env then (True, s\<lparr>emitted := emitted s @ [ev]\<rparr>) else (False, s))"

text \<open>\<^verbatim>\<open>break\<close>, and the event after the loop.\<close>

definition leave :: "connection_context \<Rightarrow> conn_env \<Rightarrow> conn \<Rightarrow> conn" where
  "leave ctx env s = (snd (event_send env (Disconnected (ctx_peer_id ctx)) s))\<lparr>conn_status := Stopped\<rparr>"

definition on_status :: "connection_context \<Rightarrow> conn_env \<Rightarrow> u64 \<Rightarrow> conn \<Rightarrow> conn" where
  "on_status ctx env chain_id s =
     (if chain_id \<noteq> expected_chain_id ctx then
        leave ctx env (snd (framed_send env (Disconnect (chain_id_reason chain_id (expected_chain_id ctx))) s))
      else
        let snapshot = env_head env;
            (sent, s1) = framed_send env
              (Status (expected_chain_id ctx) (head_hash snapshot) (head_total_difficulty snapshot)) s
        in if \<not> sent then leave ctx env s1
           else
             let (told, s2) = event_send env (Connected (ctx_peer_id ctx) (peer_address ctx) (peer_sender ctx)) s1
             in if \<not> told then leave ctx env s2 else s2\<lparr>phase := Established\<rparr>)"

definition on_message :: "connection_context \<Rightarrow> conn_env \<Rightarrow> message \<Rightarrow> conn \<Rightarrow> conn" where
  "on_message ctx env m s =
     (case phase s of
        AwaitingStatus \<Rightarrow>
          (case m of Status chain_id _ _ \<Rightarrow> on_status ctx env chain_id s | _ \<Rightarrow> leave ctx env s)
      | Established \<Rightarrow>
          (case m of
             Status _ _ _ \<Rightarrow> leave ctx env s
           | _ \<Rightarrow>
               let (told, s1) = event_send env (PeerMessage (ctx_peer_id ctx) m) s
               in if \<not> told then leave ctx env s1 else s1))"

definition on_outbound :: "connection_context \<Rightarrow> conn_env \<Rightarrow> message option \<Rightarrow> conn \<Rightarrow> conn" where
  "on_outbound ctx env rx s =
     (case phase s of
        Established \<Rightarrow>
          (case rx of
             Some msg \<Rightarrow> let (sent, s1) = framed_send env msg s in if \<not> sent then leave ctx env s1 else s1
           | None \<Rightarrow> leave ctx env s)
      | AwaitingStatus \<Rightarrow> if rx = None then leave ctx env s else s)"

definition conn_step :: "connection_context \<Rightarrow> conn_env \<times> conn_input \<Rightarrow> conn \<Rightarrow> conn" where
  "conn_step ctx = (\<lambda>(env, inp) s.
     if conn_status s \<noteq> Running then s
     else case inp of
       FromPeer (Some (Ok m)) \<Rightarrow> on_message ctx env m s
     | FromPeer (Some (Err _)) \<Rightarrow> leave ctx env s
     | FromPeer (Some Panic) \<Rightarrow> s\<lparr>conn_status := Crashed\<rparr>
     | FromPeer None \<Rightarrow> leave ctx env s
     | Outbound rx \<Rightarrow> on_outbound ctx env rx s)"

definition conn_run :: "connection_context \<Rightarrow> (conn_env \<times> conn_input) list \<Rightarrow> conn" where
  "conn_run ctx ins = fold (conn_step ctx) ins conn_init"

section \<open>The protocol of a connection\<close>

text \<open>The messages read from the peer while the task ran its loop.\<close>

fun received :: "(conn_env \<times> conn_input) list \<Rightarrow> message list" where
  "received [] = []"
| "received ((_, FromPeer (Some (Ok m))) # ins) = m # received ins"
| "received (_ # ins) = received ins"

lemma received_append [simp]: "received (xs @ ys) = received xs @ received ys"
  by (induction xs rule: received.induct) auto

text \<open>What a session tells the manager: the connection, then the messages, in order.\<close>

definition session :: "connection_context \<Rightarrow> message list \<Rightarrow> peer_event list" where
  "session ctx ms =
     Connected (ctx_peer_id ctx) (peer_address ctx) (peer_sender ctx) # map (PeerMessage (ctx_peer_id ctx)) ms"

text \<open>The peer opened with a \<^verbatim>\<open>Status\<close> for the right chain, and then sent these messages, none a \<^verbatim>\<open>Status\<close>.\<close>

definition handshake_done :: "connection_context \<Rightarrow> message list \<Rightarrow> message list \<Rightarrow> bool" where
  "handshake_done ctx msgs ms \<longleftrightarrow>
     (\<exists>h td others. msgs = Status (expected_chain_id ctx) h td # ms @ others) \<and> list_all (\<lambda>m. \<not> is_Status m) ms"

definition conn_inv :: "connection_context \<Rightarrow> (conn_env \<times> conn_input) list \<Rightarrow> conn \<Rightarrow> bool" where
  "conn_inv ctx ins s \<longleftrightarrow>
     (case conn_status s of
        Running \<Rightarrow>
          (case phase s of
             AwaitingStatus \<Rightarrow> emitted s = [] \<and> received ins = []
           | Established \<Rightarrow>
               handshake_done ctx (received ins) (tl (received ins)) \<and>
               emitted s = session ctx (tl (received ins)))
      | Stopped \<Rightarrow>
          \<exists>before fin. emitted s = before @ fin \<and>
            (before = [] \<or> (\<exists>ms. handshake_done ctx (received ins) ms \<and> before = session ctx ms)) \<and>
            (fin = [Disconnected (ctx_peer_id ctx)] \<or>
             fin = [] \<and> \<not> list_all (\<lambda>x. manager_up (fst x)) ins)
      | Crashed \<Rightarrow>
          emitted s = [] \<or> (\<exists>ms. handshake_done ctx (received ins) ms \<and> emitted s = session ctx ms))"

lemma conn_inv_init: "conn_inv ctx [] conn_init"
  by (simp add: conn_inv_def conn_init_def)

lemma handshake_done_more: "handshake_done ctx msgs ms \<Longrightarrow> handshake_done ctx (msgs @ others) ms"
  by (auto simp: handshake_done_def)

lemma handshake_done_snoc:
  "handshake_done ctx msgs (tl msgs) \<Longrightarrow> \<not> is_Status m \<Longrightarrow> handshake_done ctx (msgs @ [m]) (tl msgs @ [m])"
  by (cases msgs) (auto simp: handshake_done_def)

lemma leave_simps [simp]:
  "conn_status (leave ctx env s) = Stopped"
  "emitted (leave ctx env s) =
     emitted s @ (if manager_up env then [Disconnected (ctx_peer_id ctx)] else [])"
  by (simp_all add: leave_def event_send_def)

lemma conn_inv_running:
  "conn_inv ctx ins s \<Longrightarrow> conn_status s = Running \<Longrightarrow>
     emitted s = [] \<or> (\<exists>ms. handshake_done ctx (received ins) ms \<and> emitted s = session ctx ms)"
  by (auto simp: conn_inv_def split: handshake_state.splits)

lemma conn_inv_leave:
  assumes "conn_inv ctx ins s" and "conn_status s = Running" and "emitted s' = emitted s"
  shows "conn_inv ctx (ins @ [(env, inp)]) (leave ctx env s')"
proof -
  let ?fin = "if manager_up env then [Disconnected (ctx_peer_id ctx)] else []"
  have "emitted s = [] \<or> (\<exists>ms. handshake_done ctx (received (ins @ [(env, inp)])) ms \<and> emitted s = session ctx ms)"
    using conn_inv_running [OF assms(1,2)] by (auto intro: handshake_done_more)
  moreover have "emitted (leave ctx env s') = emitted s @ ?fin" using assms(3) by simp
  moreover have "?fin = [Disconnected (ctx_peer_id ctx)] \<or>
      ?fin = [] \<and> \<not> list_all (\<lambda>x. manager_up (fst x)) (ins @ [(env, inp)])" by simp
  ultimately show ?thesis unfolding conn_inv_def leave_simps(1) task_status.case by blast
qed

lemma conn_inv_on_status:
  assumes "conn_inv ctx ins s" and "conn_status s = Running" and "phase s = AwaitingStatus"
  shows "conn_inv ctx (ins @ [(env, FromPeer (Some (Ok (Status chain_id h td))))]) (on_status ctx env chain_id s)"
proof (cases "chain_id = expected_chain_id ctx")
  case False
  then show ?thesis
    using conn_inv_leave [OF assms(1,2)] by (simp add: on_status_def framed_send_def)
next
  case True
  let ?m = "Status (expected_chain_id ctx) (head_hash (env_head env)) (head_total_difficulty (env_head env))"
  show ?thesis
  proof (cases "wire_ok env \<and> fst (codec_encode ?m []) = Ok () \<and> manager_up env")
    case True
    with assms \<open>chain_id = _\<close> show ?thesis
      by (simp add: on_status_def framed_send_def event_send_def Let_def conn_inv_def session_def
          handshake_done_def)
  next
    case False
    with \<open>chain_id = _\<close> show ?thesis
      using conn_inv_leave [OF assms(1,2)]
      by (auto simp: on_status_def framed_send_def event_send_def Let_def)
  qed
qed

lemma conn_inv_on_message:
  assumes "conn_inv ctx ins s" and "conn_status s = Running"
  shows "conn_inv ctx (ins @ [(env, FromPeer (Some (Ok m)))]) (on_message ctx env m s)"
proof (cases "phase s")
  case AwaitingStatus
  with assms show ?thesis
    by (cases m) (simp_all add: on_message_def conn_inv_leave conn_inv_on_status)
next
  case Established
  show ?thesis
  proof (cases "manager_up env \<and> \<not> is_Status m")
    case True
    with assms Established have told: "handshake_done ctx (received ins) (tl (received ins))"
      "emitted s = session ctx (tl (received ins))" by (simp_all add: conn_inv_def)
    then have "tl (received ins @ [m]) = tl (received ins) @ [m]"
      by (cases "received ins") (auto simp: handshake_done_def)
    moreover have "on_message ctx env m s = s\<lparr>emitted := emitted s @ [PeerMessage (ctx_peer_id ctx) m]\<rparr>"
      using True Established by (cases m) (simp_all add: on_message_def event_send_def)
    ultimately show ?thesis
      using assms Established told handshake_done_snoc [OF told(1)] True
      by (simp add: conn_inv_def session_def)
  next
    case False
    with Established have "on_message ctx env m s = leave ctx env s"
      by (cases m) (auto simp: on_message_def event_send_def)
    then show ?thesis using conn_inv_leave [OF assms] by simp
  qed
qed

lemma conn_inv_same:
  assumes "conn_inv ctx ins s" and "\<not> (\<exists>m. inp = FromPeer (Some (Ok m)))" and "emitted s' = emitted s"
    "phase s' = phase s" "conn_status s' = conn_status s"
  shows "conn_inv ctx (ins @ [(env, inp)]) s'"
proof -
  have "received (ins @ [(env, inp)]) = received ins"
    using assms(2) by (cases "[(env, inp)]" rule: received.cases) auto
  then show ?thesis
    using assms(1,3-) by (auto simp: conn_inv_def split: task_status.splits handshake_state.splits)
qed

lemma conn_inv_ended:
  assumes "conn_inv ctx ins s" and "conn_status s \<noteq> Running"
  shows "conn_inv ctx (ins @ [x]) s"
proof -
  have "\<exists>others. received (ins @ [x]) = received ins @ others" by simp
  with assms show ?thesis
    by (cases "conn_status s") (auto simp: conn_inv_def intro: handshake_done_more)
qed

lemma conn_inv_step: "conn_inv ctx ins s \<Longrightarrow> conn_inv ctx (ins @ [x]) (conn_step ctx x s)"
proof -
  assume inv: "conn_inv ctx ins s"
  obtain env inp where x: "x = (env, inp)" by (cases x)
  show ?thesis
  proof (cases "conn_status s = Running")
    case False
    then show ?thesis using conn_inv_ended [OF inv False] by (simp add: conn_step_def x)
  next
    case True
    note leave = conn_inv_leave [OF inv True]
    have crash: "conn_inv ctx (ins @ [(env, FromPeer (Some Panic))]) (s\<lparr>conn_status := Crashed\<rparr>)"
      using inv True by (auto simp: conn_inv_def split: handshake_state.splits)
    have out: "conn_inv ctx (ins @ [(env, Outbound rx)]) (on_outbound ctx env rx s)" for rx
      using leave conn_inv_same [OF inv, of "Outbound rx" s env]
        conn_inv_same [OF inv, of "Outbound rx" "s\<lparr>wire := wire s @ [the rx]\<rparr>" env]
      by (auto simp: on_outbound_def framed_send_def split: handshake_state.split option.split)
    show ?thesis
      using True leave crash out conn_inv_on_message [OF inv True]
      by (auto simp: conn_step_def x split: conn_input.split option.split outcome.split)
  qed
qed

lemma conn_inv_run: "conn_inv ctx ins (conn_run ctx ins)"
  by (induction ins rule: rev_induct) (simp_all add: conn_run_def conn_inv_init conn_inv_step)

lemma conn_session:
  "\<exists>before fin. emitted (conn_run ctx ins) = before @ fin \<and>
     (before = [] \<or> (\<exists>ms. handshake_done ctx (received ins) ms \<and> before = session ctx ms)) \<and>
     (fin = [] \<or> fin = [Disconnected (ctx_peer_id ctx)]) \<and>
     (conn_status (conn_run ctx ins) = Stopped \<and> list_all (\<lambda>x. manager_up (fst x)) ins \<longrightarrow>
        fin = [Disconnected (ctx_peer_id ctx)]) \<and>
     (conn_status (conn_run ctx ins) \<noteq> Stopped \<longrightarrow> fin = [])"
proof (cases "conn_status (conn_run ctx ins)")
  case Running
  then show ?thesis using conn_inv_running [OF conn_inv_run Running] by fastforce
next
  case Stopped
  then show ?thesis using conn_inv_run [of ctx ins] by (auto simp: conn_inv_def)
next
  case Crashed
  then show ?thesis using conn_inv_run [of ctx ins] by (auto simp: conn_inv_def)
qed

section \<open>Properties\<close>

text \<open>
  C15. What the manager hears of a connection, whatever the peer sends and whatever fails: nothing; or,
  only after the peer opened with a \<^verbatim>\<open>Status\<close> for the node's chain, one \<^verbatim>\<open>Connected\<close> followed by exactly the
  peer's next messages in order, none of them a \<^verbatim>\<open>Status\<close>. At most one \<^verbatim>\<open>Disconnected\<close> ends this; it is
  there if the task has left its loop and the manager is up, and not if the task still runs or has
  crashed in the decoder.
\<close>

theorem handshake_protocol:
  "\<exists>before fin. emitted (conn_run ctx ins) = before @ fin \<and>
     (before = [] \<or> (\<exists>ms. handshake_done ctx (received ins) ms \<and> before = session ctx ms)) \<and>
     (fin = [] \<or> fin = [Disconnected (ctx_peer_id ctx)]) \<and>
     (conn_status (conn_run ctx ins) = Stopped \<and> list_all (\<lambda>x. manager_up (fst x)) ins \<longrightarrow>
        fin = [Disconnected (ctx_peer_id ctx)]) \<and>
     (conn_status (conn_run ctx ins) \<noteq> Stopped \<longrightarrow> fin = [])"
  by (rule conn_session)

lemma status_encodes: "fst (codec_encode (Status chain_id h td) dst) = Ok ()"
proof -
  have "sum_list (map encoded_len [u64_to_rlp_item chain_id, b256_to_rlp_item h, u128_to_rlp_item td]) \<le> 156"
    using u64_len [of chain_id] b256_len [of h] u128_len [of td] by simp
  from encoded_len_List_le [OF this] have "encoded_len (message_payload (Status chain_id h td)) \<le> 158"
    by (simp add: message_payload_def message_to_rlp_item_def length_prefix_len_156 del: encoded_len.simps)
  then show ?thesis
    by (subst codec_encode_eq) (auto simp: fits_frame_def MAX_FRAME_SIZE_def)
qed

theorem handshake_protocol_witness:
  "let ctx = \<lparr>ctx_peer_id = PeerId 7, peer_address = ''a'', expected_chain_id = 1, peer_sender = MsgSender 7\<rparr>;
       env = \<lparr>wire_ok = True, manager_up = True, env_head = default_chain_head\<rparr>;
       s = conn_run ctx [(env, FromPeer (Some (Ok (Status 1 zero_array 0)))),
             (env, FromPeer (Some (Ok Ping))), (env, FromPeer None)]
   in emitted s = session ctx [Ping] @ [Disconnected (PeerId 7)] \<and> conn_status s = Stopped"
proof -
  let ?ctx = "\<lparr>ctx_peer_id = PeerId 7, peer_address = ''a'', expected_chain_id = 1, peer_sender = MsgSender 7\<rparr>"
  let ?env = "\<lparr>wire_ok = True, manager_up = True, env_head = default_chain_head\<rparr>"
  let ?ins = "[(?env, FromPeer (Some (Ok (Status 1 zero_array 0)))), (?env, FromPeer (Some (Ok Ping))),
    (?env, FromPeer None)]"
  have run: "conn_status (conn_run ?ctx ?ins) = Stopped" "length (emitted (conn_run ?ctx ?ins)) = 3"
    by (simp_all add: conn_run_def conn_init_def conn_step_def on_message_def on_status_def Let_def
        framed_send_def event_send_def status_encodes)
  obtain before fin where *: "emitted (conn_run ?ctx ?ins) = before @ fin"
    "before = [] \<or> (\<exists>ms. handshake_done ?ctx (received ?ins) ms \<and> before = session ?ctx ms)"
    "fin = [Disconnected (PeerId 7)]"
    using handshake_protocol [of ?ctx ?ins] run(1) by auto
  with run(2) have "length before = 2" by simp
  with *(2) obtain ms where "handshake_done ?ctx (received ?ins) ms" "before = session ?ctx ms" "length ms = 1"
    by (auto simp: session_def)
  then have "before = session ?ctx [Ping]" by (auto simp: handshake_done_def length_Suc_conv)
  with * run(1) show ?thesis by (simp add: Let_def)
qed

end
