(* ===== verification/Processor.thy ===== *)
theory Processor
  imports Pipeline Connection
begin

text \<open>
  The crate \<^verbatim>\<open>processor\<close>: the task that orders incoming blocks, executes them through the pipeline and
  moves the head of the chain. Its methods are actions on the processor's state, which holds the
  pipeline's provider. Counters are atomics and wrap; \<open>+\<close> on block numbers panics on overflow. What is
  logged is not modelled.
\<close>

section \<open>State (block\_processor.rs, errors.rs)\<close>

datatype processor_error =
    Hashing rlp_error
  | ProcExecution execution_error
  | ProcTrie trie_error
  | ProcSigning signing_error
  | SharedHeadOperationFailed
  | ParentNotFound u64
  | ProcInvalidBlockNumber u64 u64
  | ValidationFailed rust_string

text \<open>The channel on which an account query is answered is the reply that the message produces.\<close>

datatype processor_message =
    ProcNewBlock block peer_id
  | ProcGetAccountState address
  | ProcShutdown

record pending_block =
  pending_block :: block
  pending_peer :: peer_id

record metrics =
  blocks_received :: u64
  blocks_committed :: u64
  blocks_rejected_validation :: u64
  blocks_rejected_execution :: u64
  transactions_committed :: u64
  total_gas_committed :: u64

record block_processor =
  pending_map :: "(u64, pending_block) hash_map"
  proc_chain_id :: u64
  proc_head :: chain_head
  provider :: in_memory_provider
  proc_accounts :: "(address, account) hash_map"
  shared_head :: chain_head
  proc_metrics :: metrics

definition zero_metrics :: metrics where
  "zero_metrics = \<lparr>blocks_received = 0, blocks_committed = 0, blocks_rejected_validation = 0,
     blocks_rejected_execution = 0, transactions_committed = 0, total_gas_committed = 0\<rparr>"

text \<open>\<^verbatim>\<open>fetch_add\<close> on one counter.\<close>

definition count_received :: "block_processor \<Rightarrow> block_processor" where
  "count_received p = p\<lparr>proc_metrics := (proc_metrics p)\<lparr>blocks_received := blocks_received (proc_metrics p) + 1\<rparr>\<rparr>"

definition count_rejected_validation :: "block_processor \<Rightarrow> block_processor" where
  "count_rejected_validation p = p\<lparr>proc_metrics := (proc_metrics p)\<lparr>blocks_rejected_validation :=
     blocks_rejected_validation (proc_metrics p) + 1\<rparr>\<rparr>"

definition count_rejected_execution :: "block_processor \<Rightarrow> block_processor" where
  "count_rejected_execution p = p\<lparr>proc_metrics := (proc_metrics p)\<lparr>blocks_rejected_execution :=
     blocks_rejected_execution (proc_metrics p) + 1\<rparr>\<rparr>"

definition count_committed :: "u64 \<Rightarrow> u64 \<Rightarrow> block_processor \<Rightarrow> block_processor" where
  "count_committed txs gas p = p\<lparr>proc_metrics := (proc_metrics p)\<lparr>
     blocks_committed := blocks_committed (proc_metrics p) + 1,
     transactions_committed := transactions_committed (proc_metrics p) + txs,
     total_gas_committed := total_gas_committed (proc_metrics p) + gas\<rparr>\<rparr>"

section \<open>Construction\<close>

definition processor_new ::
  "crypto \<Rightarrow> block \<Rightarrow> (address, account) hash_map \<Rightarrow> u64 \<Rightarrow> chain_head \<Rightarrow>
     (block_processor, processor_error) outcome" where
  "processor_new c genesis_block initial_account chain_id head =
     (case insert_block c genesis_block default_provider of
        (Ok _, q) \<Rightarrow>
          and_then (try_fold (\<lambda>q (a, acc).
             let q' = set_account a acc q
             in and_then (map_err Hashing (encode (account_to_rlp_item acc))) (\<lambda>_. Ok q')) q initial_account) (\<lambda>q'.
          Ok \<lparr>pending_map = [], proc_chain_id = chain_id, proc_head = head, provider = q',
              proc_accounts = initial_account, shared_head = head, proc_metrics = zero_metrics\<rparr>)
      | (Err e, _) \<Rightarrow> Err (ProcExecution e)
      | (Panic, _) \<Rightarrow> Panic)"

section \<open>Processing one block\<close>

text \<open>An operation on the provider, as an operation of the processor.\<close>

definition on_provider ::
  "('a, execution_error, in_memory_provider) action \<Rightarrow> ('a, processor_error, block_processor) action" where
  "on_provider m p = (let (r, q) = m (provider p) in (map_err ProcExecution r, p\<lparr>provider := q\<rparr>))"

definition reject_validation :: "processor_error \<Rightarrow> ('a, processor_error, block_processor) action" where
  "reject_validation e = then_do (mutate count_rejected_validation) (\<lambda>_. pure (Err e))"

definition find_parent :: "block \<Rightarrow> (block, processor_error, block_processor) action" where
  "find_parent b p =
     (case get_block_by_hash (provider p) (parent_hash (block_header b)) of
        Ok parent \<Rightarrow> (Ok parent, p)
      | Err _ \<Rightarrow> (Err (ParentNotFound (number (block_header b))), count_rejected_validation p)
      | Panic \<Rightarrow> (Panic, p))"

definition timestamp_reason :: "u64 \<Rightarrow> u64 \<Rightarrow> rust_string" where
  "timestamp_reason parent_timestamp block_timestamp =
     string_lit (''Parent block timestamp '' @ decimal (unat parent_timestamp) @
       '' must be less than incoming block timestamp '' @ decimal (unat block_timestamp))"

definition check_against_parent :: "block \<Rightarrow> block \<Rightarrow> (unit, processor_error, block_processor) action" where
  "check_against_parent parent b =
     (let num = number (block_header b) in
      then_do (pure (add_or_panic (number (block_header parent)) 1)) (\<lambda>next.
      if next \<noteq> num then reject_validation (ProcInvalidBlockNumber num next)
      else if timestamp (block_header parent) \<ge> timestamp (block_header b)
      then reject_validation (ValidationFailed
        (timestamp_reason (timestamp (block_header parent)) (timestamp (block_header b))))
      else
        then_do (reading (\<lambda>p. add_or_panic (head_number (proc_head p)) 1)) (\<lambda>expected.
        if expected \<noteq> num then reject_validation (ProcInvalidBlockNumber num expected)
        else pure (Ok ()))))"

definition build_block_with_senders ::
  "crypto \<Rightarrow> u64 \<Rightarrow> block \<Rightarrow> (block_with_senders, processor_error) outcome" where
  "build_block_with_senders c chain_id b =
     and_then (try_collect (\<lambda>tx. map_err ProcSigning (recover_sender c tx chain_id)) (transactions b)) (\<lambda>ss.
     Ok \<lparr>bws_block = b, senders = ss\<rparr>)"

text \<open>The strict pipeline with at most a hundred transactions; a failed execution is counted.\<close>

definition execute_counted ::
  "crypto \<Rightarrow> block_with_senders \<Rightarrow> (execution_output, processor_error, block_processor) action" where
  "execute_counted c b p =
     (case on_provider (strict_pipeline c 100 b) p of
        (Err e, p') \<Rightarrow> (Err e, count_rejected_execution p')
      | other \<Rightarrow> other)"

definition write_to_shared_head :: "u64 \<Rightarrow> b256 \<Rightarrow> u128 \<Rightarrow> block_processor \<Rightarrow> block_processor" where
  "write_to_shared_head num hash td p =
     p\<lparr>shared_head := \<lparr>head_number = num, head_hash = hash, head_total_difficulty = td\<rparr>\<rparr>"

definition advance_head :: "u64 \<Rightarrow> b256 \<Rightarrow> u128 \<Rightarrow> (unit, processor_error, block_processor) action" where
  "advance_head num hash gas =
     then_do (mutate (\<lambda>p. p\<lparr>proc_head := (proc_head p)\<lparr>head_number := num, head_hash := hash\<rparr>\<rparr>)) (\<lambda>_.
     then_do (reading (\<lambda>p. add_or_panic (head_total_difficulty (proc_head p)) gas)) (\<lambda>td.
     then_do (mutate (\<lambda>p. p\<lparr>proc_head := (proc_head p)\<lparr>head_total_difficulty := td\<rparr>\<rparr>)) (\<lambda>_.
     mutate (write_to_shared_head num hash td))))"

definition process_block :: "crypto \<Rightarrow> block \<Rightarrow> (unit, processor_error, block_processor) action" where
  "process_block c b =
     then_do (find_parent b) (\<lambda>parent.
     then_do (check_against_parent parent b) (\<lambda>_.
     then_do (reading (\<lambda>p. build_block_with_senders c (proc_chain_id p) b)) (\<lambda>bws.
     then_do (execute_counted c bws) (\<lambda>out.
     then_do (pure (map_err Hashing (hash_header c (block_header b)))) (\<lambda>hash.
     then_do (on_provider (insert_block c b)) (\<lambda>_.
     then_do (advance_head (number (block_header b)) hash (ucast (gas_used (block_header b)))) (\<lambda>_.
     mutate (count_committed (of_nat (length (out_receipts out))) (out_gas_used out)))))))))"

text \<open>Processing a block never touches the queue.\<close>

lemma process_block_pending: "keeps (\<lambda>p. pending_map p = m) (process_block c b)"
  unfolding process_block_def check_against_parent_def reject_validation_def advance_head_def Let_def
  by (intro keeps_then_do keeps_pure keeps_reading keeps_mutate)
     (auto simp: keeps_def find_parent_def execute_counted_def on_provider_def count_rejected_validation_def
        count_rejected_execution_def count_committed_def write_to_shared_head_def Let_def then_do_def
        split: outcome.split prod.split)

section \<open>Ordering blocks\<close>

function drain_loop :: "crypto \<Rightarrow> u64 \<Rightarrow> (unit, processor_error, block_processor) action" where
  "drain_loop c next_block_number p =
     (case map_of (pending_map p) next_block_number of
        None \<Rightarrow> (Ok (), p)
      | Some pending \<Rightarrow>
          (case process_block c (pending_block pending)
              (p\<lparr>pending_map := AList.delete next_block_number (pending_map p)\<rparr>) of
             (Panic, p') \<Rightarrow> (Panic, p')
           | (_, p') \<Rightarrow>
               (case checked_add next_block_number 1 of
                  None \<Rightarrow> (Panic, p')
                | Some n \<Rightarrow> drain_loop c n p')))"
  by pat_completeness auto

lemma pending_shrinks:
  assumes "map_of (pending_map p) n = Some pb"
    and "process_block c b (p\<lparr>pending_map := AList.delete n (pending_map p)\<rparr>) = (r, p')"
  shows "length (pending_map p') < length (pending_map p)"
proof -
  have "pending_map p' = AList.delete n (pending_map p)"
    using keepsD [OF process_block_pending, of "p\<lparr>pending_map := AList.delete n (pending_map p)\<rparr>" _ c b] assms(2)
    by simp
  then show ?thesis using length_hm_delete [of n "pending_map p"] map_of_SomeD [OF assms(1)] by force
qed

termination drain_loop
  by (relation "measure (\<lambda>(c, n, p). length (pending_map p))") (auto dest: pending_shrinks [OF _ sym])

declare drain_loop.simps [simp del]

definition try_drain :: "crypto \<Rightarrow> (unit, processor_error, block_processor) action" where
  "try_drain c =
     then_do (reading (\<lambda>p. add_or_panic (head_number (proc_head p)) 1)) (\<lambda>next_block_number.
     drain_loop c next_block_number)"

definition handle_new_block ::
  "crypto \<Rightarrow> block \<Rightarrow> peer_id \<Rightarrow> (unit, processor_error, block_processor) action" where
  "handle_new_block c b peer =
     then_do (reading (\<lambda>p. Ok (head_number (proc_head p)))) (\<lambda>current_head_number.
     then_do (pure (add_or_panic current_head_number 1)) (\<lambda>expected_next_number.
     then_do (mutate count_received) (\<lambda>_.
     if number (block_header b) \<le> current_head_number
     then reject_validation (ProcInvalidBlockNumber (number (block_header b)) expected_next_number)
     else
       then_do (mutate (\<lambda>p. p\<lparr>pending_map := AList.update (number (block_header b))
          \<lparr>pending_block = b, pending_peer = peer\<rparr> (pending_map p)\<rparr>)) (\<lambda>_.
       try_drain c))))"

section \<open>The loop of the task\<close>

text \<open>
  The task reads messages until it is told to stop or the channel closes (the end of the list), drains
  once more and drops what is still queued. Errors are only logged; a panic ends the task at once.
  The result lists the replies to account queries.
\<close>

definition stop :: "crypto \<Rightarrow> (unit, processor_error, block_processor) action" where
  "stop c p =
     (case try_drain c p of
        (Panic, p') \<Rightarrow> (Panic, p')
      | (_, p') \<Rightarrow> (Ok (), p'\<lparr>pending_map := []\<rparr>))"

fun run :: "crypto \<Rightarrow> processor_message list \<Rightarrow>
    ((account, processor_error) outcome list, processor_error, block_processor) action" where
  "run c [] p = then_do (stop c) (\<lambda>_. pure (Ok [])) p"
| "run c (ProcShutdown # msgs) p = then_do (stop c) (\<lambda>_. pure (Ok [])) p"
| "run c (ProcNewBlock b peer # msgs) p =
     (case handle_new_block c b peer p of
        (Panic, p') \<Rightarrow> (Panic, p')
      | (_, p') \<Rightarrow> run c msgs p')"
| "run c (ProcGetAccountState a # msgs) p =
     then_do (run c msgs) (\<lambda>replies.
     pure (Ok (map_err ProcExecution (get_account (provider p) a) # replies))) p"

section \<open>What a processed block does\<close>

text \<open>The part of the state that decides the fate of a block.\<close>

definition same_core :: "block_processor \<Rightarrow> block_processor \<Rightarrow> bool" where
  "same_core p q \<longleftrightarrow> provider q = provider p \<and> proc_head q = proc_head p \<and>
     proc_chain_id q = proc_chain_id p \<and> shared_head q = shared_head p"

lemma count_same_core [simp]:
  "same_core p (count_received p)" "same_core p (count_rejected_validation p)"
  by (simp_all add: same_core_def count_received_def count_rejected_validation_def)

lemma find_parent_cases:
  "find_parent b p = (Ok parent, p') \<longleftrightarrow>
     p' = p \<and> get_block_by_hash (provider p) (parent_hash (block_header b)) = Ok parent"
  by (auto simp: find_parent_def split: outcome.split)

lemma check_against_parent_Ok:
  "check_against_parent parent b p = (Ok (), p') \<longleftrightarrow>
     p' = p \<and> unat (number (block_header b)) = unat (number (block_header parent)) + 1 \<and>
     timestamp (block_header parent) < timestamp (block_header b) \<and>
     unat (number (block_header b)) = unat (head_number (proc_head p)) + 1"
  by (auto simp: check_against_parent_def Let_def outcome_iffs add_or_panic_def checked_add_unat
      reject_validation_def word_unat_eq_iff not_le split: if_splits)

lemma build_block_with_senders_Ok:
  "build_block_with_senders c chain_id b = Ok bws \<longleftrightarrow>
     bws_block bws = b \<and> bws = \<lparr>bws_block = b, senders = senders bws\<rparr> \<and>
     list_all2 (\<lambda>tx s. recover_sender c tx chain_id = Ok s) (transactions b) (senders bws)"
  by (auto simp: build_block_with_senders_def outcome_iffs try_collect_Ok_iff)

lemma on_provider_Ok: "on_provider m p = (Ok x, p') \<longleftrightarrow> (\<exists>q. m (provider p) = (Ok x, q) \<and> p' = p\<lparr>provider := q\<rparr>)"
  by (auto simp: on_provider_def split: prod.split)

lemma on_provider_Err:
  "on_provider m p = (Err e, p') \<longleftrightarrow>
     (\<exists>e' q. m (provider p) = (Err e', q) \<and> e = ProcExecution e' \<and> p' = p\<lparr>provider := q\<rparr>)"
  by (auto simp: on_provider_def map_err_Err_iff split: prod.split)

lemma execute_counted_Ok:
  "execute_counted c bws p = (Ok out, p') \<longleftrightarrow>
     (\<exists>q. strict_pipeline c 100 bws (provider p) = (Ok out, q) \<and> p' = p\<lparr>provider := q\<rparr>)"
proof -
  obtain r q where "strict_pipeline c 100 bws (provider p) = (r, q)" by fastforce
  then show ?thesis by (cases r) (auto simp: execute_counted_def on_provider_def)
qed

lemma advance_head_Ok:
  "advance_head num hash gas p = (Ok (), p') \<longleftrightarrow>
     (\<exists>td. unat td = unat (head_total_difficulty (proc_head p)) + unat gas \<and>
        p' = p\<lparr>proc_head := \<lparr>head_number = num, head_hash = hash, head_total_difficulty = td\<rparr>,
               shared_head := \<lparr>head_number = num, head_hash = hash, head_total_difficulty = td\<rparr>\<rparr>)"
  by (auto simp: advance_head_def outcome_iffs add_or_panic_def checked_add_unat write_to_shared_head_def)

lemma process_block_OkE:
  assumes "process_block c b p = (Ok (), p')"
  obtains parent bws out q h q' td where
    "get_block_by_hash (provider p) (parent_hash (block_header b)) = Ok parent"
    "unat (number (block_header b)) = unat (number (block_header parent)) + 1"
    "timestamp (block_header parent) < timestamp (block_header b)"
    "unat (number (block_header b)) = unat (head_number (proc_head p)) + 1"
    "build_block_with_senders c (proc_chain_id p) b = Ok bws"
    "strict_pipeline c 100 bws (provider p) = (Ok out, q)"
    "hash_header c (block_header b) = Ok h" "insert_block c b q = (Ok (), q')"
    "unat td = unat (head_total_difficulty (proc_head p)) + unat (gas_used (block_header b))"
    "p' = count_committed (of_nat (length (out_receipts out))) (out_gas_used out)
      (p\<lparr>provider := q',
         proc_head := \<lparr>head_number = number (block_header b), head_hash = h, head_total_difficulty = td\<rparr>,
         shared_head := \<lparr>head_number = number (block_header b), head_hash = h, head_total_difficulty = td\<rparr>\<rparr>)"
  using assms
  by (auto simp: process_block_def outcome_iffs find_parent_cases check_against_parent_Ok execute_counted_Ok
      on_provider_Ok advance_head_Ok intro: that)

text \<open>A block that executes has hashes for all its transactions, so storing it cannot fail.\<close>

lemma insert_block_total:
  assumes "\<forall>stx \<in> set (transactions b). \<exists>h. signed_transaction_hash c stx = Ok h"
  shows "\<exists>q'. insert_block c b q = (Ok (), q')"
proof -
  have "\<exists>q'. for_each (\<lambda>_ tx. then_do (pure (map_err ExecSigning (signed_transaction_hash c tx)))
      (\<lambda>h. mutate (insert_transaction h tx num))) () txs q = (Ok (), q')"
    if "\<forall>stx \<in> set txs. \<exists>h. signed_transaction_hash c stx = Ok h" for num txs q
    using that by (induction txs arbitrary: q) (auto simp: then_do_def)
  note loop = this [OF assms]
  obtain q' where "for_each (\<lambda>_ tx. then_do (pure (map_err ExecSigning (signed_transaction_hash c tx)))
      (\<lambda>h. mutate (insert_transaction h tx (number (block_header b))))) () (transactions b)
      (q\<lparr>blocks_by_hash := AList.update (keccak256 c (rlp_bytes (header_to_rlp_item (block_header b))))
        (number (block_header b)) (blocks_by_hash q)\<rparr>) = (Ok (), q')"
    using loop by blast
  then show ?thesis by (simp add: insert_block_def then_do_def hash_header_eq)
qed

lemma execute_hashes:
  assumes "execute c bws p = (Ok out, p')" and "length (senders bws) = length (transactions (bws_block bws))"
  shows "\<forall>stx \<in> set (transactions (bws_block bws)). \<exists>h. signed_transaction_hash c stx = Ok h"
proof -
  obtain rs where rs: "list_all2 (receipt_for c (block_header (bws_block bws))) (indexed bws) rs"
    using assms(1) by (rule execute_OkE) (drule (1) loop_receipts_spec, auto)
  have "\<exists>h. signed_transaction_hash c (transactions (bws_block bws) ! i) = Ok h"
    if "i < length (transactions (bws_block bws))" for i
    using list_all2_nthD [OF rs, of i] that assms(2) by (auto simp: indexed_def receipt_for_def)
  then show ?thesis by (auto simp: in_set_conv_nth)
qed

text \<open>Everything of the core but the counters is as before.\<close>

definition core_kept :: "block_processor \<Rightarrow> block_processor \<Rightarrow> bool" where
  "core_kept p p' \<longleftrightarrow>
     accounts (provider p') = accounts (provider p) \<and> journal (provider p') = None \<and>
     same_chain (provider p) (provider p') \<and> proc_head p' = proc_head p \<and>
     shared_head p' = shared_head p \<and> proc_chain_id p' = proc_chain_id p"

lemma same_core_kept: "journal (provider p) = None \<Longrightarrow> same_core p p' \<Longrightarrow> core_kept p p'"
  by (simp add: core_kept_def same_core_def same_chain_def)

lemma find_parent_Err: "find_parent b p = (Err e, p') \<Longrightarrow> same_core p p'"
  by (auto simp: find_parent_def split: outcome.splits)

lemma check_against_parent_Err: "check_against_parent parent b p = (Err e, p') \<Longrightarrow> same_core p p'"
  by (auto simp: check_against_parent_def Let_def then_do_Err_iff add_or_panic_def reject_validation_def
      split: if_splits)

lemma execute_counted_Err:
  assumes "execute_counted c bws p = (Err e, p')" and "journal (provider p) = None"
  shows "core_kept p p'"
proof -
  from assms(1) obtain e' q where q: "strict_pipeline c 100 bws (provider p) = (Err e', q)"
    "p' = count_rejected_execution (p\<lparr>provider := q\<rparr>)"
    by (auto simp: execute_counted_def on_provider_def Let_def map_err_Err_iff split: prod.splits outcome.splits)
  from strict_transfers.pipeline_Err [OF assms(2) q(1)] q(2) show ?thesis
    by (simp add: core_kept_def count_rejected_execution_def)
qed

lemma stored_after_execution:
  assumes "strict_pipeline c 100 bws (provider p) = (Ok out, q)" and "journal (provider p) = None"
    and "build_block_with_senders c chain_id b = Ok bws"
  shows "\<exists>q'. insert_block c b q = (Ok (), q')"
  using assms(2,1)
proof (rule strict_transfers.pipeline_Ok)
  fix r
  assume "execute c bws ((provider p)\<lparr>journal := Some []\<rparr>) = (Ok out, r)"
  moreover have "bws_block bws = b" "length (senders bws) = length (transactions b)"
    using assms(3) by (auto simp: build_block_with_senders_Ok dest: list_all2_lengthD)
  ultimately have "\<forall>stx \<in> set (transactions b). \<exists>h. signed_transaction_hash c stx = Ok h"
    using execute_hashes by blast
  then show ?thesis by (rule insert_block_total)
qed

lemma process_block_Err:
  assumes "process_block c b p = (Err e, p')" and "journal (provider p) = None"
  shows "core_kept p p'"
proof -
  have store: "insert_block c b q \<noteq> (Err e', q')"
    if "build_block_with_senders c (proc_chain_id p) b = Ok bws"
      "strict_pipeline c 100 bws (provider p) = (Ok out, q)" for bws out q q' e'
    using stored_after_execution [OF that(2) assms(2) that(1)] by auto
  have advance: "advance_head num h gas r \<noteq> (Err e', r')" for num h gas r r' e'
    by (auto simp: advance_head_def then_do_Err_iff add_or_panic_def)
  show ?thesis
    using assms store advance
    by (auto simp: process_block_def then_do_Err_iff find_parent_cases check_against_parent_Ok execute_counted_Ok
        on_provider_Ok on_provider_Err map_err_Err_iff hash_header_eq
        dest: find_parent_Err check_against_parent_Err execute_counted_Err intro: same_core_kept) (simp add: same_core_kept same_core_def)
qed

section \<open>The chain and its ledger\<close>

text \<open>Blocks are stored under their numbers, up to the head; each but the first extends the one before it.
  The head is stored, and found by its hash.\<close>

definition extends :: "crypto \<Rightarrow> block \<Rightarrow> block \<Rightarrow> bool" where
  "extends c parent b \<longleftrightarrow>
     hash_header c (block_header parent) = Ok (parent_hash (block_header b)) \<and>
     unat (number (block_header b)) = unat (number (block_header parent)) + 1 \<and>
     timestamp (block_header parent) < timestamp (block_header b)"

definition chain_ok :: "crypto \<Rightarrow> in_memory_provider \<Rightarrow> chain_head \<Rightarrow> bool" where
  "chain_ok c q head \<longleftrightarrow>
     (\<forall>n b. map_of (blocks q) n = Some b \<longrightarrow>
        number (block_header b) = n \<and> n \<le> head_number head \<and>
        (n = 0 \<or> (\<exists>parent. map_of (blocks q) (n - 1) = Some parent \<and> extends c parent b))) \<and>
     (\<exists>b. map_of (blocks q) (head_number head) = Some b \<and>
        hash_header c (block_header b) = Ok (head_hash head)) \<and>
     map_of (blocks_by_hash q) (head_hash head) = Some (head_number head)"

text \<open>What the specification makes of a block, and of a chain of blocks.\<close>

definition spec_block :: "crypto \<Rightarrow> u64 \<Rightarrow> block \<Rightarrow> ledger \<Rightarrow> ledger option" where
  "spec_block c chain_id b L =
     (case build_block_with_senders c chain_id b of
        Ok bws \<Rightarrow> spec_run (unat (base_fee_per_gas (block_header b))) (transfers bws) L
      | _ \<Rightarrow> None)"

primrec spec_chain :: "crypto \<Rightarrow> u64 \<Rightarrow> block list \<Rightarrow> ledger \<Rightarrow> ledger option" where
  "spec_chain c chain_id [] L = Some L"
| "spec_chain c chain_id (b # bs) L = Option.bind (spec_block c chain_id b L) (spec_chain c chain_id bs)"

lemma spec_chain_append:
  "spec_chain c chain_id (bs @ bs') L = Option.bind (spec_chain c chain_id bs L) (spec_chain c chain_id bs')"
proof (induction bs arbitrary: L)
  case (Cons b bs)
  then show ?case by (cases "spec_block c chain_id b L") simp_all
qed simp

text \<open>The blocks after genesis, in order.\<close>

definition committed :: "in_memory_provider \<Rightarrow> chain_head \<Rightarrow> block list" where
  "committed q head = map (\<lambda>n. the (map_of (blocks q) (of_nat n))) [1..<Suc (unat (head_number head))]"

definition processor_inv :: "crypto \<Rightarrow> ledger \<Rightarrow> block_processor \<Rightarrow> bool" where
  "processor_inv c L0 p \<longleftrightarrow>
     provider_ok (provider p) \<and> journal (provider p) = None \<and> shared_head p = proc_head p \<and>
     chain_ok c (provider p) (proc_head p) \<and>
     spec_chain c (proc_chain_id p) (committed (provider p) (proc_head p)) L0 = Some (ledger_of (provider p))"

lemma same_chain_committed:
  "same_chain q q' \<Longrightarrow> committed q' head = committed q head \<and> chain_ok c q' head = chain_ok c q head"
  by (simp add: same_chain_def committed_def chain_ok_def)

lemma process_block_provider_ok: "keeps (\<lambda>p. provider_ok (provider p)) (process_block c b)"
proof -
  have "keeps (\<lambda>p. provider_ok (provider p)) (on_provider m)" if "keeps provider_ok m"
    for m :: "('a, execution_error, in_memory_provider) action"
    using that by (auto simp: keeps_def on_provider_def Let_def split: prod.splits)
  note lift = this
  have "keeps (\<lambda>p. provider_ok (provider p)) (execute_counted c bws)" for bws
  proof (rule keepsI)
    fix p :: block_processor
    assume "provider_ok (provider p)"
    with strict_transfers.pipeline_ok [of "provider p" c 100 bws]
    show "provider_ok (provider (snd (execute_counted c bws p)))"
      by (auto simp: execute_counted_def on_provider_def Let_def count_rejected_execution_def
          split: prod.splits outcome.splits)
  qed
  then show ?thesis
    unfolding process_block_def check_against_parent_def reject_validation_def advance_head_def Let_def
    by (intro keeps_then_do keeps_pure keeps_reading keeps_mutate lift provider_ok_insert_block)
       (auto simp: keeps_def find_parent_def count_rejected_validation_def count_committed_def
          write_to_shared_head_def then_do_def split: outcome.split)
qed

lemma committed_extend:
  assumes "blocks q' = AList.update (number (block_header b)) b (blocks q)"
    and "unat (number (block_header b)) = unat (head_number head) + 1"
    and "head_number head' = number (block_header b)"
  shows "committed q' head' = committed q head @ [b]"
proof -
  have "(of_nat n :: u64) \<noteq> number (block_header b)" if "n \<le> unat (head_number head)" for n
  proof -
    have "n < 2 ^ 64" using that unsigned_less [of "head_number head", where ?'a = nat] by simp
    then have "unat (of_nat n :: u64) = n" by (simp add: unat_of_nat take_bit_nat_eq_self)
    then show ?thesis using that assms(2) by auto
  qed
  moreover have "of_nat (unat (head_number head) + 1) = number (block_header b)"
    unfolding assms(2) [symmetric] by (simp only: of_nat_unat ucast_id)
  ultimately show ?thesis
    using assms by (auto simp: committed_def update_conv')
qed

lemma pipeline_parent:
  assumes "chain_ok c q head" and "get_block_by_hash q hash = Ok parent"
    and "unat n = unat (number (block_header parent)) + 1" "unat n = unat (head_number head) + 1"
  shows "map_of (blocks q) (head_number head) = Some parent"
    and "get_header_by_hash q hash = Ok (block_header parent)"
proof -
  obtain m where m: "map_of (blocks_by_hash q) hash = Some m" "map_of (blocks q) m = Some parent"
    using assms(2) by (auto simp: getter_defs outcome_iffs)
  then have "number (block_header parent) = m" using assms(1) by (auto simp: chain_ok_def)
  with assms(3,4) have "m = head_number head" by (simp add: word_unat_eq_iff)
  with m show "map_of (blocks q) (head_number head) = Some parent"
    "get_header_by_hash q hash = Ok (block_header parent)"
    by (simp_all add: getter_defs)
qed

lemma chain_ok_extend:
  assumes ok: "chain_ok c q head" and parent: "map_of (blocks q) (head_number head) = Some parent"
    and ext: "extends c parent b" and hash: "hash_header c (block_header b) = Ok h"
    and q': "blocks q' = AList.update (number (block_header b)) b (blocks q)"
    and index: "map_of (blocks_by_hash q') h = Some (number (block_header b))"
  shows "chain_ok c q' \<lparr>head_number = number (block_header b), head_hash = h, head_total_difficulty = td\<rparr>"
proof -
  let ?n = "number (block_header b)"
  have "number (block_header parent) = head_number head" using ok parent by (auto simp: chain_ok_def)
  then have n: "unat ?n = unat (head_number head) + 1" using ext by (simp add: extends_def)
  have "(1 :: u64) \<le> ?n" using n by (simp add: word_le_nat_alt)
  from unat_sub [OF this] n have "unat (?n - 1) = unat (head_number head)" by simp
  then have prev: "?n - 1 = head_number head" by (simp only: word_unat_eq_iff)
  show ?thesis
    unfolding chain_ok_def
  proof (intro conjI allI impI)
    fix m b'
    assume b': "map_of (blocks q') m = Some b'"
    let ?goal = "number (block_header b') = m \<and> m \<le> ?n \<and>
      (m = 0 \<or> (\<exists>parent. map_of (blocks q') (m - 1) = Some parent \<and> extends c parent b'))"
    have ?goal
    proof (cases "m = ?n")
      case True
      with b' have "b' = b" by (simp add: q' update_conv')
      moreover have "head_number head \<noteq> ?n" using n by auto
      ultimately show ?thesis using True ext parent by (auto simp: q' update_conv' prev)
    next
      case False
      then have old: "map_of (blocks q) m = Some b'" using b' by (simp add: q' update_conv')
      then have m: "number (block_header b') = m" "m \<le> head_number head"
        and parents: "m = 0 \<or> (\<exists>parent. map_of (blocks q) (m - 1) = Some parent \<and> extends c parent b')"
        using ok unfolding chain_ok_def by blast+
      have "unat m < unat ?n" using m(2) n by (simp add: word_le_nat_alt)
      moreover have "m \<noteq> 0 \<Longrightarrow> unat (m - 1) \<le> unat m"
        using unat_sub [of 1 m] by (simp add: word_le_nat_alt unat_gt_0 Suc_le_eq)
      ultimately have "m \<noteq> 0 \<Longrightarrow> m - 1 \<noteq> ?n" "m \<le> ?n" by (auto simp: word_le_nat_alt)
      with m(1) parents show ?thesis by (auto simp: q' update_conv')
    qed
    then show "number (block_header b') = m"
      "m \<le> head_number \<lparr>head_number = ?n, head_hash = h, head_total_difficulty = td\<rparr>"
      "m = 0 \<or> (\<exists>parent. map_of (blocks q') (m - 1) = Some parent \<and> extends c parent b')" by simp_all
  qed (simp_all add: q' update_conv' hash index)
qed

lemma process_block_commits:
  assumes inv: "processor_inv c L0 p" and "process_block c b p = (Ok (), p')"
  shows "processor_inv c L0 p' \<and> proc_chain_id p' = proc_chain_id p \<and>
    head_number (proc_head p') = number (block_header b) \<and>
    unat (number (block_header b)) = unat (head_number (proc_head p)) + 1 \<and>
    spec_block c (proc_chain_id p) b (ledger_of (provider p)) = Some (ledger_of (provider p')) \<and>
    committed (provider p') (proc_head p') = committed (provider p) (proc_head p) @ [b] \<and>
    blocks (provider p') = AList.update (number (block_header b)) b (blocks (provider p))"
  using assms(2)
proof (rule process_block_OkE)
  fix parent bws out q h q' td
  let ?hd = "\<lparr>head_number = number (block_header b), head_hash = h, head_total_difficulty = td\<rparr>"
  assume parent: "get_block_by_hash (provider p) (parent_hash (block_header b)) = Ok parent"
    "unat (number (block_header b)) = unat (number (block_header parent)) + 1"
    and time: "timestamp (block_header parent) < timestamp (block_header b)"
    and num: "unat (number (block_header b)) = unat (head_number (proc_head p)) + 1"
    and bws: "build_block_with_senders c (proc_chain_id p) b = Ok bws"
    and run: "strict_pipeline c 100 bws (provider p) = (Ok out, q)"
    and hash: "hash_header c (block_header b) = Ok h" and stored: "insert_block c b q = (Ok (), q')"
    and p': "p' = count_committed (of_nat (length (out_receipts out))) (out_gas_used out)
      (p\<lparr>provider := q', proc_head := ?hd, shared_head := ?hd\<rparr>)"
  have b: "bws_block bws = b" using bws by (simp add: build_block_with_senders_Ok)
  have ok: "chain_ok c (provider p) (proc_head p)" and j: "journal (provider p) = None"
    using inv by (simp_all add: processor_inv_def)
  note found = pipeline_parent [OF ok parent num]
  obtain r where r: "execute c bws ((provider p)\<lparr>journal := Some []\<rparr>) = (Ok out, r)" "q = commit_journal r"
    "same_chain (provider p) q" "hash_header c (block_header parent) = Ok (parent_hash (block_header b))"
    using j run by (rule strict_transfers.pipeline_Ok) (use found(2) b in auto)
  have st: "blocks q' = AList.update (number (block_header b)) b (blocks (provider p))"
    "ledger_of q' = ledger_of q" "journal q' = journal q"
    "map_of (blocks_by_hash q') h = Some (number (block_header b))"
    using stored r(3) hash by (auto elim!: insert_block_Ok simp: ledger_of_def same_chain_def fun_eq_iff update_conv')
  have spec: "spec_block c (proc_chain_id p) b (ledger_of (provider p)) = Some (ledger_of q')"
    using r(1,2) st(2) bws b by (auto elim!: execute_OkE dest!: loop_refines simp: spec_block_def transfers_indexed)
  then have "spec_chain c (proc_chain_id p) (committed q' ?hd) L0 = Some (ledger_of q')"
    using inv committed_extend [OF st(1) num, of ?hd] by (simp add: spec_chain_append processor_inv_def)
  moreover have "chain_ok c q' ?hd"
    using chain_ok_extend [OF ok found(1) _ hash st(1,4)] r(4) parent(2) time by (simp add: extends_def)
  moreover have "provider_ok q'"
    using keepsD [OF process_block_provider_ok, of p c b] inv assms(2) p'
    by (simp add: processor_inv_def count_committed_def)
  moreover have "journal q' = None" using st(3) r(2) by (simp add: commit_journal_def)
  ultimately show ?thesis
    using num spec st(1) committed_extend [OF st(1) num, of ?hd] by (simp add: processor_inv_def p' count_committed_def)
qed

lemma process_block_rejects:
  assumes inv: "processor_inv c L0 p" and "process_block c b p = (Err e, p')"
  shows "processor_inv c L0 p' \<and> proc_chain_id p' = proc_chain_id p \<and> proc_head p' = proc_head p \<and>
    blocks (provider p') = blocks (provider p)"
proof -
  have "core_kept p p'" using process_block_Err [OF assms(2)] inv by (simp add: processor_inv_def)
  moreover have "provider_ok (provider p')"
    using keepsD [OF process_block_provider_ok, of p c b] assms by (simp add: processor_inv_def)
  ultimately show ?thesis
    using inv same_chain_committed [of "provider p" "provider p'" "proc_head p" c]
    by (simp add: processor_inv_def core_kept_def ledger_of_def fun_eq_iff same_chain_def)
qed

section \<open>Valid blocks are accepted\<close>

text \<open>What the chain asks of the next block, and what its transactions need of the accounts.\<close>

definition next_header :: "block_processor \<Rightarrow> header \<Rightarrow> bool" where
  "next_header p hdr \<longleftrightarrow>
     parent_hash hdr = head_hash (proc_head p) \<and> unat (number hdr) = unat (head_number (proc_head p)) + 1 \<and>
     (case map_of (blocks (provider p)) (head_number (proc_head p)) of
        None \<Rightarrow> False
      | Some parent \<Rightarrow> timestamp (block_header parent) < timestamp hdr) \<and>
     gas_used hdr \<le> gas_limit hdr \<and>
     unat (head_total_difficulty (proc_head p)) + unat (gas_used hdr) < 2 ^ 128"

definition executable_on :: "block_processor \<Rightarrow> block_with_senders \<Rightarrow> ledger \<Rightarrow> bool" where
  "executable_on p bws L \<longleftrightarrow>
     spec_run (unat (base_fee_per_gas (block_header (bws_block bws)))) (transfers bws) (ledger_of (provider p)) =
       Some L \<and>
     length (transactions (bws_block bws)) \<le> 100 \<and> total_balance (provider p) < 2 ^ 128 \<and>
     nonces_below (length (transfers bws)) (ledger_of (provider p)) \<and> block_gas bws < 2 ^ 64 \<and>
     list_all (tx_fits (block_header (bws_block bws))) (transactions (bws_block bws))"

lemma provider_ok_begin [simp]: "provider_ok q \<Longrightarrow> provider_ok (q\<lparr>journal := Some []\<rparr>)"
  by (simp add: provider_ok_def)

lemma total_balance_journal [simp]: "total_balance (q\<lparr>journal := j\<rparr>) = total_balance q"
  by (simp add: total_balance_def)

lemma execute_balance_le:
  assumes "execute c b q = (Ok out, q')" and "provider_ok q"
  shows "total_balance q' \<le> total_balance q"
  using assms(1) by (rule execute_OkE) (use loop_conserves assms(2) in fastforce)

lemma strict_pipeline_complete:
  assumes "get_header_by_hash q (parent_hash (block_header (bws_block bws))) = Ok parent"
    and "hash_header c parent = Ok (parent_hash (block_header (bws_block bws)))"
    and "unat (number (block_header (bws_block bws))) = unat (number parent) + 1"
    and "gas_used (block_header (bws_block bws)) \<le> gas_limit (block_header (bws_block bws))"
    and "length (transactions (bws_block bws)) \<le> max_txs" and "journal q = None"
    and "execute c bws (q\<lparr>journal := Some []\<rparr>) = (Ok out, q')"
  shows "strict_pipeline c max_txs bws q = (Ok out, commit_journal q')"
proof -
  have "strict_validate_header c (block_header (bws_block bws)) parent = Ok ()"
    using assms(2-4) checked_add_unat [of "number parent" 1 "number (block_header (bws_block bws))"]
    by (simp add: strict_validate_header_def check_parent_hash_def check_gas_def)
  with assms show ?thesis
    by (simp add: pipeline_execute_def then_do_def strict_validate_body_def check_body_def begin_journal_def settle_def)
qed

lemma process_block_complete:
  assumes inv: "processor_inv c L0 p" and bws: "build_block_with_senders c (proc_chain_id p) b = Ok bws"
    and hdr: "next_header p (block_header b)" and txs: "executable_on p bws L"
  shows "\<exists>p'. process_block c b p = (Ok (), p') \<and> ledger_of (provider p') = L \<and>
    total_balance (provider p') \<le> total_balance (provider p) \<and>
    map_of (blocks (provider p')) (number (block_header b)) = Some b"
proof -
  let ?q = "provider p" and ?hdr = "block_header b"
  have b: "bws_block bws = b" using bws by (simp add: build_block_with_senders_Ok)
  have ok: "chain_ok c ?q (proc_head p)" "journal ?q = None" "provider_ok ?q"
    using inv by (simp_all add: processor_inv_def)
  obtain parent where parent: "map_of (blocks ?q) (head_number (proc_head p)) = Some parent"
    "hash_header c (block_header parent) = Ok (head_hash (proc_head p))"
    "map_of (blocks_by_hash ?q) (head_hash (proc_head p)) = Some (head_number (proc_head p))"
    "number (block_header parent) = head_number (proc_head p)"
    using ok(1) unfolding chain_ok_def by blast
  have found: "get_block_by_hash ?q (parent_hash ?hdr) = Ok parent"
    "get_header_by_hash ?q (parent_hash ?hdr) = Ok (block_header parent)"
    using parent hdr by (simp_all add: getter_defs next_header_def)
  obtain out q where q: "execute c bws (?q\<lparr>journal := Some []\<rparr>) = (Ok out, q)" "ledger_of q = L"
    using execute_complete [of bws "?q\<lparr>journal := Some []\<rparr>" L c] txs ok
    by (auto simp: executable_on_def list_all_iff)
  have run: "strict_pipeline c 100 bws ?q = (Ok out, commit_journal q)"
    by (rule strict_pipeline_complete [of _ _ "block_header parent"])
       (use found(2) parent hdr txs ok(2) q(1) in \<open>simp_all add: b next_header_def executable_on_def\<close>)
  obtain q' where q': "insert_block c b (commit_journal q) = (Ok (), q')"
    using stored_after_execution [OF run ok(2) bws] by blast
  obtain h where h: "hash_header c ?hdr = Ok h" by (simp add: hash_header_eq)
  obtain td where "checked_add (head_total_difficulty (proc_head p)) (ucast (gas_used ?hdr)) = Some td"
    using checked_add_ex [of "head_total_difficulty (proc_head p)" "ucast (gas_used ?hdr)"] hdr
    by (auto simp: next_header_def)
  then have td: "advance_head (number ?hdr) h (ucast (gas_used ?hdr)) r =
      (Ok (), r\<lparr>proc_head := \<lparr>head_number = number ?hdr, head_hash = h, head_total_difficulty = td\<rparr>,
         shared_head := \<lparr>head_number = number ?hdr, head_hash = h, head_total_difficulty = td\<rparr>\<rparr>)"
    if "proc_head r = proc_head p" for r
    using that by (simp add: advance_head_def then_do_def add_or_panic_def write_to_shared_head_def)
  have checks: "find_parent b p = (Ok parent, p)" "check_against_parent parent b p = (Ok (), p)"
    using found(1) hdr parent(1,4) by (simp_all add: find_parent_cases check_against_parent_Ok next_header_def)
  have exec: "execute_counted c bws p = (Ok out, p\<lparr>provider := commit_journal q\<rparr>)"
    using run by (simp add: execute_counted_Ok)
  have frame: "ledger_of q' = ledger_of q" "total_balance q' = total_balance q"
    "map_of (blocks q') (number ?hdr) = Some b"
    using q' by (auto elim!: insert_block_Ok simp: ledger_of_def fun_eq_iff total_balance_def commit_journal_def
        update_conv')
  show ?thesis
    using frame q(2) execute_balance_le [OF q(1)] ok(3)
    by (simp add: process_block_def then_do_def checks bws exec h on_provider_def q' td count_committed_def)
qed

end
