(* ===== verification/Delivery.thy ===== *)
theory Delivery
  imports Processor "HOL-Library.Sublist"
begin

text \<open>
  How the processor of \<^verbatim>\<open>processor/src/block_processor.rs\<close> behaves over a whole run: what its queue holds
  between messages, the state it starts from, that the order in which blocks are delivered does not
  matter, a sample node, and the properties of the component.
\<close>

section \<open>The queue\<close>

text \<open>A queued block is filed under its number, which is at least \<open>n\<close>.\<close>

definition queue_from :: "nat \<Rightarrow> block_processor \<Rightarrow> bool" where
  "queue_from n p \<longleftrightarrow>
     hm_ok (pending_map p) \<and>
     (\<forall>k pb. map_of (pending_map p) k = Some pb \<longrightarrow>
        number (block_header (pending_block pb)) = k \<and> n \<le> unat k)"

abbreviation head_at :: "block_processor \<Rightarrow> nat" where
  "head_at p \<equiv> unat (head_number (proc_head p))"

text \<open>The chain only grows: blocks that are stored stay, and the committed blocks stay in front.\<close>

abbreviation chain_of :: "block_processor \<Rightarrow> block list" where
  "chain_of p \<equiv> committed (provider p) (proc_head p)"

definition grows :: "block_processor \<Rightarrow> block_processor \<Rightarrow> bool" where
  "grows p p' \<longleftrightarrow>
     map_of (blocks (provider p)) \<subseteq>\<^sub>m map_of (blocks (provider p')) \<and> prefix (chain_of p) (chain_of p')"

lemma grows_refl [simp]: "grows p p"
  by (simp add: grows_def)

lemma grows_trans: "grows p q \<Longrightarrow> grows q r \<Longrightarrow> grows p r"
  by (auto simp: grows_def intro: map_le_trans)

lemma grows_frame:
  "provider q = provider p \<Longrightarrow> proc_head q = proc_head p \<Longrightarrow> grows q r = grows p r"
  "provider q = provider p \<Longrightarrow> proc_head q = proc_head p \<Longrightarrow> grows r q = grows r p"
  by (simp_all add: grows_def)

lemma commit_grows:
  assumes "processor_inv c L0 p" and "process_block c b p = (Ok (), p')"
  shows "grows p p'"
proof -
  note commits = process_block_commits [OF assms]
  have "map_of (blocks (provider p)) (number (block_header b)) = None"
  proof (rule ccontr)
    assume "map_of (blocks (provider p)) (number (block_header b)) \<noteq> None"
    then have "number (block_header b) \<le> head_number (proc_head p)"
      using assms(1) by (auto simp: processor_inv_def chain_ok_def)
    with commits show False by (simp add: word_le_nat_alt)
  qed
  with commits show ?thesis by (auto simp: grows_def map_le_def update_conv')
qed

lemma reject_grows:
  assumes "processor_inv c L0 p" and "process_block c b p = (Err e, p')"
  shows "grows p p'"
  using process_block_rejects [OF assms] by (simp add: grows_def committed_def)

text \<open>Between messages, the queue holds only blocks that still wait for a missing one.\<close>

definition settled :: "crypto \<Rightarrow> ledger \<Rightarrow> u64 \<Rightarrow> block_processor \<Rightarrow> bool" where
  "settled c L0 chain_id p \<longleftrightarrow>
     processor_inv c L0 p \<and> proc_chain_id p = chain_id \<and> queue_from (head_at p + 2) p"

lemma processor_inv_frame [simp]:
  "processor_inv c L0 (p\<lparr>pending_map := m\<rparr>) = processor_inv c L0 p"
  "processor_inv c L0 (count_received p) = processor_inv c L0 p"
  "processor_inv c L0 (count_rejected_validation p) = processor_inv c L0 p"
  by (simp_all add: processor_inv_def count_received_def count_rejected_validation_def)

lemma queue_from_next:
  assumes "queue_from (unat n) p"
  shows "queue_from (unat n + 1) (p\<lparr>pending_map := AList.delete n (pending_map p)\<rparr>)"
proof -
  have "unat n + 1 \<le> unat k" if "unat n \<le> unat k" "k \<noteq> n" for k :: u64
    using that by (metis Suc_eq_plus1 Suc_leI le_neq_implies_less word_unat_eq_iff)
  with assms show ?thesis by (auto simp: queue_from_def hm_ok_delete delete_conv' split: if_splits)
qed

lemma queue_from_pending: "queue_from n p \<Longrightarrow> pending_map p' = pending_map p \<Longrightarrow> queue_from n p'"
  by (simp add: queue_from_def)

lemma process_queued:
  assumes "processor_inv c L0 p" and "map_of (pending_map p) n = Some pb" and "queue_from (unat n) p"
    and "head_at p + 1 \<le> unat n"
    and "process_block c (pending_block pb) (p\<lparr>pending_map := AList.delete n (pending_map p)\<rparr>) = (r, p')"
    and "r \<noteq> Panic"
  shows "processor_inv c L0 p' \<and> proc_chain_id p' = proc_chain_id p \<and> queue_from (unat n + 1) p' \<and>
    head_at p' \<le> unat n \<and> grows p p'"
proof -
  let ?p = "p\<lparr>pending_map := AList.delete n (pending_map p)\<rparr>"
  have "pending_map p' = pending_map ?p"
    using keepsD [OF process_block_pending, of ?p "pending_map ?p" c "pending_block pb"] assms(5) by simp
  then have queue: "queue_from (unat n + 1) p'" by (rule queue_from_pending [OF queue_from_next [OF assms(3)]])
  have num: "number (block_header (pending_block pb)) = n" using assms(2,3) by (simp add: queue_from_def)
  show ?thesis
  proof (cases r)
    case (Ok u)
    with process_block_commits [of c L0 ?p "pending_block pb" p'] commit_grows [of c L0 ?p "pending_block pb" p']
      assms num queue show ?thesis by (simp add: grows_frame(1) [of p ?p])
  next
    case (Err e)
    with process_block_rejects [of c L0 ?p "pending_block pb" e p'] reject_grows [of c L0 ?p "pending_block pb" e p']
      assms queue show ?thesis by (simp add: grows_frame(1) [of p ?p])
  qed (use assms(6) in simp)
qed

lemma drain_loop_settles:
  "drain_loop c n p = (r, p') \<Longrightarrow> r \<noteq> Panic \<Longrightarrow> processor_inv c L0 p \<Longrightarrow> queue_from (unat n) p \<Longrightarrow>
     head_at p + 1 \<le> unat n \<Longrightarrow> settled c L0 (proc_chain_id p) p' \<and> grows p p'"
proof (induction c n p arbitrary: r p' rule: drain_loop.induct)
  case (1 c n p)
  show ?case
  proof (cases "map_of (pending_map p) n")
    case None
    with "1.prems" have p': "p' = p" by (simp add: drain_loop.simps)
    have "head_at p + 2 \<le> unat k" if "map_of (pending_map p) k = Some pb" for k pb
    proof -
      have "k \<noteq> n" using that None by auto
      then have "unat k \<noteq> unat n" by (simp add: word_unat_eq_iff)
      with that "1.prems"(4,5) show ?thesis by (fastforce simp: queue_from_def)
    qed
    with "1.prems" p' show ?thesis by (simp add: settled_def queue_from_def)
  next
    case (Some pb)
    obtain r1 p1 where step: "process_block c (pending_block pb)
        (p\<lparr>pending_map := AList.delete n (pending_map p)\<rparr>) = (r1, p1)" by fastforce
    with "1.prems"(1,2) Some have "r1 \<noteq> Panic" by (auto simp: drain_loop.simps)
    note queued = process_queued [OF "1.prems"(3) Some "1.prems"(4,5) step this]
    obtain n' where n': "checked_add n 1 = Some n'" and rest: "drain_loop c n' p1 = (r, p')"
      using "1.prems"(1,2) Some step \<open>r1 \<noteq> Panic\<close>
      by (auto simp: drain_loop.simps [of c n p] split: outcome.splits option.splits)
    have "unat n' = unat n + 1" using n' by (simp add: checked_add_unat)
    with queued rest "1.prems"(2) have "settled c L0 (proc_chain_id p1) p' \<and> grows p1 p'"
      using "1.IH"(1) [OF Some step [symmetric]] "1.IH"(2) [OF Some step [symmetric]] \<open>r1 \<noteq> Panic\<close> n'
      by (cases r1) auto
    with queued show ?thesis using grows_trans by auto
  qed
qed

lemma try_drain_settles:
  assumes "try_drain c p = (r, p')" and "r \<noteq> Panic" and "processor_inv c L0 p" and "queue_from (head_at p + 1) p"
  shows "settled c L0 (proc_chain_id p) p' \<and> grows p p'"
proof -
  obtain n where n: "checked_add (head_number (proc_head p)) 1 = Some n" "drain_loop c n p = (r, p')"
    using assms(1,2) by (cases "checked_add (head_number (proc_head p)) 1")
      (auto simp: try_drain_def then_do_def add_or_panic_def)
  then have "unat n = head_at p + 1" by (simp add: checked_add_unat)
  then show ?thesis using drain_loop_settles [OF n(2) assms(2,3)] assms(4) by simp
qed

lemma handle_new_block_settles:
  assumes "handle_new_block c b peer p = (r, p')" and "r \<noteq> Panic" and "settled c L0 chain_id p"
  shows "settled c L0 chain_id p' \<and> grows p p'"
proof -
  let ?h = "head_number (proc_head p)"
  have "checked_add ?h 1 \<noteq> None"
    using assms(1,2) by (cases "checked_add ?h 1") (auto simp: handle_new_block_def then_do_def add_or_panic_def)
  then obtain next_n where next_n: "checked_add ?h 1 = Some next_n" by blast
  have same: "settled c L0 chain_id q" if "processor_inv c L0 q = processor_inv c L0 p"
    "proc_chain_id q = proc_chain_id p" "pending_map q = pending_map p" "proc_head q = proc_head p" for q
    using that assms(3) by (simp add: settled_def queue_from_def)
  show ?thesis
  proof (cases "number (block_header b) \<le> ?h")
    case True
    with assms(1) next_n have "p' = count_rejected_validation (count_received p)"
      by (auto simp: handle_new_block_def then_do_def add_or_panic_def reject_validation_def count_received_def
          split: option.splits)
    then show ?thesis
      using same [of p'] by (simp add: count_received_def count_rejected_validation_def processor_inv_def grows_def)
  next
    case False
    let ?q = "(count_received p)\<lparr>pending_map := AList.update (number (block_header b))
          \<lparr>pending_block = b, pending_peer = peer\<rparr> (pending_map p)\<rparr>"
    have drain: "try_drain c ?q = (r, p')"
      using assms(1) next_n False
      by (auto simp: handle_new_block_def then_do_def add_or_panic_def count_received_def split: option.splits)
    have "queue_from (head_at ?q + 1) ?q"
      using assms(3) False
      by (auto simp: settled_def queue_from_def hm_ok_update update_conv' count_received_def word_le_nat_alt
          split: if_splits) fastforce
    moreover have "processor_inv c L0 ?q" using assms(3) by (simp add: settled_def)
    ultimately show ?thesis
      using try_drain_settles [OF drain assms(2)] assms(3) by (simp add: settled_def count_received_def grows_def)
  qed
qed

text \<open>Draining takes the unbroken run of queued numbers.\<close>

lemma drain_loop_run:
  "drain_loop c n p = (r, p') \<Longrightarrow> r \<noteq> Panic \<Longrightarrow>
   \<exists>k. k \<le> length (pending_map p) \<and> unat n + k < 2 ^ 64 \<and>
     (\<forall>i<k. map_of (pending_map p) (n + of_nat i) \<noteq> None) \<and> map_of (pending_map p) (n + of_nat k) = None \<and>
     map_of (pending_map p') = map_of (pending_map p) |` {m. \<forall>i<k. m \<noteq> n + of_nat i}"
proof (induction c n p arbitrary: r p' rule: drain_loop.induct)
  case (1 c n p)
  show ?case
  proof (cases "map_of (pending_map p) n")
    case None
    with "1.prems" have "p' = p" by (simp add: drain_loop.simps)
    with None show ?thesis
      using unsigned_less [of n, where ?'a = nat] by (intro exI [of _ 0]) (simp add: restrict_map_def)
  next
    case (Some pb)
    let ?q = "p\<lparr>pending_map := AList.delete n (pending_map p)\<rparr>"
    obtain r1 p1 where step: "process_block c (pending_block pb) ?q = (r1, p1)" by fastforce
    with "1.prems" Some have "r1 \<noteq> Panic" by (auto simp: drain_loop.simps)
    obtain n' where n': "checked_add n 1 = Some n'" and rest: "drain_loop c n' p1 = (r, p')"
      using "1.prems" Some step \<open>r1 \<noteq> Panic\<close>
      by (auto simp: drain_loop.simps [of c n p] split: outcome.splits option.splits)
    have pend: "pending_map p1 = AList.delete n (pending_map p)"
      using keepsD [OF process_block_pending, of ?q "pending_map ?q" c "pending_block pb"] step by simp
    have num: "n' = n + 1" using n' by (simp add: checked_add_def split: if_splits)
    have unat_n': "unat n' = unat n + 1" using n' by (simp add: checked_add_unat)
    obtain k where k: "k \<le> length (pending_map p1)" "unat n' + k < 2 ^ 64"
      "\<forall>i<k. map_of (pending_map p1) (n' + of_nat i) \<noteq> None" "map_of (pending_map p1) (n' + of_nat k) = None"
      "map_of (pending_map p') = map_of (pending_map p1) |` {m. \<forall>i<k. m \<noteq> n' + of_nat i}"
      using "1.IH"(1) [OF Some step [symmetric] _ n' rest "1.prems"(2)]
        "1.IH"(2) [OF Some step [symmetric] _ n' rest "1.prems"(2)] \<open>r1 \<noteq> Panic\<close> by (cases r1) auto
    have shift: "n' + of_nat i = n + of_nat (Suc i)" for i by (simp add: num)
    have other: "n + of_nat (Suc k) \<noteq> n"
    proof
      have "unat (n + of_nat (Suc k)) = unat n + Suc k"
        by (rule unat_add_of_nat) (use k(2) unat_n' in simp)
      moreover assume "n + of_nat (Suc k) = n"
      ultimately show False by (simp del: of_nat_Suc)
    qed
    have "length (pending_map p1) < length (pending_map p)" using pending_shrinks [OF Some step] .
    then have "Suc k \<le> length (pending_map p)" using k(1) by simp
    moreover have "\<forall>i<Suc k. map_of (pending_map p) (n + of_nat i) \<noteq> None"
      using k(3) Some unfolding All_less_Suc2 pend shift delete_conv'
      by (simp del: of_nat_Suc) (metis option.distinct(1))
    moreover have "map_of (pending_map p) (n + of_nat (Suc k)) = None"
      using k(4) other by (simp add: pend delete_conv' shift del: of_nat_Suc)
    moreover have "map_of (pending_map p') = map_of (pending_map p) |` {m. \<forall>i<Suc k. m \<noteq> n + of_nat i}"
      unfolding k(5) pend All_less_Suc2 shift
      by (simp add: restrict_map_def fun_eq_iff delete_conv' del: of_nat_Suc) blast
    ultimately show ?thesis using k(2) unat_n' by (intro exI [of _ "Suc k"]) (simp del: of_nat_Suc)
  qed
qed

section \<open>From genesis\<close>

lemma set_accounts_frame:
  "try_fold (\<lambda>q (a, acc). let q' = set_account a acc q
     in and_then (map_err Hashing (encode (account_to_rlp_item acc))) (\<lambda>_. Ok q')) q accts = Ok q' \<Longrightarrow>
     (provider_ok q \<longrightarrow> provider_ok q') \<and> blocks q' = blocks q \<and> blocks_by_hash q' = blocks_by_hash q \<and> (journal q = None \<longrightarrow> journal q' = None)"
proof (induction accts arbitrary: q)
  case (Cons x accts)
  obtain a acc where "x = (a, acc)" by (cases x)
  with Cons.prems have "try_fold (\<lambda>q (a, acc). let q' = set_account a acc q
     in and_then (map_err Hashing (encode (account_to_rlp_item acc))) (\<lambda>_. Ok q'))
     (set_account a acc q) accts = Ok q'"
    by (auto simp: outcome_iffs Let_def simp del: encode.simps)
  from Cons.IH [OF this] show ?case by (auto simp: provider_ok_set_account)
qed simp

text \<open>The state in which the node starts: the genesis block is number zero and the shared head names it.\<close>

definition starts_from :: "crypto \<Rightarrow> block \<Rightarrow> chain_head \<Rightarrow> bool" where
  "starts_from c genesis_block head \<longleftrightarrow>
     number (block_header genesis_block) = 0 \<and> head_number head = 0 \<and>
     hash_header c (block_header genesis_block) = Ok (head_hash head)"

lemma processor_new_settled:
  assumes "processor_new c g accts chain_id head = Ok p" and "starts_from c g head"
  shows "settled c (ledger_of (provider p)) chain_id p"
proof -
  obtain q where q: "insert_block c g default_provider = (Ok (), q)"
    and fold: "try_fold (\<lambda>q (a, acc). let q' = set_account a acc q
       in and_then (map_err Hashing (encode (account_to_rlp_item acc))) (\<lambda>_. Ok q')) q accts = Ok (provider p)"
    and p: "p = \<lparr>pending_map = [], proc_chain_id = chain_id, proc_head = head, provider = provider p,
              proc_accounts = accts, shared_head = head, proc_metrics = zero_metrics\<rparr>"
    using assms(1) by (auto simp: processor_new_def outcome_iffs simp del: encode.simps
        split: prod.splits outcome.splits)
  have "provider_ok q" using keepsD [OF provider_ok_insert_block default_provider_ok, of c g] q by simp
  moreover have "blocks q = [(0, g)]" "journal q = None" "blocks_by_hash q = [(head_hash head, 0)]"
    using q assms(2) by (auto elim!: insert_block_Ok simp: default_provider_def starts_from_def)
  ultimately have ok: "provider_ok (provider p)" "blocks (provider p) = [(0, g)]" "journal (provider p) = None"
    "blocks_by_hash (provider p) = [(head_hash head, 0)]"
    using set_accounts_frame [OF fold] by auto
  have "chain_ok c (provider p) head"
    using assms(2) ok(2,4) by (auto simp: chain_ok_def starts_from_def)
  moreover have "committed (provider p) head = []" using assms(2) by (simp add: committed_def starts_from_def)
  ultimately show ?thesis
    using ok by (subst p) (simp add: settled_def processor_inv_def queue_from_def)
qed

section \<open>Delivery in any order\<close>

text \<open>What an action does to the core depends on the core alone.\<close>

definition respects_core :: "('a, 'e, block_processor) action \<Rightarrow> bool" where
  "respects_core m \<longleftrightarrow>
     (\<forall>p q. same_core p q \<longrightarrow> fst (m q) = fst (m p) \<and> same_core (snd (m p)) (snd (m q)))"

lemma respects_coreI:
  "(\<And>p q. same_core p q \<Longrightarrow> fst (m q) = fst (m p) \<and> same_core (snd (m p)) (snd (m q))) \<Longrightarrow> respects_core m"
  by (simp add: respects_core_def)

lemma respects_coreD:
  "respects_core m \<Longrightarrow> same_core p q \<Longrightarrow> m p = (r, p') \<Longrightarrow> \<exists>q'. m q = (r, q') \<and> same_core p' q'"
  unfolding respects_core_def by (metis fst_conv prod.collapse snd_conv)

lemma respects_then_do:
  assumes "respects_core m" and "\<And>x. respects_core (f x)"
  shows "respects_core (then_do m f)"
proof (rule respects_coreI)
  fix p q
  assume "same_core p q"
  obtain r p' where r: "m p = (r, p')" by fastforce
  from respects_coreD [OF assms(1) \<open>same_core p q\<close> r] obtain q' where q': "m q = (r, q')" "same_core p' q'" by blast
  show "fst (then_do m f q) = fst (then_do m f p) \<and> same_core (snd (then_do m f p)) (snd (then_do m f q))"
  proof (cases r)
    case (Ok x)
    with assms(2) [of x] q' r show ?thesis by (simp add: then_do_def respects_core_def)
  qed (use q' r in \<open>simp_all add: then_do_def\<close>)
qed

lemma respects_pure: "respects_core (pure r)"
  by (simp add: respects_core_def)

lemma respects_process_block: "respects_core (process_block c b)"
proof -
  have store: "respects_core (on_provider m)" for m :: "('b, execution_error, in_memory_provider) action"
    by (rule respects_coreI) (auto simp: on_provider_def same_core_def Let_def split: prod.split)
  have exec: "respects_core (execute_counted c bws)" for bws
    by (rule respects_coreI)
       (auto simp: execute_counted_def on_provider_def same_core_def Let_def count_rejected_execution_def
          split: prod.split outcome.split)
  show ?thesis
    unfolding process_block_def check_against_parent_def reject_validation_def advance_head_def Let_def
    by (intro respects_then_do respects_pure store exec)
       (auto simp: respects_core_def same_core_def find_parent_def count_rejected_validation_def count_committed_def
          write_to_shared_head_def then_do_def split: outcome.split)
qed

text \<open>Processing a list of blocks in order; delivered messages arrive in any order and any number of times.\<close>

definition process_chain :: "crypto \<Rightarrow> block list \<Rightarrow> (unit, processor_error, block_processor) action" where
  "process_chain c bs = for_each (\<lambda>_. process_block c) () bs"

fun delivers :: "processor_message list \<Rightarrow> block list" where
  "delivers [] = []"
| "delivers (ProcNewBlock b peer # msgs) = b # delivers msgs"
| "delivers (_ # msgs) = delivers msgs"

lemma process_chain_Nil [simp]: "process_chain c [] p = (Ok (), p)"
  by (simp add: process_chain_def)

lemma process_chain_Cons:
  "process_chain c (b # bs) p = (Ok (), p') \<longleftrightarrow>
     (\<exists>p1. process_block c b p = (Ok (), p1) \<and> process_chain c bs p1 = (Ok (), p'))"
  by (simp add: process_chain_def outcome_iffs)

lemma process_chain_snoc:
  "process_chain c (bs @ [b]) p = (Ok (), p') \<longleftrightarrow>
     (\<exists>p1. process_chain c bs p = (Ok (), p1) \<and> process_block c b p1 = (Ok (), p'))"
  by (induction bs arbitrary: p) (auto simp: process_chain_Cons)

lemma process_chain_take:
  "process_chain c bs p = (Ok (), q) \<Longrightarrow> \<exists>p'. process_chain c (take k bs) p = (Ok (), p')"
proof (induction bs arbitrary: k p)
  case (Cons b bs)
  then show ?case by (cases k) (auto simp: process_chain_Cons)
qed simp

lemma process_block_number:
  "process_block c b p = (Ok (), p') \<Longrightarrow> head_at p' = unat (number (block_header b)) \<and> head_at p' = head_at p + 1"
  by (elim process_block_OkE) (simp add: count_committed_def)

lemma process_chain_numbers:
  assumes "process_chain c bs p = (Ok (), q)"
  shows "head_at q = head_at p + length bs \<and>
    (\<forall>i < length bs. unat (number (block_header (bs ! i))) = head_at p + i + 1)"
  using assms
proof (induction bs arbitrary: p)
  case (Cons b bs)
  then obtain p1 where p1: "process_block c b p = (Ok (), p1)" "process_chain c bs p1 = (Ok (), q)"
    by (auto simp: process_chain_Cons)
  from Cons.IH [OF p1(2)] process_block_number [OF p1(1)] show ?case by (auto simp: nth_Cons split: nat.split)
qed simp

text \<open>
  After the blocks \<open>D\<close> of the chain \<open>bs\<close> have arrived, the first \<open>k\<close> of the chain are processed and the rest of
  \<open>D\<close> is queued.
\<close>

definition progress :: "crypto \<Rightarrow> block list \<Rightarrow> block_processor \<Rightarrow> block set \<Rightarrow> nat \<Rightarrow> block_processor \<Rightarrow> bool" where
  "progress c bs p0 D k p \<longleftrightarrow>
     k \<le> length bs \<and> set (take k bs) \<subseteq> D \<and>
     (\<exists>pk. process_chain c (take k bs) p0 = (Ok (), pk) \<and> same_core pk p) \<and>
     (\<forall>n b. map_option pending_block (map_of (pending_map p) n) = Some b \<longleftrightarrow>
        b \<in> D \<and> b \<notin> set (take k bs) \<and> number (block_header b) = n)"

lemma same_core_pending [simp]: "same_core pk (p\<lparr>pending_map := m\<rparr>) = same_core pk p"
  "same_core (p\<lparr>pending_map := m\<rparr>) q = same_core p q"
  by (simp_all add: same_core_def)

lemma same_core_trans: "same_core p q \<Longrightarrow> same_core q r \<Longrightarrow> same_core p r"
  by (simp add: same_core_def)

lemma chain_index:
  assumes "process_chain c bs p0 = (Ok (), q)" and "b \<in> set bs"
    and "unat (number (block_header b)) = head_at p0 + k + 1"
  shows "k < length bs \<and> b = bs ! k"
proof -
  obtain i where "i < length bs" "b = bs ! i" using assms(2) by (auto simp: in_set_conv_nth)
  with process_chain_numbers [OF assms(1)] assms(3) show ?thesis by auto
qed

lemma chain_not_taken:
  assumes "process_chain c bs p0 = (Ok (), q)" and "k \<le> i" and "i < length bs"
  shows "bs ! i \<notin> set (take k bs)"
proof
  assume "bs ! i \<in> set (take k bs)"
  then obtain j where "j < k" "j < length bs" "bs ! i = bs ! j" by (auto simp: in_set_conv_nth)
  with process_chain_numbers [OF assms(1)] assms(2,3) show False by (metis add_left_cancel add_right_cancel leD)
qed

lemma progress_step:
  assumes chain: "process_chain c bs p0 = (Ok (), q)" and prog: "progress c bs p0 D k p"
    and n: "unat n = head_at p0 + k + 1" and pb: "map_of (pending_map p) n = Some pb" and D: "D \<subseteq> set bs"
  obtains p' where "k < length bs" "progress c bs p0 D (Suc k) p'"
    "process_block c (pending_block pb) (p\<lparr>pending_map := AList.delete n (pending_map p)\<rparr>) = (Ok (), p')"
proof -
  let ?b = "pending_block pb" and ?p = "p\<lparr>pending_map := AList.delete n (pending_map p)\<rparr>"
  have b: "?b \<in> D" "number (block_header ?b) = n" using prog pb by (auto simp: progress_def)
  with chain_index [OF chain, of ?b k] n D have k: "k < length bs" and bk: "?b = bs ! k" by auto
  obtain pk where pk: "process_chain c (take k bs) p0 = (Ok (), pk)" "same_core pk p"
    using prog by (auto simp: progress_def)
  obtain pk' where pk': "process_chain c (take (Suc k) bs) p0 = (Ok (), pk')"
    using process_chain_take [OF chain] by blast
  then have "process_block c ?b pk = (Ok (), pk')"
    using pk(1) k by (simp add: take_Suc_conv_app_nth process_chain_snoc bk)
  from respects_coreD [OF respects_process_block _ this, of ?p] pk(2)
  obtain p' where p': "process_block c ?b ?p = (Ok (), p')" "same_core pk' p'" by auto
  have pend: "pending_map p' = pending_map ?p"
    using keepsD [OF process_block_pending, of ?p "pending_map ?p" c ?b] p'(1) by simp
  have "map_option pending_block (map_of (pending_map p') m) = Some b' \<longleftrightarrow>
      b' \<in> D \<and> b' \<notin> set (take (Suc k) bs) \<and> number (block_header b') = m" for m b'
  proof -
    have "b' = ?b" if "b' \<in> D" "number (block_header b') = n"
      using chain_index [OF chain, of b' k] that n D bk by auto
    then show ?thesis
      using prog k b(2) bk by (auto simp: progress_def pend delete_conv' take_Suc_conv_app_nth split: if_splits)
  qed
  moreover have "set (take (Suc k) bs) \<subseteq> D" using prog k b(1) bk by (auto simp: progress_def take_Suc_conv_app_nth)
  ultimately have "progress c bs p0 D (Suc k) p'"
    unfolding progress_def using k pk' p'(2) by (intro conjI) (simp, assumption, blast, simp)
  with that k p'(1) show ?thesis by blast
qed

text \<open>Nothing that could be processed is left in the queue.\<close>

definition stalled :: "crypto \<Rightarrow> block list \<Rightarrow> block_processor \<Rightarrow> block set \<Rightarrow> block_processor \<Rightarrow> bool" where
  "stalled c bs p0 D p \<longleftrightarrow> (\<exists>k. progress c bs p0 D k p \<and> (k < length bs \<longrightarrow> bs ! k \<notin> D))"

lemma drain_loop_progress:
  assumes chain: "process_chain c bs p0 = (Ok (), q)" and bound: "head_at p0 + length bs + 1 < 2 ^ 64"
    and D: "D \<subseteq> set bs"
  shows "progress c bs p0 D k p \<Longrightarrow> unat n = head_at p0 + k + 1 \<Longrightarrow>
    \<exists>p'. drain_loop c n p = (Ok (), p') \<and> stalled c bs p0 D p'"
proof (induction "length bs - k" arbitrary: k p n rule: less_induct)
  case less
  show ?case
  proof (cases "map_of (pending_map p) n")
    case None
    have "bs ! k \<notin> D" if "k < length bs"
    proof
      assume "bs ! k \<in> D"
      moreover have "number (block_header (bs ! k)) = n"
        using process_chain_numbers [OF chain] that less.prems(2) by (simp add: word_unat_eq_iff)
      ultimately have "map_option pending_block (map_of (pending_map p) n) = Some (bs ! k)"
        using less.prems(1) chain_not_taken [OF chain, of k k] that by (simp add: progress_def)
      with None show False by simp
    qed
    with None less.prems(1) show ?thesis by (auto simp: drain_loop.simps stalled_def)
  next
    case (Some pb)
    obtain p' where p': "k < length bs" "progress c bs p0 D (Suc k) p'"
      "process_block c (pending_block pb) (p\<lparr>pending_map := AList.delete n (pending_map p)\<rparr>) = (Ok (), p')"
      using progress_step [OF chain less.prems Some D] by blast
    obtain m where m: "checked_add n 1 = Some m" "unat m = head_at p0 + Suc k + 1"
      using checked_add_ex [of n 1] less.prems(2) p'(1) bound by (auto simp: checked_add_unat)
    show ?thesis
      using less.hyps [OF _ p'(2) m(2)] p'(1) Some p'(3) m(1) by (simp add: drain_loop.simps [of c n p])
  qed
qed

lemma progress_head:
  assumes "process_chain c bs p0 = (Ok (), q)" and "progress c bs p0 D k p"
  shows "head_at p = head_at p0 + k"
proof -
  from assms(2) obtain pk where "process_chain c (take k bs) p0 = (Ok (), pk)" "same_core pk p" "k \<le> length bs"
    by (auto simp: progress_def)
  with process_chain_numbers [of c "take k bs" p0 pk] show ?thesis by (simp add: same_core_def)
qed

lemma try_drain_progress:
  assumes chain: "process_chain c bs p0 = (Ok (), q)" and bound: "head_at p0 + length bs + 1 < 2 ^ 64"
    and D: "D \<subseteq> set bs" and prog: "progress c bs p0 D k p"
  shows "\<exists>p'. try_drain c p = (Ok (), p') \<and> stalled c bs p0 D p'"
proof -
  have "k \<le> length bs" using prog by (simp add: progress_def)
  then obtain n where n: "checked_add (head_number (proc_head p)) 1 = Some n" "unat n = head_at p0 + k + 1"
    using checked_add_ex [of "head_number (proc_head p)" 1] progress_head [OF chain prog] bound
    by (auto simp: checked_add_unat)
  from drain_loop_progress [OF chain bound D prog n(2)] n(1) show ?thesis
    by (auto simp: try_drain_def then_do_def add_or_panic_def)
qed

lemma progress_deliver:
  assumes "progress c bs p0 D k p" and "b \<notin> set (take k bs)"
    and "\<forall>b' \<in> D. number (block_header b') = number (block_header b) \<longrightarrow> b' = b"
  shows "progress c bs p0 (insert b D) k ((count_received p)\<lparr>pending_map :=
    AList.update (number (block_header b)) \<lparr>pending_block = b, pending_peer = peer\<rparr> (pending_map p)\<rparr>)"
  using assms by (auto simp: progress_def update_conv' count_received_def same_core_def split: if_splits)

lemma handle_new_block_progress:
  assumes chain: "process_chain c bs p0 = (Ok (), q)" and bound: "head_at p0 + length bs + 1 < 2 ^ 64"
    and D: "D \<subseteq> set bs" and "stalled c bs p0 D p" and b: "b \<in> set bs"
  shows "\<exists>r p'. handle_new_block c b peer p = (r, p') \<and> r \<noteq> Panic \<and> stalled c bs p0 (insert b D) p'"
proof -
  obtain k where k: "progress c bs p0 D k p" "k < length bs \<longrightarrow> bs ! k \<notin> D"
    using assms(4) by (auto simp: stalled_def)
  note head = progress_head [OF chain k(1)]
  obtain i where i: "i < length bs" "b = bs ! i" using b by (auto simp: in_set_conv_nth)
  have num: "unat (number (block_header b)) = head_at p0 + i + 1"
    using process_chain_numbers [OF chain] i by simp
  have "k \<le> length bs" using k(1) by (simp add: progress_def)
  then obtain n where n: "checked_add (head_number (proc_head p)) 1 = Some n"
    using checked_add_ex [of "head_number (proc_head p)" 1] head bound by auto
  show ?thesis
  proof (cases "i < k")
    case True
    then have "b \<in> set (take k bs)" using i by (metis in_set_conv_nth length_take min_less_iff_conj nth_take)
    then have "insert b D = D" using k(1) by (auto simp: progress_def)
    moreover have "stalled c bs p0 D (count_rejected_validation (count_received p))"
      using assms(4) by (simp add: stalled_def progress_def same_core_def count_received_def
          count_rejected_validation_def)
    ultimately show ?thesis
      using True num head n
      by (simp add: handle_new_block_def then_do_def add_or_panic_def reject_validation_def word_le_nat_alt)
  next
    case False
    have "\<forall>b' \<in> D. number (block_header b') = number (block_header b) \<longrightarrow> b' = b"
    proof (intro ballI impI)
      fix b'
      assume "b' \<in> D" "number (block_header b') = number (block_header b)"
      with chain_index [OF chain, of b' i] num i(2) D show "b' = b" by auto
    qed
    with chain_not_taken [OF chain, of k i] False i
    have "progress c bs p0 (insert b D) k ((count_received p)\<lparr>pending_map :=
      AList.update (number (block_header b)) \<lparr>pending_block = b, pending_peer = peer\<rparr> (pending_map p)\<rparr>)"
      by (intro progress_deliver k(1)) simp_all
    from try_drain_progress [OF chain bound _ this] D b
    obtain p' where p': "try_drain c ((count_received p)\<lparr>pending_map := AList.update (number (block_header b))
        \<lparr>pending_block = b, pending_peer = peer\<rparr> (pending_map p)\<rparr>) = (Ok (), p')"
      "stalled c bs p0 (insert b D) p'" by auto
    moreover have "\<not> number (block_header b) \<le> head_number (proc_head p)"
      using False num head by (simp add: word_le_nat_alt)
    moreover have "pending_map (count_received p) = pending_map p" by (simp add: count_received_def)
    ultimately show ?thesis
      using n by (simp add: handle_new_block_def then_do_def add_or_panic_def)
  qed
qed

lemma run_progress:
  assumes chain: "process_chain c bs p0 = (Ok (), q)" and bound: "head_at p0 + length bs + 1 < 2 ^ 64"
  shows "D \<subseteq> set bs \<Longrightarrow> set (delivers msgs) \<subseteq> set bs \<Longrightarrow> ProcShutdown \<notin> set msgs \<Longrightarrow> stalled c bs p0 D p \<Longrightarrow>
    \<exists>replies p'. run c msgs p = (Ok replies, p') \<and> pending_map p' = [] \<and>
      (\<exists>p1. stalled c bs p0 (D \<union> set (delivers msgs)) p1 \<and> same_core p1 p')"
proof (induction msgs arbitrary: D p)
  case Nil
  then obtain k where "progress c bs p0 D k p" by (auto simp: stalled_def)
  from try_drain_progress [OF chain bound Nil(1) this]
  obtain p' where p': "try_drain c p = (Ok (), p')" "stalled c bs p0 D p'" by blast
  then show ?case
    by (auto simp: then_do_def stop_def same_core_def)
next
  case (Cons m msgs)
  show ?case
  proof (cases m)
    case (ProcNewBlock b peer)
    then obtain r p1 where p1: "handle_new_block c b peer p = (r, p1)" "r \<noteq> Panic" "stalled c bs p0 (insert b D) p1"
      using handle_new_block_progress [OF chain bound Cons.prems(1,4), of b peer] Cons.prems(2) by auto
    from Cons.IH [OF _ _ _ p1(3)] Cons.prems ProcNewBlock p1(1,2) show ?thesis
      by (cases r) auto
  next
    case (ProcGetAccountState a)
    with Cons.IH [OF Cons.prems(1) _ _ Cons.prems(4)] Cons.prems(2,3) show ?thesis
      by (fastforce simp: then_do_def)
  qed (use Cons.prems(3) in auto)
qed

lemma stop_settles:
  assumes "stop c p = (Ok x, p')" and "settled c L0 chain_id p"
  shows "processor_inv c L0 p' \<and> proc_chain_id p' = chain_id \<and> pending_map p' = []"
proof -
  obtain r q where r: "try_drain c p = (r, q)" by fastforce
  with assms(1) have r': "r \<noteq> Panic" "p' = q\<lparr>pending_map := []\<rparr>" by (cases r; simp add: stop_def)+
  have "processor_inv c L0 p" "queue_from (head_at p + 1) p" "proc_chain_id p = chain_id"
    using assms(2) by (fastforce simp: settled_def queue_from_def)+
  with try_drain_settles [OF r r'(1)] r'(2) show ?thesis by (simp add: settled_def)
qed

lemma run_settles:
  "run c msgs p = (Ok replies, p') \<Longrightarrow> settled c L0 chain_id p \<Longrightarrow>
     processor_inv c L0 p' \<and> proc_chain_id p' = chain_id \<and> pending_map p' = []"
proof (induction msgs arbitrary: p replies)
  case Nil
  from Nil(1) have "stop c p = (Ok (), p')" by (simp add: then_do_Ok_iff)
  then show ?case by (rule stop_settles [OF _ Nil(2)])
next
  case (Cons m msgs)
  show ?case
  proof (cases m)
    case (ProcNewBlock b peer)
    obtain r p1 where r: "handle_new_block c b peer p = (r, p1)" by fastforce
    with Cons.prems(1) ProcNewBlock have r': "r \<noteq> Panic" "run c msgs p1 = (Ok replies, p')" by (cases r; simp)+
    from Cons.IH [OF r'(2)] handle_new_block_settles [OF r r'(1) Cons.prems(2)] show ?thesis by blast
  next
    case (ProcGetAccountState a)
    with Cons.prems(1) obtain rs where "run c msgs p = (Ok rs, p')" by (auto simp: then_do_Ok_iff)
    then show ?thesis by (rule Cons.IH [OF _ Cons.prems(2)])
  next
    case ProcShutdown
    with Cons.prems(1) have "stop c p = (Ok (), p')" by (simp add: then_do_Ok_iff)
    then show ?thesis by (rule stop_settles [OF _ Cons.prems(2)])
  qed
qed

lemma any_order:
  assumes "process_chain c bs p = (Ok (), q)" and "head_at p + length bs + 1 < 2 ^ 64" and "pending_map p = []"
    and "set (delivers msgs) = set bs" and "ProcShutdown \<notin> set msgs"
  shows "\<exists>replies p'. run c msgs p = (Ok replies, p') \<and> same_core q p' \<and> pending_map p' = []"
proof -
  have "stalled c bs p {} p"
    using assms(3) by (auto simp: stalled_def progress_def same_core_def intro!: exI [of _ 0])
  from run_progress [OF assms(1,2) _ _ assms(5) this] assms(4)
  obtain replies p' p1 where r: "run c msgs p = (Ok replies, p')" "pending_map p' = []"
    "stalled c bs p (set bs) p1" "same_core p1 p'" by auto
  then obtain k where k: "progress c bs p (set bs) k p1" "k < length bs \<longrightarrow> bs ! k \<notin> set bs"
    by (auto simp: stalled_def)
  then have "k = length bs" by (auto simp: progress_def)
  with k(1) assms(1) have "same_core q p1" by (auto simp: progress_def)
  with r same_core_trans show ?thesis by blast
qed

section \<open>A sample node\<close>

definition chain_header :: "u64 \<Rightarrow> u64 \<Rightarrow> b256 \<Rightarrow> header" where
  "chain_header n time parent =
     (genesis_header \<lparr>gc_chain_id = 1, gc_accounts = [], genesis_timestamp = time\<rparr>)\<lparr>number := n, parent_hash := parent\<rparr>"

abbreviation sample_hash :: "block \<Rightarrow> b256" where
  "sample_hash b \<equiv> keccak256 sample_crypto (rlp_bytes (header_to_rlp_item (block_header b)))"

definition sample_genesis :: block where
  "sample_genesis = \<lparr>block_header = chain_header 0 0 zero_array, transactions = []\<rparr>"

definition sample_payment :: signed_transaction where
  "sample_payment = \<lparr>transaction = Legacy 0 2 21000 (Some sample_sender) 5 [], sig_v = 37, sig_r = zero_array,
     sig_s = zero_array\<rparr>"

definition sample_first :: block where
  "sample_first = \<lparr>block_header = chain_header 1 12 (sample_hash sample_genesis), transactions = [sample_payment]\<rparr>"

definition sample_second :: block where
  "sample_second = \<lparr>block_header = chain_header 2 24 (sample_hash sample_first), transactions = []\<rparr>"

definition sample_head :: chain_head where
  "sample_head = \<lparr>head_number = 0, head_hash = sample_hash sample_genesis, head_total_difficulty = 0\<rparr>"

definition sample_node :: "(block_processor, processor_error) outcome" where
  "sample_node = processor_new sample_crypto sample_genesis
     [(zero_array, \<lparr>acc_balance = 1000000000000000, acc_nonce = 0, acc_code_hash = default_hash\<rparr>)] 1 sample_head"

lemma sample_starts: "starts_from sample_crypto sample_genesis sample_head"
  by (simp add: starts_from_def sample_genesis_def sample_head_def chain_header_def hash_header_eq)

lemma sample_recovered: "recover_sender sample_crypto sample_payment 1 = Ok zero_array"
  by (simp add: recover_sender_def sample_payment_def signing_payload_eq [OF transfer_signing_len] recovery_id_byte_def
      checked_mul_def checked_sub_def sample_crypto_def Let_def slice_defs try_from_def
      keccak256_def zero_array_def byte_array_eq_iff as_bytes_byte_array del: rlp_bytes.simps)

definition sample_paid :: ledger where
  "sample_paid = [zero_array \<mapsto> (999999999957995, 1), sample_sender \<mapsto> (5, 0)]"

lemma encode_account: "\<exists>bs. encode (account_to_rlp_item acc) = Ok bs"
proof -
  have "sum_list (map encoded_len [u128_to_rlp_item (acc_balance acc), u64_to_rlp_item (acc_nonce acc),
      b256_to_rlp_item (acc_code_hash acc)]) \<le> 156"
    using u128_len [of "acc_balance acc"] u64_len [of "acc_nonce acc"] b256_len [of "acc_code_hash acc"] by simp
  from encoded_len_List_le [OF this] have "encoded_len (account_to_rlp_item acc) < 2 ^ 64"
    by (simp add: account_to_rlp_item_def length_prefix_len_156 del: encoded_len.simps)
  from encode_eq [OF this] show ?thesis by blast
qed

lemma sample_node_Ok:
  obtains p where "sample_node = Ok p" "ledger_of (provider p) = [zero_array \<mapsto> (1000000000000000, 0)]"
    "total_balance (provider p) = 1000000000000000" "proc_head p = sample_head" "proc_chain_id p = 1" "pending_map p = []"
    "map_of (blocks (provider p)) 0 = Some sample_genesis"
proof -
  have "\<exists>bs. encode (account_to_rlp_item \<lparr>acc_balance = 1000000000000000, acc_nonce = 0, acc_code_hash = default_hash\<rparr>) = Ok bs"
    using encode_account by blast
  then show ?thesis
    using that by (auto simp: sample_node_def processor_new_def insert_block_def hash_header_eq then_do_def
        default_provider_def sample_genesis_def chain_header_def genesis_header_def set_account_def
        ledger_of_def total_balance_def fun_eq_iff simp del: encode.simps)
qed

lemma sample_first_senders:
  "build_block_with_senders sample_crypto 1 sample_first = Ok \<lparr>bws_block = sample_first, senders = [zero_array]\<rparr>"
  "build_block_with_senders sample_crypto 1 sample_second = Ok \<lparr>bws_block = sample_second, senders = []\<rparr>"
  by (simp_all add: build_block_with_senders_def sample_first_def sample_second_def sample_recovered)

lemma sample_first_executable:
  assumes "ledger_of (provider p) = [zero_array \<mapsto> (1000000000000000, 0)]" and "total_balance (provider p) = 1000000000000000"
  shows "executable_on p \<lparr>bws_block = sample_first, senders = [zero_array]\<rparr> sample_paid"
  using assms sample_sender_ne transfer_wire_len
  by (simp add: executable_on_def transfers_def sample_first_def sample_payment_def spec_transfer_def spec_price_def
      fee_cap_def unwrap_or_def sample_paid_def fun_eq_iff nonces_below_def block_gas_def tx_fits_def tip_fits_def
      del: encoded_len.simps)

lemma sample_chain_accepted:
  assumes "sample_node = Ok p"
  shows "\<exists>q. process_chain sample_crypto [sample_first, sample_second] p = (Ok (), q) \<and>
    ledger_of (provider q) = sample_paid"
proof -
  let ?c = sample_crypto and ?bws = "\<lparr>bws_block = sample_second, senders = []\<rparr>"
  obtain p' where p': "sample_node = Ok p'" "ledger_of (provider p') = [zero_array \<mapsto> (1000000000000000, 0)]"
    "total_balance (provider p') = 1000000000000000" "proc_head p' = sample_head" "proc_chain_id p' = 1"
    "map_of (blocks (provider p')) 0 = Some sample_genesis" by (rule sample_node_Ok)
  have p: "p' = p" using p'(1) assms by (metis outcome.inject(1))
  note p' = p' [unfolded p]
  have inv: "processor_inv ?c (ledger_of (provider p)) p"
    using processor_new_settled [OF assms [unfolded sample_node_def] sample_starts] by (simp add: settled_def)
  have "next_header p (block_header sample_first)"
    using p'(4,6) by (simp add: next_header_def sample_head_def sample_first_def sample_genesis_def chain_header_def
        genesis_header_def)
  from process_block_complete [OF inv _ this sample_first_executable [OF p'(2,3)]] p'(5) sample_first_senders(1)
  obtain p1 where p1: "process_block ?c sample_first p = (Ok (), p1)" "ledger_of (provider p1) = sample_paid"
    "total_balance (provider p1) \<le> 1000000000000000" "map_of (blocks (provider p1)) 1 = Some sample_first"
    using p'(3) by (auto simp: sample_first_def chain_header_def)
  have inv1: "processor_inv ?c (ledger_of (provider p)) p1" "proc_chain_id p1 = 1" "head_number (proc_head p1) = 1"
    using process_block_commits [OF inv p1(1)] p'(5) by (simp_all add: sample_first_def chain_header_def)
  have "head_hash (proc_head p1) = sample_hash sample_first"
    using inv1(1,3) p1(4) by (simp add: processor_inv_def chain_ok_def hash_header_eq)
  then have next2: "next_header p1 (block_header sample_second)"
    using inv1(3) p1(4) unsigned_less [of "head_total_difficulty (proc_head p1)", where ?'a = nat]
    by (simp add: next_header_def sample_first_def sample_second_def chain_header_def genesis_header_def)
  have "nonces_below 0 sample_paid" by (auto simp: nonces_below_def sample_paid_def)
  then have "executable_on p1 ?bws sample_paid"
    using p1(2,3) by (simp add: executable_on_def transfers_def sample_second_def block_gas_def)
  from process_block_complete [OF inv1(1) _ next2 this] inv1(2) sample_first_senders(2) p1(1)
  show ?thesis by (auto simp: process_chain_Cons)
qed

lemma sample_node_chain:
  obtains p q where "sample_node = Ok p" "pending_map p = []" "head_at p = 0"
    "process_chain sample_crypto [sample_first, sample_second] p = (Ok (), q)" "ledger_of (provider q) = sample_paid"
proof -
  obtain p where p: "sample_node = Ok p" "proc_head p = sample_head" "pending_map p = []" by (rule sample_node_Ok)
  from sample_chain_accepted [OF p(1)] p show ?thesis using that by (auto simp: sample_head_def)
qed

text \<open>The child arrives before its parent, and the parent twice.\<close>

definition sample_messages :: "processor_message list" where
  "sample_messages = [ProcNewBlock sample_second (PeerId 7), ProcGetAccountState zero_array,
     ProcNewBlock sample_first (PeerId 7), ProcNewBlock sample_first (PeerId 7)]"

lemma sample_delivers:
  "set (delivers sample_messages) = set [sample_first, sample_second]" "ProcShutdown \<notin> set sample_messages"
  by (auto simp: sample_messages_def)

section \<open>Properties\<close>

text \<open>
  C2. Whatever messages the processor receives, when its loop ends the stored blocks form one chain from the
  genesis block to the head, linked by parent hash, number and increasing timestamp; the head it shares
  with the network is its own; nothing is left queued; and the account balances and nonces are exactly
  what the ledger specification makes of the genesis accounts and the committed blocks in order.
\<close>

theorem processor_chain_ledger:
  assumes "processor_new c genesis_block accts chain_id head = Ok p0" and "starts_from c genesis_block head"
    and "run c msgs p0 = (Ok replies, p)"
  shows "chain_ok c (provider p) (proc_head p) \<and> shared_head p = proc_head p \<and> pending_map p = [] \<and>
    spec_chain c chain_id (committed (provider p) (proc_head p)) (ledger_of (provider p0)) =
      Some (ledger_of (provider p))"
  using run_settles [OF assms(3) processor_new_settled [OF assms(1,2)]] by (auto simp: processor_inv_def)

theorem processor_chain_ledger_witness:
  "\<exists>p0 replies p. sample_node = Ok p0 \<and> run sample_crypto sample_messages p0 = (Ok replies, p) \<and>
     chain_ok sample_crypto (provider p) (proc_head p) \<and> shared_head p = proc_head p \<and> pending_map p = [] \<and>
     spec_chain sample_crypto 1 (committed (provider p) (proc_head p)) (ledger_of (provider p0)) =
       Some (ledger_of (provider p))"
proof -
  obtain p0 q where p0: "sample_node = Ok p0" "pending_map p0 = []" "head_at p0 = 0"
    "process_chain sample_crypto [sample_first, sample_second] p0 = (Ok (), q)" by (rule sample_node_chain)
  have "head_at p0 + length [sample_first, sample_second] + 1 < 2 ^ 64" using p0(3) by simp
  from any_order [OF p0(4) this p0(2) sample_delivers]
  obtain replies p where "run sample_crypto sample_messages p0 = (Ok replies, p)" by blast
  with processor_chain_ledger [OF p0(1) [unfolded sample_node_def] sample_starts this] p0(1) show ?thesis by blast
qed

text \<open>
  A block the processor rejects leaves no trace but the counters: accounts, stored blocks, head,
  shared head and queue are as before, and no journal is left open.
\<close>

theorem process_block_atomic:
  assumes "process_block c b p = (Err e, p')" and "journal (provider p) = None"
  shows "core_kept p p' \<and> pending_map p' = pending_map p"
  using process_block_Err [OF assms] keepsD [OF process_block_pending, of p "pending_map p" c b] assms(1) by simp

theorem process_block_atomic_witness:
  "\<exists>p p'. sample_node = Ok p \<and>
     process_block sample_crypto (sample_first\<lparr>block_header := chain_header 5 12 (sample_hash sample_genesis)\<rparr>) p =
       (Err (ProcInvalidBlockNumber 5 1), p') \<and> core_kept p p' \<and> pending_map p' = pending_map p"
proof -
  let ?b = "sample_first\<lparr>block_header := chain_header 5 12 (sample_hash sample_genesis)\<rparr>"
  obtain p where p: "sample_node = Ok p" "proc_head p = sample_head"
    "map_of (blocks (provider p)) 0 = Some sample_genesis" by (rule sample_node_Ok)
  have inv: "processor_inv sample_crypto (ledger_of (provider p)) p"
    using processor_new_settled [OF p(1) [unfolded sample_node_def] sample_starts] by (simp add: settled_def)
  then have "get_block_by_hash (provider p) (sample_hash sample_genesis) = Ok sample_genesis"
    using p(2,3) by (simp add: processor_inv_def chain_ok_def sample_head_def getter_defs)
  then have "process_block sample_crypto ?b p =
      (Err (ProcInvalidBlockNumber 5 1), count_rejected_validation p)"
    by (simp add: process_block_def then_do_def find_parent_def check_against_parent_def reject_validation_def
        chain_header_def sample_genesis_def add_or_panic_def checked_add_def)
  with process_block_atomic [OF this] inv p(1) show ?thesis by (auto simp: processor_inv_def)
qed

text \<open>
  C3. Delivery order does not matter: if a list of blocks can be processed one after the other, then any
  sequence of messages that delivers these blocks, in any order and any number of times, mixed with
  account queries, ends with the same accounts, blocks and head, and an empty queue.
\<close>

theorem processor_any_order:
  assumes "process_chain c bs p = (Ok (), q)" and "head_at p + length bs + 1 < 2 ^ 64" and "pending_map p = []"
    and "set (delivers msgs) = set bs" and "ProcShutdown \<notin> set msgs"
  shows "\<exists>replies p'. run c msgs p = (Ok replies, p') \<and> same_core q p' \<and> pending_map p' = []"
  using assms by (rule any_order)

theorem processor_any_order_witness:
  "\<exists>p replies p'. sample_node = Ok p \<and> run sample_crypto sample_messages p = (Ok replies, p') \<and>
     ledger_of (provider p') = sample_paid \<and> pending_map p' = []"
proof -
  obtain p q where p: "sample_node = Ok p" "pending_map p = []" "head_at p = 0"
    "process_chain sample_crypto [sample_first, sample_second] p = (Ok (), q)" "ledger_of (provider q) = sample_paid"
    by (rule sample_node_chain)
  have "head_at p + length [sample_first, sample_second] + 1 < 2 ^ 64" using p(3) by simp
  from processor_any_order [OF p(4) this p(2) sample_delivers] p(1,5) show ?thesis by (auto simp: same_core_def)
qed

text \<open>
  C28. Draining ends and takes exactly the unbroken run: unless it panics, the loop takes from the queue the
  blocks numbered from the one after the head up to the first number that is missing, whether or not
  they are accepted, at most as many as were queued, and leaves the others.
\<close>

theorem drain_takes_run:
  assumes "try_drain c p = (r, p')" and "r \<noteq> Panic"
  shows "\<exists>k. k \<le> length (pending_map p) \<and>
    (\<forall>i<k. map_of (pending_map p) (head_number (proc_head p) + 1 + of_nat i) \<noteq> None) \<and>
    map_of (pending_map p) (head_number (proc_head p) + 1 + of_nat k) = None \<and>
    map_of (pending_map p') = map_of (pending_map p) |` {m. \<forall>i<k. m \<noteq> head_number (proc_head p) + 1 + of_nat i}"
proof -
  obtain n where n: "checked_add (head_number (proc_head p)) 1 = Some n" "drain_loop c n p = (r, p')"
    using assms by (cases "checked_add (head_number (proc_head p)) 1") (auto simp: try_drain_def then_do_def add_or_panic_def)
  then have "n = head_number (proc_head p) + 1" by (simp add: checked_add_def split: if_splits)
  with drain_loop_run [OF n(2) assms(2)] show ?thesis by blast
qed

theorem drain_takes_run_witness:
  "\<exists>p q p'. sample_node = Ok p \<and>
     q = p\<lparr>pending_map := [(1, \<lparr>pending_block = sample_first, pending_peer = PeerId 7\<rparr>),
       (3, \<lparr>pending_block = sample_second, pending_peer = PeerId 7\<rparr>)]\<rparr> \<and>
     try_drain sample_crypto q = (Ok (), p') \<and> head_number (proc_head p') = 1 \<and>
     map_of (pending_map p') 1 = None \<and> map_of (pending_map p') 3 \<noteq> None"
proof -
  obtain p r where p: "sample_node = Ok p" "pending_map p = []" "head_at p = 0"
    "process_chain sample_crypto [sample_first, sample_second] p = (Ok (), r)" by (rule sample_node_chain)
  then obtain p1 where p1: "process_block sample_crypto sample_first p = (Ok (), p1)" by (auto simp: process_chain_Cons)
  let ?third = "(3 :: u64, \<lparr>pending_block = sample_second, pending_peer = PeerId 7\<rparr>)"
  let ?q = "p\<lparr>pending_map := [(1, \<lparr>pending_block = sample_first, pending_peer = PeerId 7\<rparr>), ?third]\<rparr>"
  let ?rest = "p\<lparr>pending_map := [?third]\<rparr>"
  have head: "head_number (proc_head p) = 0" using p(3) by (simp add: unat_eq_zero)
  have "same_core p ?rest" by (simp add: same_core_def)
  from respects_coreD [OF respects_process_block this p1] obtain p2 where
    p2: "process_block sample_crypto sample_first ?rest = (Ok (), p2)" by blast
  then have pend: "pending_map p2 = [?third]"
    using keepsD [OF process_block_pending, of ?rest "[?third]" sample_crypto sample_first] by simp
  have "drain_loop sample_crypto 2 p2 = (Ok (), p2)" using pend by (simp add: drain_loop.simps)
  then have "drain_loop sample_crypto 1 ?q = (Ok (), p2)"
    using p2 by (subst drain_loop.simps) (simp add: checked_add_def)
  then have run: "try_drain sample_crypto ?q = (Ok (), p2)"
    using head by (simp add: try_drain_def then_do_def add_or_panic_def checked_add_def)
  obtain k where k: "\<forall>i<k. map_of (pending_map ?q) (1 + of_nat i) \<noteq> None" "map_of (pending_map ?q) (1 + of_nat k) = None"
    "map_of (pending_map p2) = map_of (pending_map ?q) |` {m. \<forall>i<k. m \<noteq> 1 + of_nat i}"
    using drain_takes_run [OF run] head by auto
  have "k \<noteq> 0" using k(2) by (cases k) auto
  then have "map_of (pending_map p2) 1 = None" using k(3) by (auto simp: restrict_map_def)
  moreover have "head_number (proc_head p2) = 1"
    using process_block_number [OF p2] head by (simp add: sample_first_def chain_header_def word_unat_eq_iff)
  ultimately show ?thesis using p(1) run pend by auto
qed

end
