(* ===== verification/Builder.thy ===== *)
theory Builder
  imports Delivery
begin

text \<open>
  The crate \<^verbatim>\<open>block-builder\<close>: signed transfers from account snapshots, and blocks that extend the builder's
  head. The last sections put the builder in front of the processor: a generated block whose senders
  are distinct is accepted, and one that uses a sender twice never is.
\<close>

section \<open>State (block\_builder.rs, error.rs)\<close>

datatype builder_error =
    UnknownSenderIndex usize
  | MissingAccountSnapshot address
  | BuilderInsufficientBalance address u128 u128
  | BuilderOverflow
  | BuilderHashing rlp_error
  | BuilderExecution execution_error
  | BuilderTrie trie_error
  | BuilderSigning signing_error

record transaction_spec =
  sender_index :: usize
  recipient :: address
  spec_value :: u128
  spec_gas_limit :: u64

record block_spec =
  spec_transactions :: "transaction_spec list"

record account_snapshot =
  snap_address :: address
  snap_nonce :: u64
  snap_balance :: u128

record builder_state =
  signing_keys :: "b256 list"
  current_number :: u64
  current_hash :: b256
  base_timestamp :: u64
  current_timestamp :: u64
  builder_chain_id :: u64

record block_builder =
  builder_state :: builder_state
  genesis_gas_limit :: u64

definition GAS_PRICE :: u128 where
  "GAS_PRICE = 1000000000"

definition builder_new ::
  "u64 \<Rightarrow> b256 \<Rightarrow> u64 \<Rightarrow> u64 \<Rightarrow> b256 list \<Rightarrow> (block_builder, builder_error) outcome" where
  "builder_new chain_id genesis_block_hash time limit keys =
     Ok \<lparr>builder_state = \<lparr>signing_keys = keys, current_number = 0, current_hash = genesis_block_hash,
           base_timestamp = time, current_timestamp = time, builder_chain_id = chain_id\<rparr>,
         genesis_gas_limit = limit\<rparr>"

definition builder_head :: "block_builder \<Rightarrow> u64 \<times> b256" where
  "builder_head B = (current_number (builder_state B), current_hash (builder_state B))"

section \<open>Operations\<close>

definition slot_timestamp :: "block_builder \<Rightarrow> u64 \<Rightarrow> (u64, builder_error) outcome" where
  "slot_timestamp B num =
     and_then (ok_or BuilderOverflow (checked_mul num 12)) (\<lambda>timestamp_offset.
     ok_or BuilderOverflow (checked_add (base_timestamp (builder_state B)) timestamp_offset))"

definition move_head :: "u64 \<Rightarrow> b256 \<Rightarrow> u64 \<Rightarrow> block_builder \<Rightarrow> block_builder" where
  "move_head num hash time B =
     B\<lparr>builder_state := (builder_state B)\<lparr>current_number := num, current_hash := hash, current_timestamp := time\<rparr>\<rparr>"

definition set_current_head :: "u64 \<Rightarrow> b256 \<Rightarrow> (unit, builder_error, block_builder) action" where
  "set_current_head num hash =
     then_do (reading (\<lambda>B. slot_timestamp B num)) (\<lambda>time.
     mutate (move_head num hash time))"

definition sender_address :: "crypto \<Rightarrow> block_builder \<Rightarrow> b256 \<Rightarrow> (address, builder_error) outcome" where
  "sender_address c B private_key =
     (let chain_id = builder_chain_id (builder_state B) in
      and_then (map_err BuilderSigning (sign c (Legacy 0 GAS_PRICE 21000 None 0 []) (as_bytes private_key) chain_id)) (\<lambda>stx.
      map_err BuilderSigning (recover_sender c stx chain_id)))"

text \<open>\<^verbatim>\<open>get\<close> of a vector.\<close>

definition list_get :: "'a list \<Rightarrow> usize \<Rightarrow> 'a option" where
  "list_get xs i = (if i < length xs then Some (xs ! i) else None)"

definition build_signed_transaction ::
  "crypto \<Rightarrow> block_builder \<Rightarrow> (address, account_snapshot) hash_map \<Rightarrow> transaction_spec \<Rightarrow>
     (signed_transaction, builder_error) outcome" where
  "build_signed_transaction c B snaps ts =
     and_then (ok_or (UnknownSenderIndex (sender_index ts))
       (list_get (signing_keys (builder_state B)) (sender_index ts))) (\<lambda>private_key.
     and_then (sender_address c B private_key) (\<lambda>sender.
     and_then (ok_or (MissingAccountSnapshot sender) (map_of snaps sender)) (\<lambda>snapshot.
     let tx = Legacy (snap_nonce snapshot) GAS_PRICE (spec_gas_limit ts) (Some (recipient ts)) (spec_value ts) [] in
     and_then (map_err (\<lambda>_. BuilderOverflow) (max_cost tx)) (\<lambda>cost.
     if cost > snap_balance snapshot
     then Err (BuilderInsufficientBalance sender (snap_balance snapshot) cost)
     else map_err BuilderSigning
       (sign c tx (as_bytes private_key) (builder_chain_id (builder_state B)))))))"

definition add_transaction ::
  "crypto \<Rightarrow> block_builder \<Rightarrow> (address, account_snapshot) hash_map \<Rightarrow> u64 \<times> signed_transaction list \<Rightarrow>
     transaction_spec \<Rightarrow> (u64 \<times> signed_transaction list, builder_error) outcome" where
  "add_transaction c B snaps = (\<lambda>(gas, txs) ts.
     and_then (ok_or BuilderOverflow (checked_add gas (spec_gas_limit ts))) (\<lambda>gas'.
     and_then (build_signed_transaction c B snaps ts) (\<lambda>tx.
     Ok (gas', txs @ [tx]))))"

definition generate_block ::
  "crypto \<Rightarrow> block_spec \<Rightarrow> (address, account_snapshot) hash_map \<Rightarrow>
     (block, builder_error, block_builder) action" where
  "generate_block c spec snaps =
     then_do (reading (\<lambda>B. try_fold (add_transaction c B snaps) (0, []) (spec_transactions spec))) (\<lambda>(gas, txs).
     then_do (reading (\<lambda>B. ok_or BuilderOverflow (checked_add (current_number (builder_state B)) 1))) (\<lambda>num.
     then_do (reading (\<lambda>B. slot_timestamp B num)) (\<lambda>time.
     then_do (reading (\<lambda>B. Ok \<lparr>parent_hash = current_hash (builder_state B), beneficiary = zero_array,
       state_root = zero_array, transactions_root = zero_array, gas_limit = genesis_gas_limit B,
       gas_used = gas, timestamp = time, number = num\<rparr>)) (\<lambda>hdr.
     then_do (pure (map_err BuilderHashing (hash_header c hdr))) (\<lambda>block_hash.
     then_do (mutate (move_head num block_hash time)) (\<lambda>_.
     pure (Ok \<lparr>block_header = hdr, transactions = txs\<rparr>)))))))"

section \<open>What the builder signs\<close>

text \<open>The parity bit of a signature is the only part of the recovery id that the wire format can carry.\<close>

definition parity_only :: "crypto \<Rightarrow> bool" where
  "parity_only c \<longleftrightarrow> (\<forall>key hash sig rid. sign_prehash c key hash = Some (sig, rid) \<longrightarrow> rid \<le> 1)"

lemma sign_address:
  assumes "crypto_laws c" and "sign c tx (as_bytes key) chain_id = Ok stx"
  shows "transaction stx = tx \<and>
    (recover_sender c stx chain_id = Ok (address_of_key c key) \<or> recover_sender c stx chain_id = Err InvalidSignature) \<and>
    (parity_only c \<longrightarrow> recover_sender c stx chain_id = Ok (address_of_key c key))"
  using recover_signed [OF assms] by (auto simp: parity_only_def try_from_def split: if_splits)

lemma sender_address_Ok:
  assumes "crypto_laws c" and "sender_address c B key = Ok a"
  shows "a = address_of_key c key"
  using assms(2) sign_address [OF assms(1)] by (fastforce simp: sender_address_def Let_def outcome_iffs)

definition spec_sender :: "crypto \<Rightarrow> block_builder \<Rightarrow> transaction_spec \<Rightarrow> address" where
  "spec_sender c B ts = address_of_key c (signing_keys (builder_state B) ! sender_index ts)"

text \<open>The transaction made for a specification carries the snapshot's nonce and is covered by its balance.\<close>

definition made_from ::
  "crypto \<Rightarrow> block_builder \<Rightarrow> (address, account_snapshot) hash_map \<Rightarrow> transaction_spec \<Rightarrow> signed_transaction \<Rightarrow> bool" where
  "made_from c B snaps ts stx \<longleftrightarrow>
     (\<exists>snap. map_of snaps (spec_sender c B ts) = Some snap \<and>
        transaction stx = Legacy (snap_nonce snap) GAS_PRICE (spec_gas_limit ts) (Some (recipient ts)) (spec_value ts) [] \<and>
        unat GAS_PRICE * unat (spec_gas_limit ts) + unat (spec_value ts) \<le> unat (snap_balance snap) \<and>
        (parity_only c \<longrightarrow>
          recover_sender c stx (builder_chain_id (builder_state B)) = Ok (spec_sender c B ts)))"

lemma build_signed_transaction_Ok:
  assumes "crypto_laws c" and "build_signed_transaction c B snaps ts = Ok stx"
  shows "made_from c B snaps ts stx"
proof -
  from assms(2) obtain key sender snap cost where
    key: "list_get (signing_keys (builder_state B)) (sender_index ts) = Some key" and
    sender: "sender_address c B key = Ok sender" and snap: "map_of snaps sender = Some snap" and
    cost: "max_cost (Legacy (snap_nonce snap) GAS_PRICE (spec_gas_limit ts) (Some (recipient ts)) (spec_value ts) []) = Ok cost"
      "cost \<le> snap_balance snap" and
    sign: "sign c (Legacy (snap_nonce snap) GAS_PRICE (spec_gas_limit ts) (Some (recipient ts)) (spec_value ts) [])
      (as_bytes key) (builder_chain_id (builder_state B)) = Ok stx"
    by (auto simp: build_signed_transaction_def Let_def outcome_iffs not_less split: if_splits)
  have "sender = spec_sender c B ts"
    using sender_address_Ok [OF assms(1) sender] key by (simp add: spec_sender_def list_get_def split: if_splits)
  with snap cost sign_address [OF assms(1) sign] sender_address_Ok [OF assms(1) sender] show ?thesis
    by (auto simp: made_from_def max_cost_Ok_iff fee_cap_def word_le_nat_alt)
qed

lemma add_transactions_Ok:
  assumes "try_fold (add_transaction c B snaps) (gas, txs) specs = Ok (gas', txs')"
  shows "unat gas' = unat gas + (\<Sum>ts\<leftarrow>specs. unat (spec_gas_limit ts)) \<and>
    (\<exists>new. txs' = txs @ new \<and> list_all2 (\<lambda>ts stx. build_signed_transaction c B snaps ts = Ok stx) specs new)"
  using assms
proof (induction specs arbitrary: gas txs)
  case (Cons ts specs)
  then obtain gas1 stx where step: "checked_add gas (spec_gas_limit ts) = Some gas1"
    "build_signed_transaction c B snaps ts = Ok stx"
    and rest: "try_fold (add_transaction c B snaps) (gas1, txs @ [stx]) specs = Ok (gas', txs')"
    by (auto simp: add_transaction_def outcome_iffs)
  from Cons.IH [OF rest] step show ?case by (auto simp: checked_add_unat)
qed simp

lemma slot_timestamp_Ok:
  "slot_timestamp B num = Ok time \<longleftrightarrow> unat time = unat (base_timestamp (builder_state B)) + 12 * unat num"
proof -
  have "\<exists>off :: u64. unat off = 12 * unat num" if "unat time = unat (base_timestamp (builder_state B)) + 12 * unat num"
    using that unsigned_less [of time, where ?'a = nat] by (intro ex_unat) simp
  then show ?thesis
    by (auto simp: slot_timestamp_def outcome_iffs checked_add_unat checked_mul_unat mult.commute) metis
qed

lemma generate_block_Ok:
  assumes "generate_block c spec snaps B = (Ok b, B')"
  obtains h where
    "unat (gas_used (block_header b)) = (\<Sum>ts\<leftarrow>spec_transactions spec. unat (spec_gas_limit ts))"
    "list_all2 (\<lambda>ts stx. build_signed_transaction c B snaps ts = Ok stx) (spec_transactions spec) (transactions b)"
    "unat (number (block_header b)) = unat (current_number (builder_state B)) + 1"
    "unat (timestamp (block_header b)) =
       unat (base_timestamp (builder_state B)) + 12 * unat (number (block_header b))"
    "parent_hash (block_header b) = current_hash (builder_state B)"
    "gas_limit (block_header b) = genesis_gas_limit B" "hash_header c (block_header b) = Ok h"
    "B' = move_head (number (block_header b)) h (timestamp (block_header b)) B"
proof -
  from assms obtain gas txs where fold: "try_fold (add_transaction c B snaps) (0, []) (spec_transactions spec) = Ok (gas, txs)"
    and rest: "generate_block c spec snaps B = (Ok b, B')" "transactions b = txs" "gas_used (block_header b) = gas"
    by (auto simp: generate_block_def outcome_iffs)
  from add_transactions_Ok [OF fold] rest show ?thesis
    by (intro that [of "current_hash (builder_state B')"])
       (auto simp: generate_block_def outcome_iffs checked_add_unat slot_timestamp_Ok move_head_def)
qed

section \<open>Blocks of distinct senders are accepted\<close>

text \<open>A payment that the ledger can make now.\<close>

definition payable :: "ledger \<Rightarrow> transaction \<times> address \<Rightarrow> bool" where
  "payable L = (\<lambda>(tx, sender).
     is_Legacy tx \<and> tx_to tx \<noteq> None \<and>
     (\<exists>b. L sender = Some (b, unat (tx_nonce tx)) \<and> unat (fee_cap tx) * unat (tx_gas_limit tx) + unat (tx_value tx) \<le> b))"

lemma payable_other:
  assumes "payable L x" and "payable L y" and "snd x \<noteq> snd y" and "spec_transfer base x L = Some L'"
  shows "payable L' y"
  using assms by (auto simp: payable_def spec_transfer_def Let_def unwrap_or_def
      split: option.splits prod.splits if_splits)

lemma payable_step: "payable L x \<Longrightarrow> \<exists>L'. spec_transfer base x L = Some L'"
  by (auto simp: payable_def spec_transfer_def Let_def split: prod.splits option.splits)

lemma distinct_senders_run:
  "(\<forall>x \<in> set xs. payable L x) \<Longrightarrow> distinct (map snd xs) \<Longrightarrow> \<exists>L'. spec_run base xs L = Some L'"
proof (induction xs arbitrary: L)
  case (Cons x xs)
  then obtain L1 where L1: "spec_transfer base x L = Some L1" using payable_step by fastforce
  have "\<forall>y \<in> set xs. payable L1 y"
  proof
    fix y assume "y \<in> set xs"
    with Cons.prems show "payable L1 y" using payable_other [OF _ _ _ L1] by (fastforce simp: image_iff)
  qed
  with Cons.IH Cons.prems(2) L1 show ?case by simp
qed simp

text \<open>The builder's head is the processor's, and its clock is not behind the head's.\<close>

definition in_sync :: "block_builder \<Rightarrow> block_processor \<Rightarrow> bool" where
  "in_sync B p \<longleftrightarrow>
     builder_head B = (head_number (proc_head p), head_hash (proc_head p)) \<and>
     builder_chain_id (builder_state B) = proc_chain_id p \<and>
     (case map_of (blocks (provider p)) (head_number (proc_head p)) of
        None \<Rightarrow> False
      | Some parent \<Rightarrow> unat (timestamp (block_header parent)) \<le>
          unat (base_timestamp (builder_state B)) + 12 * unat (head_number (proc_head p)))"

definition snapshots_of :: "ledger \<Rightarrow> (address, account_snapshot) hash_map \<Rightarrow> bool" where
  "snapshots_of L snaps \<longleftrightarrow>
     (\<forall>(a, snap) \<in> set snaps. L a = Some (unat (snap_balance snap), unat (snap_nonce snap)))"

text \<open>Room for the block: a hundred transactions, the gas limit, and the machine's numbers.\<close>

definition room_for :: "block_spec \<Rightarrow> block_builder \<Rightarrow> block_processor \<Rightarrow> bool" where
  "room_for spec B p \<longleftrightarrow>
     length (spec_transactions spec) \<le> 100 \<and>
     (\<Sum>ts\<leftarrow>spec_transactions spec. unat (spec_gas_limit ts)) \<le> unat (genesis_gas_limit B) \<and>
     total_balance (provider p) < 2 ^ 128 \<and>
     nonces_below (length (spec_transactions spec)) (ledger_of (provider p)) \<and>
     unat (head_total_difficulty (proc_head p)) + unat (genesis_gas_limit B) < 2 ^ 128"

lemma generated_made:
  assumes "crypto_laws c"
    and "list_all2 (\<lambda>ts stx. build_signed_transaction c B snaps ts = Ok stx) specs stxs"
  shows "list_all2 (made_from c B snaps) specs stxs"
  using assms(2) build_signed_transaction_Ok [OF assms(1)] by (rule list_all2_mono)

lemma made_senders:
  assumes "parity_only c" and "list_all2 (made_from c B snaps) specs (transactions b)"
  shows "build_block_with_senders c (builder_chain_id (builder_state B)) b =
    Ok \<lparr>bws_block = b, senders = map (spec_sender c B) specs\<rparr>"
proof -
  have "recover_sender c stx (builder_chain_id (builder_state B)) = Ok (spec_sender c B ts)"
    if "made_from c B snaps ts stx" for ts stx
    using that assms(1) by (auto simp: made_from_def)
  with assms(2) show ?thesis by (auto simp: build_block_with_senders_Ok list_all2_conv_all_nth)
qed

lemma made_tx_fits: "made_from c B snaps ts stx \<Longrightarrow> tx_fits hdr stx"
  using transfer_wire_len by (cases stx) (auto simp: made_from_def tx_fits_def tip_fits_def simp del: encoded_len.simps)

lemma made_all_fit: "list_all2 (made_from c B snaps) specs stxs \<Longrightarrow> list_all (tx_fits hdr) stxs"
  by (induction rule: list_all2_induct) (simp_all add: made_tx_fits)

lemma made_payable:
  "made_from c B snaps ts stx \<Longrightarrow> snapshots_of L snaps \<Longrightarrow> payable L (transaction stx, spec_sender c B ts)"
  by (auto simp: made_from_def snapshots_of_def payable_def fee_cap_def dest!: map_of_SomeD)

lemma made_gas:
  "list_all2 (made_from c B snaps) specs stxs \<Longrightarrow>
     (\<Sum>stx\<leftarrow>stxs. unat (tx_gas_limit (transaction stx))) = (\<Sum>ts\<leftarrow>specs. unat (spec_gas_limit ts))"
  by (induction rule: list_all2_induct) (auto simp: made_from_def)

text \<open>The transfers of a generated block, paired with the senders the specification names.\<close>

lemma made_transfers:
  assumes "list_all2 (made_from c B snaps) specs (transactions b)"
  shows "map snd (transfers \<lparr>bws_block = b, senders = map (spec_sender c B) specs\<rparr>) = map (spec_sender c B) specs"
    and "block_gas \<lparr>bws_block = b, senders = map (spec_sender c B) specs\<rparr> = (\<Sum>ts\<leftarrow>specs. unat (spec_gas_limit ts))"
    and "snapshots_of L snaps \<Longrightarrow>
      \<forall>x \<in> set (transfers \<lparr>bws_block = b, senders = map (spec_sender c B) specs\<rparr>). payable L x"
proof -
  have len: "length (transactions b) = length specs" using assms by (simp add: list_all2_lengthD)
  then show "map snd (transfers \<lparr>bws_block = b, senders = map (spec_sender c B) specs\<rparr>) = map (spec_sender c B) specs"
    by (simp add: transfers_def comp_def case_prod_unfold)
  have "map (\<lambda>(tx, s). unat (tx_gas_limit tx)) (transfers \<lparr>bws_block = b, senders = map (spec_sender c B) specs\<rparr>) =
      map (\<lambda>stx. unat (tx_gas_limit (transaction stx))) (transactions b)"
    using len by (intro nth_equalityI) (auto simp: transfers_def)
  then show "block_gas \<lparr>bws_block = b, senders = map (spec_sender c B) specs\<rparr> = (\<Sum>ts\<leftarrow>specs. unat (spec_gas_limit ts))"
    using made_gas [OF assms] by (simp add: block_gas_def)
  show "\<forall>x \<in> set (transfers \<lparr>bws_block = b, senders = map (spec_sender c B) specs\<rparr>). payable L x"
    if "snapshots_of L snaps"
    using assms made_payable [OF _ that] by (auto simp: transfers_def in_set_zip list_all2_conv_all_nth)
qed

lemma head_block:
  "chain_ok c q head \<Longrightarrow> map_of (blocks q) (head_number head) = Some b \<Longrightarrow>
     hash_header c (block_header b) = Ok (head_hash head)"
  by (auto simp: chain_ok_def)

lemma generated_accepted:
  assumes laws: "crypto_laws c" "parity_only c" and inv: "processor_inv c L0 p" and sync: "in_sync B p"
    and gen: "generate_block c spec snaps B = (Ok b, B')" and snaps: "snapshots_of (ledger_of (provider p)) snaps"
    and distinct: "distinct (map (spec_sender c B) (spec_transactions spec))" and room: "room_for spec B p"
  shows "\<exists>p'. process_block c b p = (Ok (), p') \<and> in_sync B' p' \<and>
    spec_block c (proc_chain_id p) b (ledger_of (provider p)) = Some (ledger_of (provider p'))"
proof -
  let ?bws = "\<lparr>bws_block = b, senders = map (spec_sender c B) (spec_transactions spec)\<rparr>"
  from gen obtain h where
    gas: "unat (gas_used (block_header b)) = (\<Sum>ts\<leftarrow>spec_transactions spec. unat (spec_gas_limit ts))" and
    txs: "list_all2 (\<lambda>ts stx. build_signed_transaction c B snaps ts = Ok stx) (spec_transactions spec) (transactions b)" and
    num: "unat (number (block_header b)) = unat (current_number (builder_state B)) + 1" and
    time: "unat (timestamp (block_header b)) =
       unat (base_timestamp (builder_state B)) + 12 * unat (number (block_header b))" and
    hdr: "parent_hash (block_header b) = current_hash (builder_state B)"
      "gas_limit (block_header b) = genesis_gas_limit B" and h: "hash_header c (block_header b) = Ok h" and
    B': "B' = move_head (number (block_header b)) h (timestamp (block_header b)) B"
    by (rule generate_block_Ok)
  note made = generated_made [OF laws(1) txs]
  have bws: "build_block_with_senders c (proc_chain_id p) b = Ok ?bws"
    using made_senders [OF laws(2) made] sync by (simp add: in_sync_def)
  have next_hdr: "next_header p (block_header b)"
    using sync room gas num time hdr
    by (auto simp: next_header_def in_sync_def builder_head_def room_for_def word_le_nat_alt word_less_nat_alt
        split: option.splits)
  obtain L where L: "spec_run (unat (base_fee_per_gas (block_header b))) (transfers ?bws) (ledger_of (provider p)) = Some L"
    using distinct_senders_run [OF made_transfers(3) [OF made snaps]] made_transfers(1) [OF made] distinct by auto
  have "length (transactions b) = length (spec_transactions spec)" using made by (simp add: list_all2_lengthD)
  moreover have "list_all (tx_fits (block_header b)) (transactions b)"
    using made by (rule made_all_fit)
  moreover have "block_gas ?bws < 2 ^ 64"
    using made_transfers(2) [OF made] gas unsigned_less [of "gas_used (block_header b)", where ?'a = nat] by simp
  ultimately have "executable_on p ?bws L" using L room by (simp add: executable_on_def room_for_def transfers_def)
  from process_block_complete [OF inv bws next_hdr this] obtain p' where
    p': "process_block c b p = (Ok (), p')" "ledger_of (provider p') = L"
    "map_of (blocks (provider p')) (number (block_header b)) = Some b" by blast
  note commits = process_block_commits [OF inv p'(1)]
  have "head_hash (proc_head p') = h"
    using head_block [of c "provider p'" "proc_head p'" b] commits p'(3) h by (simp add: processor_inv_def)
  with commits p'(3) sync time have "in_sync B' p'"
    by (simp add: in_sync_def B' move_head_def builder_head_def)
  with p'(1,2) L bws show ?thesis by (simp add: spec_block_def)
qed

section \<open>Blocks that use a sender twice are not\<close>

lemma spec_transfer_nonces:
  assumes "spec_transfer base (tx, sender) L = Some L'"
  shows "\<exists>b b'. L sender = Some (b, unat (tx_nonce tx)) \<and> L' sender = Some (b', unat (tx_nonce tx) + 1)"
    and "L a = Some (m, n) \<Longrightarrow> \<exists>m' n'. L' a = Some (m', n') \<and> n \<le> n'"
  using assms by (auto simp: spec_transfer_def Let_def unwrap_or_def split: option.splits prod.splits if_splits)

lemma spec_run_nonces:
  "spec_run base xs L = Some L' \<Longrightarrow> (tx, sender) \<in> set xs \<Longrightarrow> L sender = Some (m, n) \<Longrightarrow> n \<le> unat (tx_nonce tx)"
proof (induction xs arbitrary: L m n)
  case (Cons x xs)
  obtain tx0 s0 where x: "x = (tx0, s0)" by (cases x)
  with Cons.prems(1) obtain L1 where L1: "spec_transfer base (tx0, s0) L = Some L1" "spec_run base xs L1 = Some L'"
    by (auto simp: bind_eq_Some_conv)
  show ?case
  proof (cases "(tx, sender) = x")
    case True
    with spec_transfer_nonces(1) [OF L1(1)] Cons.prems(3) x show ?thesis by auto
  next
    case False
    then have "(tx, sender) \<in> set xs" using Cons.prems(2) by simp
    moreover obtain m' n' where "L1 sender = Some (m', n')" "n \<le> n'"
      using spec_transfer_nonces(2) [OF L1(1) Cons.prems(3)] by blast
    ultimately show ?thesis using Cons.IH [OF L1(2)] by fastforce
  qed
qed simp

lemma spec_run_repeated:
  "spec_run base xs L = Some L' \<Longrightarrow> i < j \<Longrightarrow> j < length xs \<Longrightarrow> snd (xs ! i) = snd (xs ! j) \<Longrightarrow>
     unat (tx_nonce (fst (xs ! i))) < unat (tx_nonce (fst (xs ! j)))"
proof (induction xs arbitrary: L i j)
  case (Cons x xs)
  obtain tx s where x: "x = (tx, s)" by (cases x)
  with Cons.prems(1) obtain L1 where L1: "spec_transfer base (tx, s) L = Some L1" "spec_run base xs L1 = Some L'"
    by (auto simp: bind_eq_Some_conv)
  obtain j' where j: "j = Suc j'" "j' < length xs" using Cons.prems(2,3) by (cases j) auto
  show ?case
  proof (cases i)
    case 0
    obtain tx' where tx': "xs ! j' = (tx', s)" using Cons.prems(4) 0 x j by (cases "xs ! j'") simp
    then have "(tx', s) \<in> set xs" using nth_mem [OF j(2)] by simp
    with spec_run_nonces [OF L1(2)] spec_transfer_nonces(1) [OF L1(1)] have "unat (tx_nonce tx) + 1 \<le> unat (tx_nonce tx')"
      by blast
    with 0 tx' x j(1) show ?thesis by simp
  next
    case (Suc i')
    with Cons.IH [OF L1(2), of i' j'] Cons.prems(2,4) j show ?thesis by simp
  qed
qed simp

lemma generated_rejected:
  assumes laws: "crypto_laws c" "parity_only c" and inv: "processor_inv c L0 p"
    and chain: "builder_chain_id (builder_state B) = proc_chain_id p"
    and gen: "generate_block c spec snaps B = (Ok b, B')"
    and "\<not> distinct (map (spec_sender c B) (spec_transactions spec))"
  shows "process_block c b p \<noteq> (Ok (), p')"
proof
  assume "process_block c b p = (Ok (), p')"
  then have spec: "spec_block c (proc_chain_id p) b (ledger_of (provider p)) = Some (ledger_of (provider p'))"
    using process_block_commits [OF inv] by blast
  let ?specs = "spec_transactions spec"
  let ?xs = "transfers \<lparr>bws_block = b, senders = map (spec_sender c B) ?specs\<rparr>"
  from gen have made: "list_all2 (made_from c B snaps) ?specs (transactions b)"
    by (rule generate_block_Ok) (rule generated_made [OF laws(1)])
  then have run: "spec_run (unat (base_fee_per_gas (block_header b))) ?xs (ledger_of (provider p)) =
      Some (ledger_of (provider p'))"
    using spec made_senders [OF laws(2) made] chain by (simp add: spec_block_def)
  obtain i j where ij: "i < j" "j < length ?specs" "spec_sender c B (?specs ! i) = spec_sender c B (?specs ! j)"
    using assms(6) by (auto simp: distinct_conv_nth) (metis linorder_neqE_nat)
  have len: "length (transactions b) = length ?specs" using made by (simp add: list_all2_lengthD)
  have xs: "?xs ! k = (transaction (transactions b ! k), spec_sender c B (?specs ! k))" if "k < length ?specs" for k
    using that len by (simp add: transfers_def)
  have "made_from c B snaps (?specs ! k) (transactions b ! k)" if "k < length ?specs" for k
    using made that by (simp add: list_all2_nthD)
  from this [of i] this [of j] ij have "tx_nonce (transaction (transactions b ! i)) = tx_nonce (transaction (transactions b ! j))"
    by (auto simp: made_from_def)
  with spec_run_repeated [OF run ij(1)] ij xs len show False by (simp add: transfers_def)
qed

section \<open>A sample builder\<close>

text \<open>The key whose address is the funded account of the sample node.\<close>

definition sample_key :: b256 where
  "sample_key = byte_array [1]"

definition sample_builder :: block_builder where
  "sample_builder = \<lparr>builder_state = \<lparr>signing_keys = [sample_key], current_number = 0,
     current_hash = sample_hash sample_genesis, base_timestamp = 0, current_timestamp = 0, builder_chain_id = 1\<rparr>,
     genesis_gas_limit = 30000000\<rparr>"

definition sample_order :: transaction_spec where
  "sample_order = \<lparr>sender_index = 0, recipient = sample_sender, spec_value = 5, spec_gas_limit = 21000\<rparr>"

definition sample_snaps :: "(address, account_snapshot) hash_map" where
  "sample_snaps = [(zero_array, \<lparr>snap_address = zero_array, snap_nonce = 0, snap_balance = 1000000000000000\<rparr>)]"

lemma sample_key_address: "address_of_key sample_crypto sample_key = zero_array"
  by (simp add: address_of_key_def sample_crypto_def keccak256_def sample_key_def zero_array_def
      byte_array_eq_iff as_bytes_byte_array)

lemma sample_parity: "parity_only sample_crypto"
  by (simp add: parity_only_def sample_crypto_def)

lemma sample_signs:
  "\<exists>stx. sign sample_crypto (Legacy nonce price gas to v []) (as_bytes sample_key) 1 = Ok stx"
proof -
  have "sample_key \<noteq> zero_array"
    by (simp add: sample_key_def zero_array_def as_bytes_byte_array numeral_eq_Suc flip: as_bytes_eq_iff)
  then show ?thesis
    by (simp add: sign_def signing_payload_eq [OF transfer_signing_len] try_from_def sample_crypto_def
        keccak256_def slice_defs signature_v_def checked_mul_def add_or_panic_def
        checked_add_def del: rlp_bytes.simps)
qed

lemma sample_builds: "\<exists>stx. build_signed_transaction sample_crypto sample_builder sample_snaps sample_order = Ok stx"
proof -
  have "sender_address sample_crypto sample_builder sample_key = Ok zero_array"
  proof -
    obtain stx where stx: "sign sample_crypto (Legacy 0 GAS_PRICE 21000 None 0 []) (as_bytes sample_key) 1 = Ok stx"
      using sample_signs by blast
    from sign_address [OF sample_crypto_laws this] sample_parity sample_key_address stx show ?thesis
      by (simp add: sender_address_def sample_builder_def)
  qed
  moreover have "\<exists>stx. sign sample_crypto (Legacy 0 GAS_PRICE 21000 (Some sample_sender) 5 []) (as_bytes sample_key) 1 = Ok stx"
    by (rule sample_signs)
  moreover have "\<exists>cost. max_cost (Legacy 0 GAS_PRICE 21000 (Some sample_sender) 5 []) = Ok cost \<and> cost \<le> 1000000000000000"
    by (simp add: max_cost_def cost_at_def checked_mul_def checked_add_def GAS_PRICE_def)
  ultimately show ?thesis
    by (auto simp: build_signed_transaction_def list_get_def sample_builder_def sample_order_def sample_snaps_def
        Let_def not_less outcome_iffs)
qed

lemma sample_generates:
  assumes "set specs \<subseteq> {sample_order}" and "length specs \<le> 2"
  shows "\<exists>b B'. generate_block sample_crypto \<lparr>spec_transactions = specs\<rparr> sample_snaps sample_builder = (Ok b, B')"
proof -
  obtain stx where stx: "build_signed_transaction sample_crypto sample_builder sample_snaps sample_order = Ok stx"
    using sample_builds by blast
  have "specs \<in> {[], [sample_order], [sample_order, sample_order]}"
    using assms by (cases specs; cases "tl specs"; auto)
  then have "\<exists>gas txs. try_fold (add_transaction sample_crypto sample_builder sample_snaps) (0, []) specs = Ok (gas, txs)"
    using stx by (auto simp: add_transaction_def checked_add_def sample_order_def)
  then show ?thesis
    by (auto simp: generate_block_def then_do_def slot_timestamp_def checked_add_def checked_mul_def sample_builder_def
        hash_header_eq)
qed

lemma sample_builder_ready:
  assumes "sample_node = Ok p"
  shows "processor_inv sample_crypto (ledger_of (provider p)) p" "in_sync sample_builder p"
    "snapshots_of (ledger_of (provider p)) sample_snaps" "room_for \<lparr>spec_transactions = [sample_order]\<rparr> sample_builder p"
    "builder_chain_id (builder_state sample_builder) = proc_chain_id p"
proof -
  obtain p' where p': "sample_node = Ok p'" "ledger_of (provider p') = [zero_array \<mapsto> (1000000000000000, 0)]"
    "total_balance (provider p') = 1000000000000000" "proc_head p' = sample_head" "proc_chain_id p' = 1"
    "map_of (blocks (provider p')) 0 = Some sample_genesis" by (rule sample_node_Ok)
  have "p' = p" using p'(1) assms by (metis outcome.inject(1))
  note p' = p' [unfolded this]
  show "processor_inv sample_crypto (ledger_of (provider p)) p"
    using processor_new_settled [OF assms [unfolded sample_node_def] sample_starts] by (simp add: settled_def)
  show "in_sync sample_builder p" "builder_chain_id (builder_state sample_builder) = proc_chain_id p"
    using p'(4-6) by (simp_all add: in_sync_def builder_head_def sample_builder_def sample_head_def sample_genesis_def
        chain_header_def genesis_header_def)
  show "snapshots_of (ledger_of (provider p)) sample_snaps"
    using p'(2) by (simp add: snapshots_of_def sample_snaps_def)
  show "room_for \<lparr>spec_transactions = [sample_order]\<rparr> sample_builder p"
    using p'(2-4) by (simp add: room_for_def sample_order_def sample_builder_def sample_head_def nonces_below_def)
qed

section \<open>Properties\<close>



text \<open>
  C27. The builder gives every transaction of a sender in one block the same nonce, the snapshot's. So a
  block that it generates with two transactions of one sender is never accepted.
\<close>

theorem builder_repeated_sender:
  assumes "crypto_laws c" and "parity_only c" and "processor_inv c L0 p"
    and "builder_chain_id (builder_state B) = proc_chain_id p"
    and "generate_block c spec snaps B = (Ok b, B')"
    and "\<not> distinct (map (spec_sender c B) (spec_transactions spec))"
  shows "fst (process_block c b p) \<noteq> Ok ()"
  using generated_rejected [OF assms] by (metis prod.collapse)

theorem builder_repeated_sender_witness:
  "\<exists>p b B'. sample_node = Ok p \<and>
     generate_block sample_crypto \<lparr>spec_transactions = [sample_order, sample_order]\<rparr> sample_snaps sample_builder =
       (Ok b, B') \<and>
     fst (process_block sample_crypto b p) \<noteq> Ok ()"
proof -
  obtain p where p: "sample_node = Ok p" by (rule sample_node_Ok)
  obtain b B' where b: "generate_block sample_crypto \<lparr>spec_transactions = [sample_order, sample_order]\<rparr> sample_snaps
      sample_builder = (Ok b, B')"
    using sample_generates [of "[sample_order, sample_order]"] by auto
  from builder_repeated_sender [OF sample_crypto_laws sample_parity sample_builder_ready(1,5) [OF p] b] p b
  show ?thesis by auto
qed

end
