(* ===== verification/Test_Harness.thy ===== *)
theory Test_Harness
  imports Builder
begin

text \<open>
  The crate \<^verbatim>\<open>core/execution\<close>, file \<^verbatim>\<open>test_harness.rs\<close> (the feature \<^verbatim>\<open>test-utils\<close>): a chain on one provider
  behind the pipeline with the basic validator, for tests of other crates. Every block is signed with one key.
\<close>

section \<open>The harness\<close>

definition TEST_PRIVATE_KEY :: bytes where
  "TEST_PRIVATE_KEY = [
     0x4c, 0x0c, 0x4d, 0x14, 0x6c, 0x46, 0xed, 0x91, 0xf6, 0xa9, 0x35, 0x09, 0x46, 0xa3, 0x69, 0x9e,
     0xb1, 0xfb, 0xc1, 0x9c, 0x91, 0xc8, 0x10, 0xe6, 0xb6, 0xa7, 0x8b, 0x0c, 0xa6, 0x06, 0x65, 0x6f]"

definition TEST_CHAIN_ID :: u64 where
  "TEST_CHAIN_ID = 1"

record harness =
  harness_provider :: in_memory_provider
  current_block_number :: u64
  genesis_hash :: b256

abbreviation basic_pipeline :: "crypto \<Rightarrow> usize \<Rightarrow> execution_output executor" where
  "basic_pipeline c max_txs \<equiv>
     pipeline_execute (basic_validate_header c) (basic_validate_body max_txs) (execute c)"

definition with_genesis_accounts :: "crypto \<Rightarrow> (address \<times> u128 \<times> u64) list \<Rightarrow> (harness, execution_error) outcome" where
  "with_genesis_accounts c accts =
     (let p = fold (\<lambda>(a, balance, nonce). set_account a (default_account\<lparr>acc_balance := balance, acc_nonce := nonce\<rparr>))
            accts default_provider
      in
      and_then (map_err RootCompute (compute_state_root c p)) (\<lambda>genesis_state_root.
      let hdr = \<lparr>parent_hash = zero_array, beneficiary = zero_array, state_root = genesis_state_root,
            transactions_root = zero_array, gas_limit = GAS_LIMIT_PER_BLOCK, gas_used = 0, timestamp = 0, number = 0\<rparr>
      in
      and_then (map_err ExecRlp (hash_header c hdr)) (\<lambda>hash.
      case insert_block c \<lparr>block_header = hdr, transactions = []\<rparr> p of
        (Ok _, q) \<Rightarrow> Ok \<lparr>harness_provider = q, current_block_number = 0, genesis_hash = hash\<rparr>
      | (Err e, _) \<Rightarrow> Err e
      | (Panic, _) \<Rightarrow> Panic)))"

definition harness_new :: "crypto \<Rightarrow> (harness, execution_error) outcome" where
  "harness_new c = with_genesis_accounts c []"

definition funded_harness :: "crypto \<Rightarrow> address \<Rightarrow> u128 \<Rightarrow> (harness, execution_error) outcome" where
  "funded_harness c a balance = with_genesis_accounts c [(a, balance, 0)]"

definition fund_account :: "address \<Rightarrow> u128 \<Rightarrow> u64 \<Rightarrow> harness \<Rightarrow> harness" where
  "fund_account a balance nonce h =
     h\<lparr>harness_provider := set_account a (default_account\<lparr>acc_balance := balance, acc_nonce := nonce\<rparr>) (harness_provider h)\<rparr>"

text \<open>An operation on the provider, as an operation of the harness.\<close>

definition on_harness ::
  "('a, execution_error, in_memory_provider) action \<Rightarrow> ('a, execution_error, harness) action" where
  "on_harness m h = (let (r, q) = m (harness_provider h) in (r, h\<lparr>harness_provider := q\<rparr>))"

definition total_gas :: "transaction list \<Rightarrow> (u64, execution_error) outcome" where
  "total_gas = try_fold (\<lambda>acc tx. ok_or ExecOverflow (checked_add acc (tx_gas_limit tx))) 0"

definition execute_block :: "crypto \<Rightarrow> transaction list \<Rightarrow> (execution_output, execution_error, harness) action" where
  "execute_block c txs =
     then_do (pure (try_collect (\<lambda>tx. map_err ExecSigning (sign c tx TEST_PRIVATE_KEY TEST_CHAIN_ID)) txs)) (\<lambda>signed.
     then_do (pure (try_collect (\<lambda>stx. map_err ExecSigning (recover_sender c stx TEST_CHAIN_ID)) signed)) (\<lambda>ss.
     then_do (pure (total_gas txs)) (\<lambda>gas.
     then_do (reading (\<lambda>h. get_block_by_number (harness_provider h) (current_block_number h))) (\<lambda>parent.
     then_do (pure (map_err ExecRlp (hash_header c (block_header parent)))) (\<lambda>hash.
     then_do (reading (\<lambda>h. and_then (add_or_panic (current_block_number h) 1) (\<lambda>n. or_panic (checked_mul n 12)))) (\<lambda>time.
     then_do (reading (\<lambda>h. add_or_panic (current_block_number h) 1)) (\<lambda>num.
     let b = \<lparr>block_header = \<lparr>parent_hash = hash, beneficiary = zero_array, state_root = zero_array,
           transactions_root = zero_array, gas_limit = GAS_LIMIT_PER_BLOCK, gas_used = gas, timestamp = time, number = num\<rparr>,
         transactions = signed\<rparr>
     in
     then_do (on_harness (basic_pipeline c 1000 \<lparr>bws_block = b, senders = ss\<rparr>)) (\<lambda>out.
     then_do (on_harness (insert_block c (b\<lparr>block_header := (block_header b)\<lparr>state_root := out_state_root out\<rparr>\<rparr>))) (\<lambda>_.
     then_do (reading (\<lambda>h. add_or_panic (current_block_number h) 1)) (\<lambda>n.
     then_do (mutate (\<lambda>h. h\<lparr>current_block_number := n\<rparr>)) (\<lambda>_.
     pure (Ok out))))))))))))"

text \<open>The assertions return normally or panic.\<close>

definition assert_account_balance :: "harness \<Rightarrow> address \<Rightarrow> u128 \<Rightarrow> (unit, execution_error) outcome" where
  "assert_account_balance h a expected =
     (case get_balance (harness_provider h) a of
        Ok actual \<Rightarrow> if actual = expected then Ok () else Panic
      | _ \<Rightarrow> Panic)"

definition assert_block_exists :: "harness \<Rightarrow> u64 \<Rightarrow> (unit, execution_error) outcome" where
  "assert_block_exists h num =
     (case get_block_by_number (harness_provider h) num of Ok _ \<Rightarrow> Ok () | _ \<Rightarrow> Panic)"

definition mine_empty_blocks :: "crypto \<Rightarrow> u64 \<Rightarrow> (unit, execution_error, harness) action" where
  "mine_empty_blocks c count =
     for_each (\<lambda>_ _. then_do (execute_block c []) (\<lambda>_. pure (Ok ()))) () [0..<unat count]"

section \<open>The invariant\<close>

definition harness_head :: "harness \<Rightarrow> b256 \<Rightarrow> chain_head" where
  "harness_head h hash = \<lparr>head_number = current_block_number h, head_hash = hash, head_total_difficulty = 0\<rparr>"

text \<open>The blocks form a chain up to the current number that starts with the genesis block, no journal is open, and
  no timestamp is ahead of the harness's clock.\<close>

definition harness_ok :: "crypto \<Rightarrow> harness \<Rightarrow> bool" where
  "harness_ok c h \<longleftrightarrow>
     provider_ok (harness_provider h) \<and> journal (harness_provider h) = None \<and>
     (\<exists>hash. chain_ok c (harness_provider h) (harness_head h hash)) \<and>
     (\<exists>g. map_of (blocks (harness_provider h)) 0 = Some g \<and> hash_header c (block_header g) = Ok (genesis_hash h)) \<and>
     (\<forall>n b. map_of (blocks (harness_provider h)) n = Some b \<longrightarrow> unat (timestamp (block_header b)) = 12 * unat n)"

lemma harness_starts:
  obtains h where "with_genesis_accounts c accts = Ok h" "harness_ok c h" "current_block_number h = 0"
    "accounts (harness_provider h) = accounts (fold (\<lambda>(a, balance, nonce).
       set_account a (default_account\<lparr>acc_balance := balance, acc_nonce := nonce\<rparr>)) accts default_provider)"
proof -
  let ?f = "\<lambda>(a, balance, nonce). set_account a (default_account\<lparr>acc_balance := balance, acc_nonce := nonce\<rparr>)"
  let ?p = "fold ?f accts default_provider"
  have keep: "provider_ok q \<and> blocks q = [] \<and> journal q = None \<and> blocks_by_hash q = [] \<Longrightarrow>
      provider_ok (fold ?f accts q) \<and> blocks (fold ?f accts q) = [] \<and> journal (fold ?f accts q) = None \<and>
        blocks_by_hash (fold ?f accts q) = []" for q
  proof (induction accts arbitrary: q)
    case (Cons x accts)
    have "journal (set_account a acc q) = None" for a acc using Cons.prems by (simp add: set_account_def)
    with Cons.IH Cons.prems show ?case by (simp add: case_prod_unfold provider_ok_set_account)
  qed simp
  have p: "provider_ok ?p" "blocks ?p = []" "journal ?p = None" "blocks_by_hash ?p = []"
    using keep [of default_provider] default_provider_ok by (simp_all add: default_provider_def)
  obtain sroot where sroot: "compute_state_root c ?p = Ok sroot" using state_root_ex [OF p(1)] by blast
  let ?g = "\<lparr>block_header = \<lparr>parent_hash = zero_array, beneficiary = zero_array, state_root = sroot,
      transactions_root = zero_array, gas_limit = GAS_LIMIT_PER_BLOCK, gas_used = 0, timestamp = 0, number = 0\<rparr>,
      transactions = []\<rparr>"
  obtain hash where hash: "hash_header c (block_header ?g) = Ok hash" by (simp add: hash_header_eq)
  obtain q where q: "insert_block c ?g ?p = (Ok (), q)" using insert_block_total [of ?g c ?p] by auto
  let ?h = "\<lparr>harness_provider = q, current_block_number = 0, genesis_hash = hash\<rparr>"
  have new: "with_genesis_accounts c accts = Ok ?h"
    using sroot hash q by (simp add: with_genesis_accounts_def Let_def)
  have st: "blocks q = [(0, ?g)]" "blocks_by_hash q = [(hash, 0)]" "journal q = None" "state q = state ?p"
    using q p hash by (auto elim!: insert_block_Ok)
  moreover have "provider_ok q" using keepsD [OF provider_ok_insert_block p(1), of c ?g] q by simp
  moreover have "chain_ok c q (harness_head ?h hash)"
    using st hash by (auto simp: chain_ok_def harness_head_def)
  ultimately have "harness_ok c ?h" using hash by (auto simp: harness_ok_def)
  with new st(4) that [of ?h] show ?thesis by simp
qed

text \<open>Funding a list of accounts: a later entry for the same address wins.\<close>

lemma funded_accounts:
  "accounts (fold (\<lambda>(a, balance, nonce). set_account a (default_account\<lparr>acc_balance := balance, acc_nonce := nonce\<rparr>)) accts p) a =
     (case map_of (rev accts) a of
        Some (balance, nonce) \<Rightarrow> Some (default_account\<lparr>acc_balance := balance, acc_nonce := nonce\<rparr>)
      | None \<Rightarrow> accounts p a)"
proof (induction accts arbitrary: p)
  case (Cons x accts)
  have "accounts (set_account a' acc q) a = (if a = a' then Some acc else accounts q a)" for a' acc q
    by (auto simp: set_account_def Let_def update_conv' split: option.split)
  with Cons show ?case by (auto simp: case_prod_unfold map_add_Some_iff map_add_def split: option.split)
qed simp

section \<open>Storing the next block\<close>

lemma harness_head_block:
  assumes "harness_ok c h"
  obtains parent hash where "map_of (blocks (harness_provider h)) (current_block_number h) = Some parent"
    "hash_header c (block_header parent) = Ok hash" "map_of (blocks_by_hash (harness_provider h)) hash = Some (current_block_number h)"
    "number (block_header parent) = current_block_number h"
    "unat (timestamp (block_header parent)) = 12 * unat (current_block_number h)"
    "chain_ok c (harness_provider h) (harness_head h hash)"
proof -
  obtain hash where chain: "chain_ok c (harness_provider h) (harness_head h hash)" using assms by (auto simp: harness_ok_def)
  then obtain parent where "map_of (blocks (harness_provider h)) (current_block_number h) = Some parent"
    "hash_header c (block_header parent) = Ok hash" "map_of (blocks_by_hash (harness_provider h)) hash = Some (current_block_number h)"
    "number (block_header parent) = current_block_number h"
    unfolding chain_ok_def by (auto simp: harness_head_def)
  with chain assms show ?thesis by (intro that) (auto simp: harness_ok_def)
qed

text \<open>A stored block whose header extends the current one keeps the invariant.\<close>

lemma harness_store:
  assumes ok: "harness_ok c h" and q: "provider_ok q" "journal q = None" "same_chain (harness_provider h) q"
    and parent: "map_of (blocks (harness_provider h)) (current_block_number h) = Some parent"
      "hash_header c (block_header parent) = Ok (parent_hash (block_header b))"
    and num: "unat (number (block_header b)) = unat (current_block_number h) + 1"
    and time: "unat (timestamp (block_header b)) = 12 * unat (number (block_header b))"
    and q': "insert_block c b q = (Ok (), q')"
  shows "harness_ok c (h\<lparr>harness_provider := q', current_block_number := number (block_header b)\<rparr>)"
proof -
  let ?h = "h\<lparr>harness_provider := q', current_block_number := number (block_header b)\<rparr>"
  from ok obtain parent' hash where p': "map_of (blocks (harness_provider h)) (current_block_number h) = Some parent'"
    "number (block_header parent') = current_block_number h"
    "unat (timestamp (block_header parent')) = 12 * unat (current_block_number h)"
    "chain_ok c (harness_provider h) (harness_head h hash)" by (rule harness_head_block)
  have [simp]: "parent' = parent" using p'(1) parent(1) by simp
  obtain hash' where hash': "hash_header c (block_header b) = Ok hash'" by (simp add: hash_header_eq)
  have st: "blocks q' = AList.update (number (block_header b)) b (blocks (harness_provider h))"
    "map_of (blocks_by_hash q') hash' = Some (number (block_header b))" "journal q' = None"
    using q' hash' q(2,3) by (auto elim!: insert_block_Ok simp: update_conv' same_chain_def)
  have "extends c parent b" using parent(2) p'(2,3) num time by (simp add: extends_def word_less_nat_alt)
  then have "chain_ok c q' (harness_head ?h hash')"
    using chain_ok_extend [OF p'(4) _ _ hash', of parent q' 0] parent(1) st(1,2) by (simp add: harness_head_def)
  moreover have "provider_ok q'" using keepsD [OF provider_ok_insert_block q(1), of c b] q' by simp
  moreover have "number (block_header b) \<noteq> 0" using num by auto
  ultimately show ?thesis using ok st time by (auto simp: harness_ok_def update_conv')
qed

section \<open>Empty blocks\<close>

lemma execute_empty:
  assumes "transactions (bws_block b) = []" and "provider_ok p"
  shows "\<exists>out. execute c b p = (Ok out, p)"
proof -
  have "indexed b = []" using assms(1) by (simp add: indexed_def)
  then show ?thesis
    by (intro execute_loop_Ok [OF _ hash_header_eq assms(2)]) simp
qed

lemma mine_one:
  assumes ok: "harness_ok c h" and room: "12 * (unat (current_block_number h) + 1) < 2 ^ 64"
  shows "\<exists>out h'. execute_block c [] h = (Ok out, h') \<and> harness_ok c h' \<and>
    unat (current_block_number h') = unat (current_block_number h) + 1 \<and>
    accounts (harness_provider h') = accounts (harness_provider h)"
proof -
  let ?q = "harness_provider h" and ?n = "current_block_number h"
  from ok obtain parent hash where parent: "map_of (blocks ?q) ?n = Some parent" "hash_header c (block_header parent) = Ok hash"
    "map_of (blocks_by_hash ?q) hash = Some ?n" by (rule harness_head_block)
  obtain num where num: "checked_add ?n 1 = Some num" "unat num = unat ?n + 1"
    using checked_add_ex [of ?n 1] room by (auto simp: checked_add_unat)
  obtain time :: u64 where "unat time = unat num * 12"
    using ex_unat [where ?'a = 64, of "unat num * 12"] num(2) room by auto
  then have time: "checked_mul num 12 = Some time" "unat time = unat num * 12" by (simp_all add: checked_mul_unat)
  let ?b = "\<lparr>block_header = \<lparr>parent_hash = hash, beneficiary = zero_array, state_root = zero_array,
           transactions_root = zero_array, gas_limit = GAS_LIMIT_PER_BLOCK, gas_used = 0, timestamp = time, number = num\<rparr>,
         transactions = []\<rparr>"
  have prov: "provider_ok ?q" "journal ?q = None" using ok by (simp_all add: harness_ok_def)
  obtain out where out: "execute c \<lparr>bws_block = ?b, senders = []\<rparr> (?q\<lparr>journal := Some []\<rparr>) = (Ok out, ?q\<lparr>journal := Some []\<rparr>)"
    using execute_empty [of "\<lparr>bws_block = ?b, senders = []\<rparr>" "?q\<lparr>journal := Some []\<rparr>" c] prov(1) by auto
  have "get_header_by_hash ?q hash = Ok (block_header parent)" using parent by (simp add: getter_defs)
  then have run: "basic_pipeline c 1000 \<lparr>bws_block = ?b, senders = []\<rparr> ?q = (Ok out, ?q)"
    using out parent(2) prov(2)
    by (simp add: pipeline_execute_def then_do_def basic_validate_header_def basic_validate_body_def check_parent_hash_def
        check_gas_def check_body_def begin_journal_def settle_def commit_journal_def)
  let ?stored = "?b\<lparr>block_header := (block_header ?b)\<lparr>state_root := out_state_root out\<rparr>\<rparr>"
  obtain q' where q': "insert_block c ?stored ?q = (Ok (), q')" using insert_block_total [of ?stored c ?q] by auto
  have "execute_block c [] h = (Ok out, h\<lparr>harness_provider := q', current_block_number := num\<rparr>)"
    using parent num(1) time(1) run q'
    by (simp add: execute_block_def then_do_def total_gas_def get_block_by_number_def add_or_panic_def on_harness_def Let_def)
  moreover have "harness_ok c (h\<lparr>harness_provider := q', current_block_number := num\<rparr>)"
    using harness_store [OF ok prov _ parent(1) _ _ _ q'] parent(2) num(2) time(2) by (simp add: same_chain_def)
  moreover have "state q' = state ?q" using q' by (auto elim!: insert_block_Ok)
  ultimately show ?thesis using num(2) by auto
qed

lemma mine_many:
  assumes "harness_ok c h" and "12 * (unat (current_block_number h) + length ns) < 2 ^ 64"
  shows "\<exists>h'. for_each (\<lambda>_ _. then_do (execute_block c []) (\<lambda>_. pure (Ok ()))) () ns h = (Ok (), h') \<and>
    harness_ok c h' \<and> unat (current_block_number h') = unat (current_block_number h) + length ns \<and>
    accounts (harness_provider h') = accounts (harness_provider h)"
  using assms
proof (induction ns arbitrary: h)
  case (Cons n ns)
  obtain out h1 where h1: "execute_block c [] h = (Ok out, h1)" "harness_ok c h1"
    "unat (current_block_number h1) = unat (current_block_number h) + 1"
    "accounts (harness_provider h1) = accounts (harness_provider h)"
    using mine_one [OF Cons.prems(1)] Cons.prems(2) by auto
  from Cons.IH [OF h1(2)] Cons.prems(2) h1 show ?case by (simp add: then_do_def)
qed simp

lemma chain_full:
  assumes "chain_ok c q head"
  shows "d \<le> unat (head_number head) \<Longrightarrow> \<exists>b. map_of (blocks q) (of_nat (unat (head_number head) - d)) = Some b"
proof (induction d)
  case 0
  then show ?case using assms by (auto simp: chain_ok_def)
next
  case (Suc d)
  let ?m = "unat (head_number head) - d"
  have small: "?m < 2 ^ 64" using unsigned_less [of "head_number head", where ?'a = nat] by simp
  then have m: "unat (of_nat ?m :: u64) = ?m" by (simp add: unat_of_nat take_bit_nat_eq_self)
  obtain b where "map_of (blocks q) (of_nat ?m) = Some b" using Suc by auto
  moreover have "(of_nat ?m :: u64) \<noteq> 0" using m Suc.prems by (metis Suc_le_eq unsigned_0 zero_less_diff less_numeral_extra(3))
  ultimately obtain parent where "map_of (blocks q) (of_nat ?m - 1) = Some parent"
    using assms unfolding chain_ok_def by blast
  moreover have "(of_nat ?m - 1 :: u64) = of_nat (unat (head_number head) - Suc d)"
    using Suc.prems by (simp add: of_nat_diff)
  ultimately show ?case by auto
qed

section \<open>Blocks of transactions\<close>

lemma signed_by_test_key:
  assumes laws: "crypto_laws c" "parity_only c"
    and signed: "try_collect (\<lambda>tx. map_err ExecSigning (sign c tx TEST_PRIVATE_KEY TEST_CHAIN_ID)) txs = Ok stxs"
    and senders: "try_collect (\<lambda>stx. map_err ExecSigning (recover_sender c stx TEST_CHAIN_ID)) stxs = Ok ss"
  shows "transfers \<lparr>bws_block = \<lparr>block_header = hdr, transactions = stxs\<rparr>, senders = ss\<rparr> =
    map (\<lambda>tx. (tx, address_of_key c (byte_array TEST_PRIVATE_KEY))) txs"
proof -
  have key: "as_bytes (byte_array TEST_PRIVATE_KEY :: b256) = TEST_PRIVATE_KEY"
    by (simp add: TEST_PRIVATE_KEY_def)
  have "list_all2 (\<lambda>tx stx. sign c tx TEST_PRIVATE_KEY TEST_CHAIN_ID = Ok stx) txs stxs"
    "list_all2 (\<lambda>stx s. recover_sender c stx TEST_CHAIN_ID = Ok s) stxs ss"
    using signed senders by (simp_all add: try_collect_Ok_iff)
  then show ?thesis
    using sign_address [OF laws(1), of _ "byte_array TEST_PRIVATE_KEY" TEST_CHAIN_ID] laws(2)
    by (intro nth_equalityI) (fastforce simp: transfers_def list_all2_conv_all_nth key)+
qed

lemma on_harness_Ok:
  "on_harness m h = (Ok x, h') \<longleftrightarrow> (\<exists>q. m (harness_provider h) = (Ok x, q) \<and> h' = h\<lparr>harness_provider := q\<rparr>)"
  by (auto simp: on_harness_def split: prod.split)

lemma execute_block_Ok:
  assumes "execute_block c txs h = (Ok out, h')"
  obtains stxs ss gas parent hash time num q q' b where
    "try_collect (\<lambda>tx. map_err ExecSigning (sign c tx TEST_PRIVATE_KEY TEST_CHAIN_ID)) txs = Ok stxs"
    "try_collect (\<lambda>stx. map_err ExecSigning (recover_sender c stx TEST_CHAIN_ID)) stxs = Ok ss"
    "map_of (blocks (harness_provider h)) (current_block_number h) = Some parent"
    "hash_header c (block_header parent) = Ok hash"
    "checked_add (current_block_number h) 1 = Some num" "checked_mul num 12 = Some time"
    "b = \<lparr>block_header = \<lparr>parent_hash = hash, beneficiary = zero_array, state_root = zero_array,
           transactions_root = zero_array, gas_limit = GAS_LIMIT_PER_BLOCK, gas_used = gas, timestamp = time, number = num\<rparr>,
         transactions = stxs\<rparr>"
    "basic_pipeline c 1000 \<lparr>bws_block = b, senders = ss\<rparr> (harness_provider h) = (Ok out, q)"
    "insert_block c (b\<lparr>block_header := (block_header b)\<lparr>state_root := out_state_root out\<rparr>\<rparr>) q = (Ok (), q')"
    "h' = h\<lparr>harness_provider := q', current_block_number := num\<rparr>"
  using assms
  by (auto simp: execute_block_def outcome_iffs on_harness_Ok Let_def get_block_by_number_def add_or_panic_def intro!: that)

lemma harness_executes:
  assumes laws: "crypto_laws c" "parity_only c" and ok: "harness_ok c h" and run: "execute_block c txs h = (Ok out, h')"
  shows "harness_ok c h' \<and> unat (current_block_number h') = unat (current_block_number h) + 1 \<and>
    spec_run (unat (ucast GAS_LIMIT_PER_BLOCK div 2 :: u128)) (map (\<lambda>tx. (tx, address_of_key c (byte_array TEST_PRIVATE_KEY))) txs)
      (ledger_of (harness_provider h)) = Some (ledger_of (harness_provider h'))"
  using run
proof (rule execute_block_Ok)
  fix stxs ss gas parent hash time num q q' b
  assume signed: "try_collect (\<lambda>tx. map_err ExecSigning (sign c tx TEST_PRIVATE_KEY TEST_CHAIN_ID)) txs = Ok stxs"
    "try_collect (\<lambda>stx. map_err ExecSigning (recover_sender c stx TEST_CHAIN_ID)) stxs = Ok ss"
    and parent: "map_of (blocks (harness_provider h)) (current_block_number h) = Some parent"
      "hash_header c (block_header parent) = Ok hash"
    and "checked_add (current_block_number h) 1 = Some num" "checked_mul num 12 = Some time"
    and b: "b = \<lparr>block_header = \<lparr>parent_hash = hash, beneficiary = zero_array, state_root = zero_array,
           transactions_root = zero_array, gas_limit = GAS_LIMIT_PER_BLOCK, gas_used = gas, timestamp = time, number = num\<rparr>,
         transactions = stxs\<rparr>"
    and pipe: "basic_pipeline c 1000 \<lparr>bws_block = b, senders = ss\<rparr> (harness_provider h) = (Ok out, q)"
    and q': "insert_block c (b\<lparr>block_header := (block_header b)\<lparr>state_root := out_state_root out\<rparr>\<rparr>) q = (Ok (), q')"
    and h': "h' = h\<lparr>harness_provider := q', current_block_number := num\<rparr>"
  have num: "unat num = unat (current_block_number h) + 1" "unat time = 12 * unat num"
    using \<open>checked_add _ _ = _\<close> \<open>checked_mul _ _ = _\<close> by (simp_all add: checked_add_unat checked_mul_unat)
  have prov: "provider_ok (harness_provider h)" "journal (harness_provider h) = None" using ok by (simp_all add: harness_ok_def)
  obtain r where r: "execute c \<lparr>bws_block = b, senders = ss\<rparr> ((harness_provider h)\<lparr>journal := Some []\<rparr>) = (Ok out, r)"
    "q = commit_journal r" "same_chain (harness_provider h) q"
    using prov(2) pipe by (rule basic_transfers.pipeline_Ok)
  have "provider_ok q" using basic_transfers.pipeline_ok [OF prov(1), of c 1000] pipe by (metis snd_conv)
  moreover have "journal q = None" using r(2) by (simp add: commit_journal_def)
  ultimately have "harness_ok c h'"
    using harness_store [OF ok _ _ r(3) parent(1) _ _ _ q'] parent(2) num b h' by simp
  moreover have "ledger_of q' = ledger_of r"
    using q' r(2) by (auto elim!: insert_block_Ok simp: ledger_of_def fun_eq_iff commit_journal_def)
  moreover have "spec_run (unat (ucast GAS_LIMIT_PER_BLOCK div 2 :: u128)) (map (\<lambda>tx. (tx, address_of_key c (byte_array TEST_PRIVATE_KEY))) txs)
      (ledger_of (harness_provider h)) = Some (ledger_of r)"
    using r(1) signed_by_test_key [OF laws signed, of "block_header b"] b
    by (auto elim!: execute_OkE dest!: loop_refines simp: transfers_indexed base_fee_per_gas_def)
  ultimately show ?thesis using num(1) h' by simp
qed

section \<open>Properties\<close>

text \<open>
  C31. Mining on the test harness always works: from any genesis accounts the harness can be built, and any
  number of empty blocks whose timestamps fit 64 bits can be mined. Afterwards the current number is
  that number, every block up to it is stored and linked to its parent by hash, and the first is the
  genesis block. The accounts, after building the harness and after mining, are exactly the funded ones:
  each address listed has the balance and the nonce of its last entry and the code hash of an account
  without code, and no other account exists, so \<^verbatim>\<open>assert_account_balance\<close> passes just for the funded balance.
\<close>

theorem harness_mines:
  assumes "12 * unat count < 2 ^ 64"
  shows "\<exists>h h'. with_genesis_accounts c accts = Ok h \<and> mine_empty_blocks c count h = (Ok (), h') \<and>
    current_block_number h' = count \<and> harness_ok c h' \<and>
    (\<forall>n \<le> count. assert_block_exists h' n = Ok ()) \<and>
    (\<forall>a. accounts (harness_provider h) a = map_option (\<lambda>(balance, nonce).
       \<lparr>acc_balance = balance, acc_nonce = nonce, acc_code_hash = default_hash\<rparr>) (map_of (rev accts) a)) \<and>
    accounts (harness_provider h') = accounts (harness_provider h) \<and>
    (\<forall>a balance. assert_account_balance h' a balance =
       (if \<exists>nonce. map_of (rev accts) a = Some (balance, nonce) then Ok () else Panic))"
proof -
  obtain h where h: "with_genesis_accounts c accts = Ok h" "harness_ok c h" "current_block_number h = 0"
    "accounts (harness_provider h) = accounts (fold (\<lambda>(a, balance, nonce).
       set_account a (default_account\<lparr>acc_balance := balance, acc_nonce := nonce\<rparr>)) accts default_provider)"
    by (rule harness_starts)
  obtain h' where h': "mine_empty_blocks c count h = (Ok (), h')" "harness_ok c h'"
    "unat (current_block_number h') = unat count" "accounts (harness_provider h') = accounts (harness_provider h)"
    using mine_many [OF h(2), of "[0..<unat count]"] assms h(3) by (auto simp: mine_empty_blocks_def)
  then have count: "current_block_number h' = count" by (simp only: word_unat_eq_iff)
  obtain hash where chain: "chain_ok c (harness_provider h') (harness_head h' hash)"
    using h'(2) by (auto simp: harness_ok_def)
  have exists: "assert_block_exists h' n = Ok ()" if "n \<le> count" for n
  proof -
    have "unat n \<le> unat count" using that by (simp add: word_le_nat_alt)
    then have "\<exists>b. map_of (blocks (harness_provider h')) n = Some b"
      using chain_full [OF chain, of "unat count - unat n"] count by (simp add: harness_head_def)
    then show ?thesis by (auto simp: assert_block_exists_def get_block_by_number_def)
  qed
  have funded: "accounts (harness_provider h) a = map_option (\<lambda>(balance, nonce).
       \<lparr>acc_balance = balance, acc_nonce = nonce, acc_code_hash = default_hash\<rparr>) (map_of (rev accts) a)" for a
    unfolding h(4) funded_accounts by (simp add: default_provider_def default_account_def split: option.split)
  have "assert_account_balance h' a balance =
      (if \<exists>nonce. map_of (rev accts) a = Some (balance, nonce) then Ok () else Panic)" for a balance
    using h'(4) funded [of a]
    by (cases "map_of (rev accts) a") (auto simp: assert_account_balance_def get_balance_def get_account_def)
  with h(1) h'(1,2,4) count exists funded show ?thesis by blast
qed

theorem harness_mines_witness:
  "\<exists>h h'. with_genesis_accounts sample_crypto [(zero_array, 9, 4), (zero_array, 5, 2)] = Ok h \<and>
    mine_empty_blocks sample_crypto 3 h = (Ok (), h') \<and> current_block_number h' = 3 \<and>
    assert_block_exists h' 2 = Ok () \<and> assert_account_balance h' zero_array 5 = Ok () \<and>
    assert_account_balance h' zero_array 9 = Panic \<and>
    accounts (harness_provider h') zero_array =
      Some \<lparr>acc_balance = 5, acc_nonce = 2, acc_code_hash = default_hash\<rparr>"
proof -
  have "12 * unat (3 :: u64) < 2 ^ 64" by simp
  from harness_mines [OF this, of sample_crypto "[(zero_array, 9, 4), (zero_array, 5, 2)]"] show ?thesis
    by (elim exE conjE) (intro exI conjI, assumption+, simp_all)
qed

end
