(* ===== verification/Fixtures.thy ===== *)
theory Fixtures
  imports Test_Harness
begin

text \<open>
  The helpers of the tests: the transaction builder of \<^verbatim>\<open>core/types/src/test_helpers.rs\<close>, and the signed
  transactions and blocks of \<^verbatim>\<open>core/execution/src/test_helpers.rs\<close>, which all have one sender. The two
  files with the key of the tests hold the same constants.
\<close>

section \<open>Transaction builder\<close>

record transaction_builder =
  tb_nonce :: u64
  tb_gas_price :: u128
  tb_gas_limit :: u64
  tb_to :: "address option"
  tb_value :: u128
  tb_data :: bytes

definition default_transaction_builder :: transaction_builder where
  "default_transaction_builder = \<lparr>tb_nonce = 0, tb_gas_price = 1, tb_gas_limit = 21000, tb_to = Some zero_array,
     tb_value = 0, tb_data = []\<rparr>"

definition transaction_builder_new :: transaction_builder where
  "transaction_builder_new = default_transaction_builder"

definition with_nonce :: "u64 \<Rightarrow> transaction_builder \<Rightarrow> transaction_builder" where
  "with_nonce n tb = tb\<lparr>tb_nonce := n\<rparr>"

definition with_gas_price :: "u128 \<Rightarrow> transaction_builder \<Rightarrow> transaction_builder" where
  "with_gas_price price tb = tb\<lparr>tb_gas_price := price\<rparr>"

definition with_gas_limit :: "u64 \<Rightarrow> transaction_builder \<Rightarrow> transaction_builder" where
  "with_gas_limit limit tb = tb\<lparr>tb_gas_limit := limit\<rparr>"

definition with_to :: "address option \<Rightarrow> transaction_builder \<Rightarrow> transaction_builder" where
  "with_to to tb = tb\<lparr>tb_to := to\<rparr>"

definition with_value :: "u128 \<Rightarrow> transaction_builder \<Rightarrow> transaction_builder" where
  "with_value v tb = tb\<lparr>tb_value := v\<rparr>"

definition with_data :: "bytes \<Rightarrow> transaction_builder \<Rightarrow> transaction_builder" where
  "with_data d tb = tb\<lparr>tb_data := d\<rparr>"

definition legacy :: "transaction_builder \<Rightarrow> transaction" where
  "legacy tb = Legacy (tb_nonce tb) (tb_gas_price tb) (tb_gas_limit tb) (tb_to tb) (tb_value tb) (tb_data tb)"

lemmas setters = with_nonce_def with_gas_price_def with_gas_limit_def with_to_def with_value_def with_data_def

text \<open>The default transaction is one that the executor charges and accepts: a transfer of nothing that costs its gas.\<close>

lemma default_transaction_costs:
  "max_cost (legacy (with_value v (with_nonce n transaction_builder_new))) = ok_or TxOverflow (checked_add 21000 v)"
  by (simp add: setters transaction_builder_new_def default_transaction_builder_def legacy_def max_cost_def cost_at_def
      checked_mul_def)

section \<open>Signed transactions and blocks\<close>

text \<open>\<^verbatim>\<open>unwrap()\<close> of a result.\<close>

definition unwrap_result :: "('a, 'e) outcome \<Rightarrow> ('a, 'e) outcome" where
  "unwrap_result r = (case r of Ok x \<Rightarrow> Ok x | _ \<Rightarrow> Panic)"

lemma unwrap_result_Ok_iff [outcome_iffs]: "unwrap_result r = Ok x \<longleftrightarrow> r = Ok x"
  by (simp add: unwrap_result_def split: outcome.split)

definition dummy_signed :: "transaction \<Rightarrow> signed_transaction" where
  "dummy_signed tx = \<lparr>transaction = tx, sig_v = 0, sig_r = zero_array, sig_s = zero_array\<rparr>"

definition signed_legacy_tx ::
  "crypto \<Rightarrow> u64 \<Rightarrow> u128 \<Rightarrow> u64 \<Rightarrow> u128 \<Rightarrow> address option \<Rightarrow> (signed_transaction, signing_error) outcome" where
  "signed_legacy_tx c nonce v limit price to =
     unwrap_result (sign c (Legacy nonce price limit to v []) TEST_PRIVATE_KEY TEST_CHAIN_ID)"

definition test_block_with_senders ::
  "crypto \<Rightarrow> header \<Rightarrow> signed_transaction list \<Rightarrow> (block_with_senders, signing_error) outcome" where
  "test_block_with_senders c hdr txs =
     and_then (try_collect (\<lambda>stx. unwrap_result (recover_sender c stx TEST_CHAIN_ID)) txs) (\<lambda>ss.
     Ok \<lparr>bws_block = \<lparr>block_header = hdr, transactions = txs\<rparr>, senders = ss\<rparr>)"

definition test_sender :: "crypto \<Rightarrow> (address, signing_error) outcome" where
  "test_sender c =
     and_then (signed_legacy_tx c 0 0 21000 1000000000 None) (\<lambda>dummy.
     unwrap_result (recover_sender c dummy TEST_CHAIN_ID))"

lemma test_key: "TEST_PRIVATE_KEY = as_bytes (byte_array TEST_PRIVATE_KEY :: b256)"
  by (simp add: TEST_PRIVATE_KEY_def)

lemma signed_legacy_sender:
  assumes "crypto_laws c" and "parity_only c" and "signed_legacy_tx c nonce v limit price to = Ok stx"
  shows "recover_sender c stx TEST_CHAIN_ID = Ok (address_of_key c (byte_array TEST_PRIVATE_KEY))"
proof -
  have "sign c (Legacy nonce price limit to v []) (as_bytes (byte_array TEST_PRIVATE_KEY :: b256)) TEST_CHAIN_ID = Ok stx"
    using assms(3) by (simp add: signed_legacy_tx_def outcome_iffs flip: test_key)
  from sign_address [OF assms(1) this] assms(2) show ?thesis by blast
qed

text \<open>Whatever the fields, a signed transaction of the fixtures is one of the sender \<open>test_sender\<close>, and so are all of a block.\<close>

lemma fixtures_one_sender:
  assumes "crypto_laws c" and "parity_only c" and "test_sender c = Ok a"
    and "list_all (\<lambda>stx. \<exists>nonce v limit price to. signed_legacy_tx c nonce v limit price to = Ok stx) txs"
  shows "test_block_with_senders c hdr txs =
    Ok \<lparr>bws_block = \<lparr>block_header = hdr, transactions = txs\<rparr>, senders = replicate (length txs) a\<rparr>"
proof -
  have a: "a = address_of_key c (byte_array TEST_PRIVATE_KEY)"
    using assms(3) signed_legacy_sender [OF assms(1,2)] by (auto simp: test_sender_def outcome_iffs)
  have "try_collect (\<lambda>stx. unwrap_result (recover_sender c stx TEST_CHAIN_ID)) txs = Ok (replicate (length txs) a)"
    using assms(4) by (induction txs) (auto simp: a unwrap_result_def dest: signed_legacy_sender [OF assms(1,2)])
  then show ?thesis by (simp add: test_block_with_senders_def)
qed

end
