(* ===== verification/Manager.thy ===== *)
theory Manager
  imports Connection
begin

text \<open>
  The crate \<^verbatim>\<open>core/networking\<close>, file \<^verbatim>\<open>manager.rs\<close>: the task that knows the connected peers, answers pings,
  gossips transactions and passes blocks and queries on to the processor. One iteration of its
  \<^verbatim>\<open>select!\<close> loop is a step; whether a channel still has a receiver is given with each step. The map of
  peers is iterated in an unspecified order, which is the order of the association list.
\<close>

section \<open>The state\<close>

record manager =
  peer_map :: "(peer_id, msg_sender) hash_map"
  outbox :: "(msg_sender \<times> message) list"
  to_processor :: "network_event list"
  mgr_running :: bool

definition manager_init :: manager where
  "manager_init = \<lparr>peer_map = [], outbox = [], to_processor = [], mgr_running = True\<rparr>"

record mgr_env =
  sender_open :: "msg_sender \<Rightarrow> bool"
  processor_up :: bool

datatype mgr_input =
    ManagerEvent "peer_event option"
  | Tick
  | ShutdownSignal

section \<open>The loop\<close>

definition mgr_send :: "mgr_env \<Rightarrow> msg_sender \<Rightarrow> message \<Rightarrow> manager \<Rightarrow> bool \<times> manager" where
  "mgr_send env sender m mgr =
     (if sender_open env sender then (True, mgr\<lparr>outbox := outbox mgr @ [(sender, m)]\<rparr>) else (False, mgr))"

definition processor_send :: "mgr_env \<Rightarrow> network_event \<Rightarrow> manager \<Rightarrow> manager" where
  "processor_send env ev mgr =
     (if processor_up env then mgr\<lparr>to_processor := to_processor mgr @ [ev]\<rparr> else mgr)"

definition remove_peer :: "peer_id \<Rightarrow> manager \<Rightarrow> manager" where
  "remove_peer pid mgr = mgr\<lparr>peer_map := AList.delete pid (peer_map mgr)\<rparr>"

text \<open>The loop that sends to several peers and collects those whose channel is closed.\<close>

fun send_each :: "mgr_env \<Rightarrow> message \<Rightarrow> (peer_id \<times> msg_sender) list \<Rightarrow> manager \<Rightarrow> peer_id list \<times> manager" where
  "send_each env m [] mgr = ([], mgr)"
| "send_each env m ((pid, sender) # peers) mgr =
     (let (ok, mgr1) = mgr_send env sender m mgr;
          (stale_peers, mgr2) = send_each env m peers mgr1
      in (if ok then stale_peers else pid # stale_peers, mgr2))"

definition broadcast :: "mgr_env \<Rightarrow> message \<Rightarrow> (peer_id \<Rightarrow> bool) \<Rightarrow> manager \<Rightarrow> manager" where
  "broadcast env m skip mgr =
     (let (stale_peers, mgr1) = send_each env m (filter (\<lambda>(pid, _). \<not> skip pid) (peer_map mgr)) mgr
      in fold remove_peer stale_peers mgr1)"

text \<open>\<^verbatim>\<open>if let Some(sender) = peer_map.get(&peer_id)\<close>, send, and forget the peer if its channel is closed.\<close>

definition send_to_peer :: "mgr_env \<Rightarrow> peer_id \<Rightarrow> message \<Rightarrow> manager \<Rightarrow> manager" where
  "send_to_peer env pid m mgr =
     (case map_of (peer_map mgr) pid of
        Some sender \<Rightarrow> let (ok, mgr1) = mgr_send env sender m mgr in if ok then mgr1 else remove_peer pid mgr1
      | None \<Rightarrow> mgr)"

definition on_peer_message :: "mgr_env \<Rightarrow> peer_id \<Rightarrow> message \<Rightarrow> manager \<Rightarrow> manager" where
  "on_peer_message env pid m mgr =
     (case m of
        Ping \<Rightarrow> send_to_peer env pid Pong mgr
      | Transactions txs \<Rightarrow> broadcast env (Transactions txs) (\<lambda>other. other = pid) mgr
      | NewBlock block _ \<Rightarrow> processor_send env (NetNewBlock block pid) mgr
      | GetAccountState a \<Rightarrow> processor_send env (NetGetAccountState a pid) mgr
      | GetChainHead \<Rightarrow> processor_send env (NetGetChainHead pid) mgr
      | _ \<Rightarrow> mgr)"

definition on_peer_event :: "mgr_env \<Rightarrow> peer_event \<Rightarrow> manager \<Rightarrow> manager" where
  "on_peer_event env ev mgr =
     (case ev of
        Connected pid _ sender \<Rightarrow> mgr\<lparr>peer_map := AList.update pid sender (peer_map mgr)\<rparr>
      | Disconnected pid \<Rightarrow> remove_peer pid mgr
      | PeerMessage pid m \<Rightarrow> on_peer_message env pid m mgr
      | SendMessage pid m \<Rightarrow> send_to_peer env pid m mgr)"

definition shutdown_reason :: rust_string where
  "shutdown_reason = string_lit ''node shutting down''"

definition on_shutdown :: "mgr_env \<Rightarrow> manager \<Rightarrow> manager" where
  "on_shutdown env mgr =
     (snd (send_each env (Disconnect shutdown_reason) (peer_map mgr) mgr))\<lparr>peer_map := [], mgr_running := False\<rparr>"

definition manager_step :: "mgr_env \<times> mgr_input \<Rightarrow> manager \<Rightarrow> manager" where
  "manager_step = (\<lambda>(env, inp) mgr.
     if \<not> mgr_running mgr then mgr
     else case inp of
       ManagerEvent (Some ev) \<Rightarrow> on_peer_event env ev mgr
     | ManagerEvent None \<Rightarrow> mgr\<lparr>mgr_running := False\<rparr>
     | Tick \<Rightarrow> broadcast env Ping (\<lambda>_. False) mgr
     | ShutdownSignal \<Rightarrow> on_shutdown env mgr)"

section \<open>Broadcasts\<close>

lemma send_each_eq:
  "send_each env m peers mgr =
     (map fst (filter (\<lambda>(pid, sender). \<not> sender_open env sender) peers),
      mgr\<lparr>outbox := outbox mgr @ map (\<lambda>(pid, sender). (sender, m)) (filter (\<lambda>(pid, sender). sender_open env sender) peers)\<rparr>)"
  by (induction peers arbitrary: mgr) (auto simp: mgr_send_def Let_def)

lemma remove_peers_eq:
  "fold remove_peer pids mgr = mgr\<lparr>peer_map := filter (\<lambda>(pid, _). pid \<notin> set pids) (peer_map mgr)\<rparr>"
proof (induction pids arbitrary: mgr)
  case (Cons pid pids)
  have "filter (\<lambda>(p, _). p \<notin> set pids) (AList.delete pid (peer_map mgr)) =
      filter (\<lambda>(p, _). p \<notin> set (pid # pids)) (peer_map mgr)"
    by (auto simp: AList.delete_eq filter_filter intro!: filter_cong)
  with Cons show ?case by (simp add: remove_peer_def)
qed (simp add: case_prod_unfold)

lemma broadcast_eq:
  assumes "hm_ok (peer_map mgr)"
  shows "broadcast env m skip mgr = mgr\<lparr>
    outbox := outbox mgr @ map (\<lambda>(pid, sender). (sender, m))
      (filter (\<lambda>(pid, sender). \<not> skip pid \<and> sender_open env sender) (peer_map mgr)),
    peer_map := filter (\<lambda>(pid, sender). skip pid \<or> sender_open env sender) (peer_map mgr)\<rparr>"
proof -
  have "pid \<in> set (map fst (filter (\<lambda>(pid, sender). \<not> skip pid \<and> \<not> sender_open env sender) (peer_map mgr))) \<longleftrightarrow>
      \<not> skip pid \<and> \<not> sender_open env sender" if "(pid, sender) \<in> set (peer_map mgr)" for pid sender
    using that assms by (auto dest: eq_key_imp_eq_value intro: rev_image_eqI)
  then have "filter (\<lambda>(pid, _). pid \<notin> set (map fst (filter (\<lambda>(pid, sender). \<not> skip pid \<and> \<not> sender_open env sender)
      (peer_map mgr)))) (peer_map mgr) = filter (\<lambda>(pid, sender). skip pid \<or> sender_open env sender) (peer_map mgr)"
    by (intro filter_cong) auto
  then show ?thesis
    by (simp add: broadcast_def send_each_eq remove_peers_eq filter_filter case_prod_unfold conj_commute)
qed

lemma hm_ok_filter: "hm_ok m \<Longrightarrow> hm_ok (filter P m)"
  by (rule distinct_map_filter)

lemma manager_peers_ok: "hm_ok (peer_map mgr) \<Longrightarrow> hm_ok (peer_map (manager_step x mgr))"
proof -
  have "hm_ok (peer_map mgr) \<Longrightarrow> hm_ok (peer_map (send_to_peer env pid m mgr))" for env pid m mgr
    by (auto simp: send_to_peer_def mgr_send_def remove_peer_def hm_ok_delete split: option.split)
  moreover have "hm_ok (peer_map mgr) \<Longrightarrow> hm_ok (peer_map (broadcast env m skip mgr))" for env m skip mgr
    by (simp add: broadcast_eq hm_ok_filter)
  ultimately have "hm_ok (peer_map mgr) \<Longrightarrow> hm_ok (peer_map (on_peer_message env pid m mgr))" for env pid m mgr
    by (simp add: on_peer_message_def processor_send_def split: message.split)
  then show "hm_ok (peer_map mgr) \<Longrightarrow> hm_ok (peer_map (manager_step x mgr))"
    by (simp add: manager_step_def on_peer_event_def on_shutdown_def remove_peer_def hm_ok_update hm_ok_delete
        broadcast_eq hm_ok_filter send_to_peer_def mgr_send_def
        split: prod.split mgr_input.split option.split peer_event.split)
qed

section \<open>Properties\<close>

text \<open>
  C33. Gossip: a transactions message from one peer is sent once to every other connected peer whose
  channel is open, and to nobody else; the peers whose channel is closed are forgotten, the sender
  and all others are kept, and nothing goes to the processor.
\<close>

theorem manager_gossip:
  assumes "mgr_running mgr" and "hm_ok (peer_map mgr)"
  shows "manager_step (env, ManagerEvent (Some (PeerMessage pid (Transactions txs)))) mgr = mgr\<lparr>
    outbox := outbox mgr @ map (\<lambda>(other, sender). (sender, Transactions txs))
      (filter (\<lambda>(other, sender). other \<noteq> pid \<and> sender_open env sender) (peer_map mgr)),
    peer_map := filter (\<lambda>(other, sender). other = pid \<or> sender_open env sender) (peer_map mgr)\<rparr>"
  using assms by (simp add: manager_step_def on_peer_event_def on_peer_message_def broadcast_eq)

theorem manager_gossip_witness:
  "outbox (manager_step (\<lparr>sender_open = \<lambda>s. s \<noteq> MsgSender 3, processor_up = True\<rparr>,
      ManagerEvent (Some (PeerMessage (PeerId 1) (Transactions []))))
    (manager_init\<lparr>peer_map := [(PeerId 1, MsgSender 1), (PeerId 2, MsgSender 2), (PeerId 3, MsgSender 3)]\<rparr>)) =
   [(MsgSender 2, Transactions [])]"
  by (subst manager_gossip) (simp_all add: manager_init_def)

end
