(* ===== verification/Network.thy ===== *)
theory Network
  imports Manager
begin

text \<open>
  The crate \<^verbatim>\<open>core/networking\<close>, file \<^verbatim>\<open>server.rs\<close>, and the composition of its tasks: the listener that
  numbers connections, any number of connection tasks, the channel of peer events, and the manager,
  interleaved in any order. A task that panics ends alone (\<^verbatim>\<open>JoinSet\<close>); binding the socket and the
  final joining of the tasks are not part of this theory (the latter is in \<open>Tasks\<close>).
\<close>

section \<open>The system\<close>

text \<open>A connection is its context with the inputs its task has consumed, which determine its state.\<close>

type_synonym link = "connection_context \<times> (conn_env \<times> conn_input) list"

record network =
  peer_counter :: u64
  links :: "peer_id \<rightharpoonup> link"
  event_queue :: "peer_event list"
  net_manager :: manager

definition network_init :: network where
  "network_init = \<lparr>peer_counter = 0, links = Map.empty, event_queue = [], net_manager = manager_init\<rparr>"

text \<open>\<^verbatim>\<open>peer_counter.fetch_add(1) + 1\<close>, the context and the channel of a new connection.\<close>

definition accept :: "u64 \<Rightarrow> socket_addr \<Rightarrow> (unit, network_error, network) action" where
  "accept chain_id addr =
     then_do (reading (\<lambda>net. add_or_panic (peer_counter net) 1)) (\<lambda>n.
     mutate (\<lambda>net. net\<lparr>peer_counter := n, links := (links net)(PeerId n \<mapsto>
       (\<lparr>ctx_peer_id = PeerId n, peer_address = addr, expected_chain_id = chain_id,
         peer_sender = MsgSender n\<rparr>, []))\<rparr>))"

text \<open>One iteration of a connection's loop; what it emits is queued for the manager.\<close>

definition serve :: "peer_id \<Rightarrow> link \<Rightarrow> conn_env \<times> conn_input \<Rightarrow> network \<Rightarrow> network" where
  "serve pid = (\<lambda>(ctx, ins) x net.
     let old = emitted (conn_run ctx ins); new = emitted (conn_run ctx (ins @ [x]))
     in net\<lparr>links := (links net)(pid \<mapsto> (ctx, ins @ [x])),
            event_queue := event_queue net @ drop (length old) new\<rparr>)"

inductive net_step :: "u64 \<Rightarrow> network \<Rightarrow> network \<Rightarrow> bool" for chain_id where
  net_accept: "accept chain_id addr net = (Ok (), net') \<Longrightarrow> net_step chain_id net net'"
| net_serve: "links net pid = Some link \<Longrightarrow> net_step chain_id net (serve pid link x net)"
| net_reply: "net_step chain_id net (net\<lparr>event_queue := event_queue net @ [SendMessage pid m]\<rparr>)"
| net_dispatch: "event_queue net = ev # rest \<Longrightarrow>
    net_step chain_id net (net\<lparr>event_queue := rest,
      net_manager := manager_step (env, ManagerEvent (Some ev)) (net_manager net)\<rparr>)"
| net_tick: "net_step chain_id net (net\<lparr>net_manager := manager_step (env, Tick) (net_manager net)\<rparr>)"
| net_shutdown: "net_step chain_id net (net\<lparr>net_manager := manager_step (env, ShutdownSignal) (net_manager net)\<rparr>)"

inductive_cases net_stepE: "net_step chain_id net net'"

lemma net_dispatch_hd:
  "event_queue net \<noteq> [] \<Longrightarrow> net_step chain_id net (net\<lparr>event_queue := tl (event_queue net), net_manager :=
     manager_step (env, ManagerEvent (Some (hd (event_queue net)))) (net_manager net)\<rparr>)"
  by (rule net_dispatch) simp

abbreviation reachable :: "u64 \<Rightarrow> network \<Rightarrow> bool" where
  "reachable chain_id net \<equiv> (net_step chain_id)\<^sup>*\<^sup>* network_init net"

section \<open>Where an event comes from\<close>

definition told_by :: "u64 \<Rightarrow> network \<Rightarrow> peer_id \<Rightarrow> peer_event \<Rightarrow> bool" where
  "told_by chain_id net pid ev \<longleftrightarrow>
     (\<exists>ctx ins. links net pid = Some (ctx, ins) \<and> ctx_peer_id ctx = pid \<and> expected_chain_id ctx = chain_id \<and>
        ev \<in> set (emitted (conn_run ctx ins)))"

text \<open>The message of a peer that made the manager raise an event for the processor.\<close>

fun raises :: "message \<Rightarrow> peer_id \<Rightarrow> network_event \<Rightarrow> bool" where
  "raises m pid (NetNewBlock block origin) \<longleftrightarrow> origin = pid \<and> (\<exists>td. m = NewBlock block td)"
| "raises m pid (NetGetAccountState a origin) \<longleftrightarrow> origin = pid \<and> m = GetAccountState a"
| "raises m pid (NetGetChainHead origin) \<longleftrightarrow> origin = pid \<and> m = GetChainHead"

lemma conn_step_emitted: "\<exists>new. emitted (conn_step ctx x s) = emitted s @ new"
  by (auto simp: conn_step_def on_message_def on_status_def on_outbound_def framed_send_def event_send_def Let_def
      split: prod.split conn_input.split option.split outcome.split handshake_state.split message.split)

lemma conn_run_snoc: "conn_run ctx (ins @ [x]) = conn_step ctx x (conn_run ctx ins)"
  by (simp add: conn_run_def)

lemma emitted_serve:
  "set (emitted (conn_run ctx (ins @ [x]))) =
     set (emitted (conn_run ctx ins)) \<union>
     set (drop (length (emitted (conn_run ctx ins))) (emitted (conn_run ctx (ins @ [x]))))"
  using conn_step_emitted [of ctx x "conn_run ctx ins"] by (auto simp: conn_run_snoc)

lemma told_by_event:
  "\<forall>p. ev \<noteq> Disconnected p \<Longrightarrow> told_by chain_id net pid ev \<Longrightarrow>
     \<exists>ctx ins h td rest. links net pid = Some (ctx, ins) \<and> expected_chain_id ctx = chain_id \<and>
       received ins = Status chain_id h td # rest \<and> (\<forall>pid' m. ev = PeerMessage pid' m \<longrightarrow> m \<in> set rest)"
proof -
  assume kind: "\<forall>p. ev \<noteq> Disconnected p" and "told_by chain_id net pid ev"
  then obtain ctx ins where link: "links net pid = Some (ctx, ins)" "expected_chain_id ctx = chain_id"
    and ev: "ev \<in> set (emitted (conn_run ctx ins))" by (auto simp: told_by_def)
  obtain before fin where e: "emitted (conn_run ctx ins) = before @ fin"
    "before = [] \<or> (\<exists>ms. handshake_done ctx (received ins) ms \<and> before = session ctx ms)"
    "fin = [] \<or> fin = [Disconnected (ctx_peer_id ctx)]"
    using conn_session by blast
  with ev kind obtain ms where ms: "handshake_done ctx (received ins) ms" "ev \<in> set (session ctx ms)"
    by auto
  then obtain h td others where "received ins = Status chain_id h td # ms @ others"
    by (auto simp: handshake_done_def link)
  with link ms(2) show ?thesis by (fastforce simp: session_def)
qed

lemma conn_event_peer:
  assumes "ev \<in> set (emitted (conn_run ctx ins))"
  shows "case ev of Connected pid _ _ \<Rightarrow> pid = ctx_peer_id ctx | Disconnected pid \<Rightarrow> pid = ctx_peer_id ctx
    | PeerMessage pid _ \<Rightarrow> pid = ctx_peer_id ctx | SendMessage _ _ \<Rightarrow> False"
proof -
  obtain before fin where e: "emitted (conn_run ctx ins) = before @ fin"
    "before = [] \<or> (\<exists>ms. before = session ctx ms)" "fin = [] \<or> fin = [Disconnected (ctx_peer_id ctx)]"
    using conn_session by blast
  with assms show ?thesis by (auto simp: session_def)
qed

section \<open>The invariant of the system\<close>

lemma set_hm_updateD: "x \<in> set (AList.update k v m) \<Longrightarrow> x = (k, v) \<or> x \<in> set m"
  by (induction m) (auto split: if_splits)

lemma set_hm_deleteD: "x \<in> set (AList.delete k m) \<Longrightarrow> x \<in> set m"
  by (auto simp: AList.delete_eq)

lemma broadcast_peersD: "x \<in> set (peer_map (broadcast env m skip mgr)) \<Longrightarrow> x \<in> set (peer_map mgr)"
  by (auto simp: broadcast_def send_each_eq remove_peers_eq)

lemma send_to_peer_peersD: "x \<in> set (peer_map (send_to_peer env pid m mgr)) \<Longrightarrow> x \<in> set (peer_map mgr)"
  by (auto simp: send_to_peer_def mgr_send_def remove_peer_def dest: set_hm_deleteD split: option.splits if_splits)

lemma no_processor_events [simp]:
  "to_processor (broadcast env m skip mgr) = to_processor mgr"
  "to_processor (send_to_peer env pid m mgr) = to_processor mgr"
  by (simp_all add: broadcast_def send_each_eq remove_peers_eq send_to_peer_def mgr_send_def remove_peer_def
      split: option.split)

lemma manager_event_peers:
  "(pid, sender) \<in> set (peer_map (manager_step (env, ManagerEvent (Some ev)) mgr)) \<Longrightarrow>
     (pid, sender) \<in> set (peer_map mgr) \<or> (\<exists>addr. ev = Connected pid addr sender)"
  by (auto simp: manager_step_def on_peer_event_def on_peer_message_def processor_send_def remove_peer_def
      dest!: set_hm_updateD set_hm_deleteD broadcast_peersD send_to_peer_peersD
      split: if_splits peer_event.splits message.splits)

lemma manager_event_processor:
  "e \<in> set (to_processor (manager_step (env, ManagerEvent (Some ev)) mgr)) \<Longrightarrow>
     e \<in> set (to_processor mgr) \<or> (\<exists>pid m. ev = PeerMessage pid m \<and> raises m pid e)"
  by (auto simp: manager_step_def on_peer_event_def on_peer_message_def processor_send_def remove_peer_def
      split: if_splits peer_event.splits message.splits)

lemma manager_other_peers:
  "inp = Tick \<or> inp = ShutdownSignal \<Longrightarrow> x \<in> set (peer_map (manager_step (env, inp) mgr)) \<Longrightarrow>
     x \<in> set (peer_map mgr)"
  by (auto simp: manager_step_def on_shutdown_def dest: broadcast_peersD split: if_splits)

lemma manager_other_processor:
  "inp = Tick \<or> inp = ShutdownSignal \<Longrightarrow> to_processor (manager_step (env, inp) mgr) = to_processor mgr"
  by (auto simp: manager_step_def on_shutdown_def send_each_eq)

definition links_ok :: "u64 \<Rightarrow> network \<Rightarrow> bool" where
  "links_ok chain_id net \<longleftrightarrow>
     (\<forall>pid ctx ins. links net pid = Some (ctx, ins) \<longrightarrow>
        ctx_peer_id ctx = pid \<and> expected_chain_id ctx = chain_id \<and> (\<exists>n. pid = PeerId n \<and> n \<le> peer_counter net))"

definition event_ok :: "u64 \<Rightarrow> network \<Rightarrow> peer_event \<Rightarrow> bool" where
  "event_ok chain_id net ev \<longleftrightarrow>
     (case ev of
        Connected pid _ _ \<Rightarrow> told_by chain_id net pid ev
      | PeerMessage pid _ \<Rightarrow> told_by chain_id net pid ev
      | _ \<Rightarrow> True)"

definition peer_ok :: "u64 \<Rightarrow> network \<Rightarrow> peer_id \<times> msg_sender \<Rightarrow> bool" where
  "peer_ok chain_id net = (\<lambda>(pid, sender). \<exists>addr. told_by chain_id net pid (Connected pid addr sender))"

definition raised_ok :: "u64 \<Rightarrow> network \<Rightarrow> network_event \<Rightarrow> bool" where
  "raised_ok chain_id net e \<longleftrightarrow> (\<exists>pid m. raises m pid e \<and> told_by chain_id net pid (PeerMessage pid m))"

definition net_inv :: "u64 \<Rightarrow> network \<Rightarrow> bool" where
  "net_inv chain_id net \<longleftrightarrow>
     links_ok chain_id net \<and> list_all (event_ok chain_id net) (event_queue net) \<and>
     list_all (peer_ok chain_id net) (peer_map (net_manager net)) \<and>
     list_all (raised_ok chain_id net) (to_processor (net_manager net))"

lemma net_inv_init: "net_inv chain_id network_init"
  by (simp add: net_inv_def links_ok_def network_init_def manager_init_def)

text \<open>A step that keeps what the connections have told keeps the rest.\<close>

lemma net_inv_more:
  assumes "net_inv chain_id net" and mono: "\<And>pid ev. told_by chain_id net pid ev \<Longrightarrow> told_by chain_id net' pid ev"
    and "links_ok chain_id net'"
    and "\<And>ev. ev \<in> set (event_queue net') \<Longrightarrow> ev \<in> set (event_queue net) \<or> event_ok chain_id net' ev"
    and "\<And>x. x \<in> set (peer_map (net_manager net')) \<Longrightarrow>
      x \<in> set (peer_map (net_manager net)) \<or> peer_ok chain_id net x"
    and "\<And>e. e \<in> set (to_processor (net_manager net')) \<Longrightarrow>
      e \<in> set (to_processor (net_manager net)) \<or> raised_ok chain_id net e"
  shows "net_inv chain_id net'"
proof -
  have "event_ok chain_id net' ev" if "event_ok chain_id net ev" for ev
    using that mono by (simp add: event_ok_def split: peer_event.splits)
  moreover have "peer_ok chain_id net' x" if "peer_ok chain_id net x" for x
    using that mono by (auto simp: peer_ok_def)
  moreover have "raised_ok chain_id net' e" if "raised_ok chain_id net e" for e
    using that mono by (auto simp: raised_ok_def)
  ultimately show ?thesis
    using assms(1,3-) unfolding net_inv_def list_all_iff by blast
qed

lemma net_inv_accept:
  assumes "net_inv chain_id net" and "accept chain_id addr net = (Ok (), net')"
  shows "net_inv chain_id net'"
proof -
  obtain n where n: "unat n = unat (peer_counter net) + 1"
    and net': "net' = net\<lparr>peer_counter := n, links := (links net)(PeerId n \<mapsto>
       (\<lparr>ctx_peer_id = PeerId n, peer_address = addr, expected_chain_id = chain_id,
         peer_sender = MsgSender n\<rparr>, []))\<rparr>"
    using assms(2) by (auto simp: accept_def outcome_iffs add_or_panic_def checked_add_eq_Some)
  have ok: "links_ok chain_id net" using assms(1) by (simp add: net_inv_def)
  then have "links net (PeerId n) = None"
    using n by (cases "links net (PeerId n)") (fastforce simp: links_ok_def word_le_nat_alt)+
  then have "told_by chain_id net' pid ev" if "told_by chain_id net pid ev" for pid ev
    using that by (auto simp: told_by_def net')
  moreover have "links_ok chain_id net'"
    using ok n by (fastforce simp: links_ok_def net' word_le_nat_alt)
  ultimately show ?thesis by (rule net_inv_more [OF assms(1)]) (simp_all add: net')
qed

lemma net_inv_serve:
  assumes "net_inv chain_id net" and "links net pid = Some (ctx, ins)"
  shows "net_inv chain_id (serve pid (ctx, ins) x net)"
proof -
  let ?net = "serve pid (ctx, ins) x net"
  have ok: "links_ok chain_id net" using assms(1) by (simp add: net_inv_def)
  then have ctx: "ctx_peer_id ctx = pid" "expected_chain_id ctx = chain_id"
    using assms(2) by (auto simp: links_ok_def)
  have told: "told_by chain_id ?net pid ev" if "ev \<in> set (emitted (conn_run ctx (ins @ [x])))" for ev
    using that ctx by (simp add: told_by_def serve_def Let_def)
  show ?thesis
  proof (rule net_inv_more [OF assms(1)])
    show "told_by chain_id ?net p ev" if "told_by chain_id net p ev" for p ev
    proof (cases "p = pid")
      case True
      with that assms(2) have "ev \<in> set (emitted (conn_run ctx ins))" by (auto simp: told_by_def)
      then show ?thesis unfolding True by (intro told) (simp add: emitted_serve)
    next
      case False
      with that show ?thesis by (simp add: told_by_def serve_def Let_def)
    qed
    show "links_ok chain_id ?net"
      using ok assms(2) by (fastforce simp: links_ok_def serve_def Let_def)
    show "ev \<in> set (event_queue net) \<or> event_ok chain_id ?net ev" if "ev \<in> set (event_queue ?net)" for ev
    proof (cases "ev \<in> set (event_queue net)")
      case False
      with that have new: "ev \<in> set (emitted (conn_run ctx (ins @ [x])))"
        by (auto simp: serve_def Let_def dest: in_set_dropD)
      with conn_event_peer [OF new] ctx(1) told show ?thesis
        by (auto simp: event_ok_def split: peer_event.split)
    qed simp
  qed (simp_all add: serve_def Let_def)
qed

text \<open>Steps of the manager and of the queue.\<close>

lemma net_inv_queue:
  assumes "net_inv chain_id net" and "links net' = links net" and "peer_counter net' = peer_counter net"
    and "\<And>ev. ev \<in> set (event_queue net') \<Longrightarrow> ev \<in> set (event_queue net) \<or> (\<exists>pid m. ev = SendMessage pid m)"
    and "\<And>x. x \<in> set (peer_map (net_manager net')) \<Longrightarrow>
      x \<in> set (peer_map (net_manager net)) \<or> peer_ok chain_id net x"
    and "\<And>e. e \<in> set (to_processor (net_manager net')) \<Longrightarrow>
      e \<in> set (to_processor (net_manager net)) \<or> raised_ok chain_id net e"
  shows "net_inv chain_id net'"
proof (rule net_inv_more [OF assms(1) _ _ _ assms(5,6)])
  show "told_by chain_id net' pid ev" if "told_by chain_id net pid ev" for pid ev
    using that assms(2) by (simp add: told_by_def)
  show "links_ok chain_id net'" using assms(1-3) by (simp add: net_inv_def links_ok_def)
  show "ev \<in> set (event_queue net) \<or> event_ok chain_id net' ev" if "ev \<in> set (event_queue net')" for ev
    using assms(4) [OF that] by (auto simp: event_ok_def)
qed

lemma net_inv_dispatch:
  assumes "net_inv chain_id net" and "event_queue net = ev # rest"
  shows "net_inv chain_id (net\<lparr>event_queue := rest,
      net_manager := manager_step (env, ManagerEvent (Some ev)) (net_manager net)\<rparr>)"
proof (rule net_inv_queue [OF assms(1)])
  let ?net = "net\<lparr>event_queue := rest, net_manager := manager_step (env, ManagerEvent (Some ev)) (net_manager net)\<rparr>"
  have ev: "event_ok chain_id net ev" using assms by (simp add: net_inv_def)
  show "x \<in> set (peer_map (net_manager net)) \<or> peer_ok chain_id net x"
    if "x \<in> set (peer_map (net_manager ?net))" for x
  proof (cases x)
    case (Pair pid sender)
    with that manager_event_peers [of pid sender env ev "net_manager net"] ev show ?thesis
      by (auto simp: event_ok_def peer_ok_def)
  qed
  show "e \<in> set (to_processor (net_manager net)) \<or> raised_ok chain_id net e"
    if "e \<in> set (to_processor (net_manager ?net))" for e
    using that manager_event_processor [of e env ev "net_manager net"] ev
    by (auto simp: event_ok_def raised_ok_def)
qed (use assms(2) in auto)

lemma net_inv_step: "net_step chain_id net net' \<Longrightarrow> net_inv chain_id net \<Longrightarrow> net_inv chain_id net'"
proof (induction rule: net_step.induct)
  case (net_accept addr net net')
  then show ?case by (rule net_inv_accept [rotated])
next
  case (net_serve net pid link x)
  then show ?case by (cases link) (simp add: net_inv_serve)
next
  case (net_reply net pid m)
  then show ?case by (rule net_inv_queue) auto
next
  case (net_dispatch net ev rest env)
  then show ?case by (intro net_inv_dispatch)
next
  case (net_tick net env)
  then show ?case
    by (rule net_inv_queue) (simp_all add: manager_other_processor, blast dest: manager_other_peers [rotated])
next
  case (net_shutdown net env)
  then show ?case
    by (rule net_inv_queue) (simp_all add: manager_other_processor, blast dest: manager_other_peers [rotated])
qed

lemma net_inv_reachable: "reachable chain_id net \<Longrightarrow> net_inv chain_id net"
  by (induction rule: rtranclp_induct) (simp_all add: net_inv_init net_inv_step)

section \<open>Properties\<close>

text \<open>
  C13. Only peers on the node's chain are heard. In every state the tasks can reach together, every
  block and every query that has been passed to the processor came from a peer whose first message
  was a \<^verbatim>\<open>Status\<close> with the node's chain id, as one of the messages it sent after that; and every peer
  that the manager knows has completed that handshake.
\<close>

theorem network_admission:
  assumes "reachable chain_id net"
  shows "(\<forall>e \<in> set (to_processor (net_manager net)).
      \<exists>pid m ctx ins h td rest. raises m pid e \<and> links net pid = Some (ctx, ins) \<and>
        received ins = Status chain_id h td # rest \<and> m \<in> set rest) \<and>
    (\<forall>(pid, sender) \<in> set (peer_map (net_manager net)).
      \<exists>ctx ins h td rest. links net pid = Some (ctx, ins) \<and> received ins = Status chain_id h td # rest)"
proof -
  have inv: "net_inv chain_id net" using assms by (rule net_inv_reachable)
  have "\<exists>pid m ctx ins h td rest. raises m pid e \<and> links net pid = Some (ctx, ins) \<and>
      received ins = Status chain_id h td # rest \<and> m \<in> set rest"
    if e: "e \<in> set (to_processor (net_manager net))" for e
  proof -
    obtain pid m where m: "raises m pid e" "told_by chain_id net pid (PeerMessage pid m)"
      using inv e by (auto simp: net_inv_def list_all_iff raised_ok_def)
    from told_by_event [OF _ m(2)] obtain ctx ins h td rest where "links net pid = Some (ctx, ins)"
      "received ins = Status chain_id h td # rest" "m \<in> set rest" by auto
    with m(1) show ?thesis by blast
  qed
  moreover have "\<exists>ctx ins h td rest. links net pid = Some (ctx, ins) \<and> received ins = Status chain_id h td # rest"
    if p: "(pid, sender) \<in> set (peer_map (net_manager net))" for pid sender
  proof -
    obtain addr where "told_by chain_id net pid (Connected pid addr sender)"
      using inv p by (auto simp: net_inv_def list_all_iff peer_ok_def)
    with told_by_event [of "Connected pid addr sender" chain_id net pid] show ?thesis by auto
  qed
  ultimately show ?thesis by auto
qed

text \<open>A peer connects, completes the handshake and asks for the head, which reaches the processor.\<close>

definition sample_env :: conn_env where
  "sample_env = \<lparr>wire_ok = True, manager_up = True, env_head = default_chain_head\<rparr>"

definition sample_ctx :: connection_context where
  "sample_ctx = \<lparr>ctx_peer_id = PeerId 1, peer_address = ''a'', expected_chain_id = 5, peer_sender = MsgSender 1\<rparr>"

definition sample_inputs :: "(conn_env \<times> conn_input) list" where
  "sample_inputs = [(sample_env, FromPeer (Some (Ok (Status 5 zero_array 0)))),
     (sample_env, FromPeer (Some (Ok GetChainHead)))]"

definition sample_mgr_env :: mgr_env where
  "sample_mgr_env = \<lparr>sender_open = \<lambda>_. True, processor_up = True\<rparr>"

lemma sample_emitted:
  "emitted (conn_run sample_ctx []) = []"
  "emitted (conn_run sample_ctx [(sample_env, FromPeer (Some (Ok (Status 5 zero_array 0))))]) = session sample_ctx []"
  "emitted (conn_run sample_ctx sample_inputs) = session sample_ctx [GetChainHead]"
  by (simp_all add: conn_run_def conn_init_def conn_step_def on_message_def on_status_def Let_def sample_inputs_def
      framed_send_def event_send_def status_encodes sample_ctx_def sample_env_def session_def)

lemma sample_reachable:
  "reachable 5 \<lparr>peer_counter = 1, links = [PeerId 1 \<mapsto> (sample_ctx, sample_inputs)], event_queue = [],
     net_manager = \<lparr>peer_map = [(PeerId 1, MsgSender 1)], outbox = [],
       to_processor = [NetGetChainHead (PeerId 1)], mgr_running = True\<rparr>\<rparr>"
proof -
  define x0 where "x0 = (sample_env, FromPeer (Some (Ok (Status 5 zero_array 0))))"
  define x1 where "x1 = (sample_env, FromPeer (Some (Ok GetChainHead)))"
  define n1 where "n1 = network_init\<lparr>peer_counter := 1, links := [PeerId 1 \<mapsto> (sample_ctx, [])]\<rparr>"
  define n2 where "n2 = serve (PeerId 1) (sample_ctx, []) x0 n1"
  define n3 where "n3 = serve (PeerId 1) (sample_ctx, [x0]) x1 n2"
  let ?disp = "\<lambda>net. net\<lparr>event_queue := tl (event_queue net), net_manager :=
    manager_step (sample_mgr_env, ManagerEvent (Some (hd (event_queue net)))) (net_manager net)\<rparr>"
  have ins: "sample_inputs = [x0, x1]" by (simp add: sample_inputs_def x0_def x1_def)
  have n3: "n3 = \<lparr>peer_counter = 1, links = [PeerId 1 \<mapsto> (sample_ctx, sample_inputs)],
      event_queue = session sample_ctx [GetChainHead], net_manager = manager_init\<rparr>"
    using sample_emitted by (simp add: n3_def n2_def n1_def serve_def Let_def network_init_def ins x0_def session_def)
  have "net_step 5 network_init n1"
    by (rule net_accept [where addr = "''a''"])
       (simp add: accept_def then_do_def add_or_panic_def checked_add_def network_init_def sample_ctx_def n1_def)
  moreover have "net_step 5 n1 n2" "net_step 5 n2 n3"
    unfolding n3_def n2_def by (rule net_serve, simp add: serve_def Let_def n1_def)+
  moreover have "net_step 5 n3 (?disp n3)" "net_step 5 (?disp n3) (?disp (?disp n3))"
    by (rule net_dispatch_hd, simp add: n3 session_def)+
  ultimately have "reachable 5 (?disp (?disp n3))"
    by (meson converse_rtranclp_into_rtranclp rtranclp.rtrancl_refl)
  then show ?thesis
    by (simp add: n3 session_def manager_step_def on_peer_event_def on_peer_message_def processor_send_def
        sample_mgr_env_def sample_ctx_def manager_init_def)
qed

theorem network_admission_witness:
  "\<exists>m pid rest. raises m pid (NetGetChainHead (PeerId 1)) \<and>
     (\<exists>h td. received sample_inputs = Status 5 h td # rest) \<and> m \<in> set rest"
  using network_admission [OF sample_reachable] by (simp split: if_splits) blast

end
