(* ===== verification/Node.thy ===== *)
theory Node
  imports Builder Network
begin

text \<open>
  The program of the crate \<^verbatim>\<open>node\<close>, file \<^verbatim>\<open>main.rs\<close>: the genesis state it derives from its options, and the
  adapter task between the network and the processor, composed with the processor's loop. Parsing the
  command line and logging are left out; the other tasks, the capacity of the channels and the shutdown are in
  \<open>Tasks\<close>.
\<close>

section \<open>Genesis\<close>

datatype node_error =
    NodeSigning signing_error
  | NodeTrie trie_error
  | NodeRlp rlp_error
  | NodeProcessor processor_error

text \<open>The options that decide the genesis block.\<close>

record cli =
  cli_chain_id :: u64
  genesis_account_count :: u8
  genesis_balance :: u128
  cli_genesis_timestamp :: u64
  dry_run :: bool

definition dummy_tx :: transaction where
  "dummy_tx = Legacy 0 1000000000 21000 None 0 []"

definition derive_address :: "crypto \<Rightarrow> u64 \<Rightarrow> bytes \<Rightarrow> (address, signing_error) outcome" where
  "derive_address c chain_id private_key =
     and_then (sign c dummy_tx private_key chain_id) (\<lambda>signed_transaction.
     recover_sender c signed_transaction chain_id)"

definition derive_account :: "crypto \<Rightarrow> cli \<Rightarrow> u8 \<Rightarrow> (genesis_account, node_error) outcome" where
  "derive_account c opts i =
     and_then (add_or_panic i 1) (\<lambda>b.
     and_then (map_err NodeSigning (derive_address c (cli_chain_id opts) (replicate 32 b))) (\<lambda>a.
     Ok \<lparr>ga_address = a, ga_balance = genesis_balance opts\<rparr>))"

definition derive_accounts :: "crypto \<Rightarrow> cli \<Rightarrow> (genesis_account list, node_error) outcome" where
  "derive_accounts c opts =
     try_collect (derive_account c opts) (map of_nat [0..<unat (genesis_account_count opts)])"

text \<open>The loop that fills the provider and the map of accounts.\<close>

definition funded :: "genesis_account \<Rightarrow> account" where
  "funded ga = default_account\<lparr>acc_balance := ga_balance ga\<rparr>"

definition fund_all ::
  "genesis_account list \<Rightarrow> in_memory_provider \<times> (address, account) hash_map" where
  "fund_all gas = fold (\<lambda>ga (q, m). (set_account (ga_address ga) (funded ga) q, AList.update (ga_address ga) (funded ga) m))
     gas (default_provider, [])"

definition node_start :: "crypto \<Rightarrow> cli \<Rightarrow> (block_processor option, node_error) outcome" where
  "node_start c opts =
     and_then (derive_accounts c opts) (\<lambda>gas.
     let config = \<lparr>gc_chain_id = cli_chain_id opts, gc_accounts = gas, genesis_timestamp = cli_genesis_timestamp opts\<rparr>;
         (q, accts) = fund_all (gc_accounts config)
     in
     and_then (map_err NodeTrie (compute_state_root c q)) (\<lambda>root.
     let hdr = genesis_header_with_state_root config root;
         genesis_block = \<lparr>block_header = hdr, transactions = []\<rparr>
     in
     and_then (map_err NodeRlp (hash_header c hdr)) (\<lambda>genesis_hash.
     if dry_run opts then Ok None
     else
       let chain_head = \<lparr>head_number = 0, head_hash = genesis_hash, head_total_difficulty = 0\<rparr>
       in and_then (map_err NodeProcessor (processor_new c genesis_block accts (gc_chain_id config) chain_head))
         (\<lambda>p. Ok (Some p)))))"

section \<open>The accounts at genesis\<close>

definition genesis_key :: "nat \<Rightarrow> b256" where
  "genesis_key i = byte_array (replicate 32 (of_nat (i + 1)))"

definition genesis_addresses :: "crypto \<Rightarrow> cli \<Rightarrow> address set" where
  "genesis_addresses c opts = (\<lambda>i. address_of_key c (genesis_key i)) ` {0..<unat (genesis_account_count opts)}"

text \<open>
  Signing with the keys of the genesis accounts succeeds for the node's chain id: the scheme accepts the keys, and
  the legacy \<open>v\<close>, which \<^verbatim>\<open>sign\<close> computes from twice the chain id, does not overflow.
\<close>

definition keys_sign :: "crypto \<Rightarrow> cli \<Rightarrow> bool" where
  "keys_sign c opts \<longleftrightarrow>
     (\<forall>i < unat (genesis_account_count opts).
        \<exists>stx. sign c dummy_tx (as_bytes (genesis_key i)) (cli_chain_id opts) = Ok stx)"

lemma derive_account_Ok:
  assumes "crypto_laws c" "parity_only c" "keys_sign c opts" "i < unat (genesis_account_count opts)"
  shows "derive_account c opts (of_nat i) =
    Ok \<lparr>ga_address = address_of_key c (genesis_key i), ga_balance = genesis_balance opts\<rparr>"
proof -
  have i: "i < 255" using assms(4) unsigned_less [of "genesis_account_count opts", where ?'a = nat] by simp
  then have "unat (of_nat i :: u8) + 1 < 256" by (simp add: unat_of_nat)
  then have "(add_or_panic (of_nat i) 1 :: (u8, node_error) outcome) = Ok (of_nat (i + 1))"
    by (simp add: add_or_panic_def checked_add_def)
  moreover obtain stx where stx: "sign c dummy_tx (as_bytes (genesis_key i)) (cli_chain_id opts) = Ok stx"
    using assms(3,4) by (auto simp: keys_sign_def)
  moreover have "as_bytes (genesis_key i) = replicate 32 (of_nat (i + 1))" by (simp add: genesis_key_def)
  ultimately show ?thesis
    using sign_address [OF assms(1) stx] assms(2) by (simp add: derive_account_def derive_address_def)
qed

lemma derive_accounts_Ok:
  assumes "crypto_laws c" "parity_only c" "keys_sign c opts"
  shows "derive_accounts c opts =
    Ok (map (\<lambda>i. \<lparr>ga_address = address_of_key c (genesis_key i), ga_balance = genesis_balance opts\<rparr>)
      [0..<unat (genesis_account_count opts)])"
proof -
  have "try_collect (derive_account c opts) (map of_nat is) =
      Ok (map (\<lambda>i. \<lparr>ga_address = address_of_key c (genesis_key i), ga_balance = genesis_balance opts\<rparr>) is)"
    if "set is \<subseteq> {0..<unat (genesis_account_count opts)}" for "is"
    using that by (induction "is") (auto simp: derive_account_Ok [OF assms])
  then show ?thesis by (simp add: derive_accounts_def)
qed

lemma fund_all_pair:
  "fund_all gas = (fold (\<lambda>ga. set_account (ga_address ga) (funded ga)) gas default_provider,
     fold (\<lambda>ga. AList.update (ga_address ga) (funded ga)) gas [])"
proof -
  have "fold (\<lambda>ga (q, m). (set_account (ga_address ga) (funded ga) q, AList.update (ga_address ga) (funded ga) m)) gas (q, m) =
      (fold (\<lambda>ga. set_account (ga_address ga) (funded ga)) gas q,
       fold (\<lambda>ga. AList.update (ga_address ga) (funded ga)) gas m)" for q m
    by (induction gas arbitrary: q m) simp_all
  then show ?thesis by (simp add: fund_all_def)
qed

lemma fund_provider_ok: "provider_ok (fst (fund_all gas))"
proof -
  have "provider_ok q \<Longrightarrow> provider_ok (fold (\<lambda>ga. set_account (ga_address ga) (funded ga)) gas q)" for q
    by (induction gas arbitrary: q) (simp_all add: provider_ok_set_account)
  then show ?thesis using default_provider_ok by (simp add: fund_all_pair)
qed

lemma fund_accounts:
  assumes "\<forall>ga \<in> set gas. funded ga = acc"
  shows "hm_ok (snd (fund_all gas))"
    and "map_of (snd (fund_all gas)) a = (if a \<in> ga_address ` set gas then Some acc else None)"
proof -
  have "hm_ok m \<Longrightarrow> hm_ok (fold (\<lambda>ga. AList.update (ga_address ga) (funded ga)) gas m)" for m
    by (induction gas arbitrary: m) (simp_all add: hm_ok_update)
  then show "hm_ok (snd (fund_all gas))" by (simp add: fund_all_pair)
  have "map_of (fold (\<lambda>ga. AList.update (ga_address ga) (funded ga)) gas m) a =
      (if a \<in> ga_address ` set gas then Some acc else map_of m a)" for m
    using assms by (induction gas arbitrary: m) (auto simp: update_conv')
  then show "map_of (snd (fund_all gas)) a = (if a \<in> ga_address ` set gas then Some acc else None)"
    by (simp add: fund_all_pair)
qed

text \<open>The processor takes over the accounts it is given, whatever their order.\<close>

lemma set_accounts_total:
  "try_fold (\<lambda>q (a, acc). let q' = set_account a acc q
     in and_then (map_err Hashing (encode (account_to_rlp_item acc))) (\<lambda>_. Ok q')) q accts =
   Ok (fold (\<lambda>(a, acc). set_account a acc) accts q)"
proof (induction accts arbitrary: q)
  case (Cons x accts)
  obtain bs where "encode (account_to_rlp_item (snd x)) = Ok bs" using encode_account by blast
  with Cons show ?case by (cases x) (simp del: encode.simps)
qed simp

lemma accounts_of_fold:
  "hm_ok accts \<Longrightarrow>
     accounts (fold (\<lambda>(a, acc). set_account a acc) accts q) a =
       (case map_of accts a of Some acc \<Rightarrow> Some acc | None \<Rightarrow> accounts q a)"
proof (induction accts arbitrary: q)
  case (Cons x accts)
  then show ?case
    by (cases x) (auto simp: update_conv' split: option.split dest: map_of_SomeD intro!: rev_image_eqI)
qed simp

lemma processor_new_total:
  assumes "transactions g = []" and "hm_ok accts"
  shows "\<exists>p. processor_new c g accts chain_id head = Ok p \<and> accounts (provider p) = map_of accts"
proof -
  obtain q where q: "insert_block c g default_provider = (Ok (), q)"
    using insert_block_total [of g c default_provider] assms(1) by auto
  then have "accounts q = Map.empty"
    by (auto elim!: insert_block_Ok simp: default_provider_def)
  then show ?thesis
    using q accounts_of_fold [OF assms(2), of q]
    by (auto simp: processor_new_def set_accounts_total [unfolded Let_def] Let_def fun_eq_iff split: option.split)
qed

definition genesis_accounts :: "crypto \<Rightarrow> cli \<Rightarrow> genesis_account list" where
  "genesis_accounts c opts =
     map (\<lambda>i. \<lparr>ga_address = address_of_key c (genesis_key i), ga_balance = genesis_balance opts\<rparr>)
       [0..<unat (genesis_account_count opts)]"

definition genesis_block_of :: "crypto \<Rightarrow> cli \<Rightarrow> b256 \<Rightarrow> block" where
  "genesis_block_of c opts state_hash =
     \<lparr>block_header = genesis_header_with_state_root \<lparr>gc_chain_id = cli_chain_id opts, gc_accounts = genesis_accounts c opts,
        genesis_timestamp = cli_genesis_timestamp opts\<rparr> state_hash, transactions = []\<rparr>"

lemma genesis_funds:
  "hm_ok (snd (fund_all (genesis_accounts c opts)))"
  "map_of (snd (fund_all (genesis_accounts c opts))) a = (if a \<in> genesis_addresses c opts
     then Some (default_account\<lparr>acc_balance := genesis_balance opts\<rparr>) else None)"
  using fund_accounts [of "genesis_accounts c opts" "default_account\<lparr>acc_balance := genesis_balance opts\<rparr>"]
  by (auto simp: funded_def genesis_addresses_def genesis_accounts_def image_image)

lemma node_start_new:
  assumes "crypto_laws c" and "parity_only c" and "keys_sign c opts" and "\<not> dry_run opts"
  obtains root h p where
    "compute_state_root c (fst (fund_all (genesis_accounts c opts))) = Ok root"
    "hash_header c (block_header (genesis_block_of c opts root)) = Ok h"
    "processor_new c (genesis_block_of c opts root) (snd (fund_all (genesis_accounts c opts))) (cli_chain_id opts)
       \<lparr>head_number = 0, head_hash = h, head_total_difficulty = 0\<rparr> = Ok p"
    "accounts (provider p) = map_of (snd (fund_all (genesis_accounts c opts)))"
    "node_start c opts = Ok (Some p)"
proof -
  let ?gas = "genesis_accounts c opts"
  obtain q accts where fund: "fund_all ?gas = (q, accts)" by fastforce
  obtain root where root: "compute_state_root c q = Ok root"
    using state_root_ex [OF fund_provider_ok [of ?gas]] fund by auto
  let ?g = "genesis_block_of c opts root"
  obtain h where h: "hash_header c (block_header ?g) = Ok h" by (simp add: hash_header_eq)
  let ?head = "\<lparr>head_number = 0, head_hash = h, head_total_difficulty = 0\<rparr>"
  have "hm_ok accts" using genesis_funds(1) [of c opts] fund by simp
  then obtain p where p: "processor_new c ?g accts (cli_chain_id opts) ?head = Ok p" "accounts (provider p) = map_of accts"
    using processor_new_total [of ?g accts c "cli_chain_id opts" ?head] by (auto simp: genesis_block_of_def)
  have "node_start c opts = Ok (Some p)"
    using derive_accounts_Ok [OF assms(1-3), folded genesis_accounts_def] fund root h p(1) assms(4)
    by (simp add: node_start_def genesis_block_of_def)
  with root h p fund that show ?thesis by simp
qed

lemma node_start_Ok:
  assumes "crypto_laws c" and "parity_only c" and "keys_sign c opts" and "\<not> dry_run opts"
  shows "\<exists>p. node_start c opts = Ok (Some p) \<and> settled c (ledger_of (provider p)) (cli_chain_id opts) p \<and>
    ledger_of (provider p) =
      (\<lambda>a. if a \<in> genesis_addresses c opts then Some (unat (genesis_balance opts), 0) else None)"
  using assms
proof (rule node_start_new)
  fix root h p
  assume h: "hash_header c (block_header (genesis_block_of c opts root)) = Ok h"
    and p: "processor_new c (genesis_block_of c opts root) (snd (fund_all (genesis_accounts c opts))) (cli_chain_id opts)
       \<lparr>head_number = 0, head_hash = h, head_total_difficulty = 0\<rparr> = Ok p"
      "accounts (provider p) = map_of (snd (fund_all (genesis_accounts c opts)))" "node_start c opts = Ok (Some p)"
  have "starts_from c (genesis_block_of c opts root) \<lparr>head_number = 0, head_hash = h, head_total_difficulty = 0\<rparr>"
    using h by (simp add: starts_from_def genesis_block_of_def genesis_header_with_state_root_def genesis_header_def)
  from processor_new_settled [OF p(1) this] have "settled c (ledger_of (provider p)) (cli_chain_id opts) p" .
  moreover have "ledger_of (provider p) =
      (\<lambda>a. if a \<in> genesis_addresses c opts then Some (unat (genesis_balance opts), 0) else None)"
    using p(2) genesis_funds(2) by (auto simp: ledger_of_def default_account_def)
  ultimately show ?thesis using p(3) by blast
qed

section \<open>The adapter and the processor\<close>

text \<open>
  The channels are lists. The adapter handles one network event at a time and, after an account query, waits
  for the processor's answer; \<open>arrived\<close> records every network event so far. When the processor's
  task ends, what is in its channel is dropped, with the answer the adapter waits for.
\<close>

record node =
  node_processor :: block_processor
  node_alive :: bool
  proc_inbox :: "processor_message list"
  net_inbox :: "network_event list"
  arrived :: "network_event list"
  waiting :: "(address \<times> peer_id) option"
  to_manager :: "peer_event list"

definition node_init :: "block_processor \<Rightarrow> node" where
  "node_init p = \<lparr>node_processor = p, node_alive = True, proc_inbox = [], net_inbox = [], arrived = [],
     waiting = None, to_manager = []\<rparr>"

text \<open>A send to the manager is lost if the manager has stopped.\<close>

definition reply :: "bool \<Rightarrow> peer_id \<Rightarrow> message \<Rightarrow> node \<Rightarrow> node" where
  "reply manager_listens peer m s =
     (if manager_listens then s\<lparr>to_manager := to_manager s @ [SendMessage peer m]\<rparr> else s)"

definition send_to_processor :: "processor_message \<Rightarrow> node \<Rightarrow> bool \<times> node" where
  "send_to_processor m s =
     (if node_alive s then (True, s\<lparr>proc_inbox := proc_inbox s @ [m]\<rparr>) else (False, s))"

definition adapt :: "bool \<Rightarrow> network_event \<Rightarrow> node \<Rightarrow> node" where
  "adapt manager_listens ev s =
     (case ev of
        NetNewBlock block peer \<Rightarrow> snd (send_to_processor (ProcNewBlock block peer) s)
      | NetGetAccountState a peer \<Rightarrow>
          let (sent, s1) = send_to_processor (ProcGetAccountState a) s
          in if sent then s1\<lparr>waiting := Some (a, peer)\<rparr> else s1
      | NetGetChainHead peer \<Rightarrow>
          let head = shared_head (node_processor s)
          in reply manager_listens peer
            (ChainHead (head_number head) (head_hash head) (head_total_difficulty head)) s)"

text \<open>The adapter resumes with the processor's answer; errors are only logged.\<close>

definition answered :: "bool \<Rightarrow> (account, processor_error) outcome \<Rightarrow> node \<Rightarrow> node" where
  "answered manager_listens response s =
     (case (waiting s, response) of
        (Some (a, peer), Ok acc) \<Rightarrow>
          reply manager_listens peer (AccountState a (acc_nonce acc) (acc_balance acc)) (s\<lparr>waiting := None\<rparr>)
      | _ \<Rightarrow> s\<lparr>waiting := None\<rparr>)"

text \<open>The processor's task ends, by \<^verbatim>\<open>Shutdown\<close> or by a panic.\<close>

definition halt :: "block_processor \<Rightarrow> node \<Rightarrow> node" where
  "halt p s = s\<lparr>node_processor := p, node_alive := False, proc_inbox := [], waiting := None\<rparr>"

text \<open>
  One message of the processor's loop. The whole drain of the pending blocks that a new block starts is one step: the
  processor handles no other message of its channel meanwhile. Between two blocks it awaits only the lock of the shared
  head, so a connection could read the head of a block in the middle of the drain; that reading is not modelled.
\<close>

definition attend :: "crypto \<Rightarrow> bool \<Rightarrow> processor_message \<Rightarrow> node \<Rightarrow> node" where
  "attend c manager_listens m s =
     (case m of
        ProcNewBlock block peer \<Rightarrow>
          (case handle_new_block c block peer (node_processor s) of
             (Panic, p) \<Rightarrow> halt p s
           | (_, p) \<Rightarrow> s\<lparr>node_processor := p\<rparr>)
      | ProcGetAccountState a \<Rightarrow>
          answered manager_listens (map_err ProcExecution (get_account (provider (node_processor s)) a)) s
      | ProcShutdown \<Rightarrow> halt (snd (stop c (node_processor s))) s)"

inductive node_step :: "crypto \<Rightarrow> node \<Rightarrow> node \<Rightarrow> bool" for c where
  node_arrive: "node_step c s (s\<lparr>net_inbox := net_inbox s @ [ev], arrived := arrived s @ [ev]\<rparr>)"
| node_adapt: "net_inbox s = ev # rest \<Longrightarrow> waiting s = None \<Longrightarrow>
    node_step c s (adapt manager_listens ev (s\<lparr>net_inbox := rest\<rparr>))"
| node_attend: "proc_inbox s = m # rest \<Longrightarrow> node_alive s \<Longrightarrow>
    node_step c s (attend c manager_listens m (s\<lparr>proc_inbox := rest\<rparr>))"
| node_stop: "node_alive s \<Longrightarrow> node_step c s (s\<lparr>proc_inbox := proc_inbox s @ [ProcShutdown]\<rparr>)"

section \<open>Answers\<close>

text \<open>
  An answer is about a prefix of the committed chain: the head is the last block of the prefix, and the
  account is the one of the ledger after it. And somebody asked.
\<close>

definition answer_ok ::
  "crypto \<Rightarrow> u64 \<Rightarrow> ledger \<Rightarrow> block \<Rightarrow> block list \<Rightarrow> network_event list \<Rightarrow> peer_event \<Rightarrow> bool" where
  "answer_ok c chain_id L0 g bs asked ev \<longleftrightarrow>
     (case ev of
        SendMessage peer (ChainHead n h td) \<Rightarrow>
          NetGetChainHead peer \<in> set asked \<and> unat n \<le> length bs \<and>
          hash_header c (block_header ((g # bs) ! unat n)) = Ok h
      | SendMessage peer (AccountState a nonce balance) \<Rightarrow>
          NetGetAccountState a peer \<in> set asked \<and>
          (\<exists>seen L. prefix seen bs \<and> spec_chain c chain_id seen L0 = Some L \<and>
             L a = Some (unat balance, unat nonce))
      | _ \<Rightarrow> False)"

lemma answer_ok_mono:
  assumes "answer_ok c chain_id L0 g bs asked ev" and "prefix bs bs'" and "set asked \<subseteq> set asked'"
  shows "answer_ok c chain_id L0 g bs' asked' ev"
proof -
  obtain new where bs': "bs' = bs @ new" using assms(2) by (auto simp: prefix_def)
  have nth: "(g # bs @ new) ! n = (g # bs) ! n" if "n \<le> length bs" for n
    using that nth_append [of "g # bs" new n] by simp
  show ?thesis
    using assms(1,3) by (auto simp: answer_ok_def bs' nth intro: prefix_prefix split: peer_event.splits message.splits)
qed

section \<open>The invariant\<close>

fun queries :: "processor_message list \<Rightarrow> address list" where
  "queries [] = []"
| "queries (ProcGetAccountState a # ms) = a # queries ms"
| "queries (_ # ms) = queries ms"

lemma queries_append [simp]: "queries (xs @ ys) = queries xs @ queries ys"
  by (induction xs rule: queries.induct) auto

definition node_inv :: "crypto \<Rightarrow> u64 \<Rightarrow> ledger \<Rightarrow> block \<Rightarrow> node \<Rightarrow> bool" where
  "node_inv c chain_id L0 g s \<longleftrightarrow>
     node_alive s \<longrightarrow>
       settled c L0 chain_id (node_processor s) \<and>
       map_of (blocks (provider (node_processor s))) 0 = Some g \<and>
       list_all (answer_ok c chain_id L0 g (chain_of (node_processor s)) (arrived s)) (to_manager s) \<and>
       set (net_inbox s) \<subseteq> set (arrived s) \<and>
       queries (proc_inbox s) = (case waiting s of None \<Rightarrow> [] | Some (a, _) \<Rightarrow> [a]) \<and>
       (\<forall>a peer. waiting s = Some (a, peer) \<longrightarrow> NetGetAccountState a peer \<in> set (arrived s))"

lemma length_chain_of [simp]: "length (chain_of p) = head_at p"
  by (simp add: committed_def)

lemma head_answer:
  assumes "processor_inv c L0 p" and "map_of (blocks (provider p)) 0 = Some g"
  shows "hash_header c (block_header ((g # chain_of p) ! head_at p)) = Ok (head_hash (proc_head p))"
proof -
  have ok: "chain_ok c (provider p) (proc_head p)" using assms(1) by (simp add: processor_inv_def)
  then obtain b where b: "map_of (blocks (provider p)) (head_number (proc_head p)) = Some b"
    by (auto simp: chain_ok_def)
  have "(g # chain_of p) ! head_at p = b"
  proof (cases "head_at p")
    case 0
    then have "head_number (proc_head p) = 0" by (simp add: unat_eq_0)
    with b assms(2) 0 show ?thesis by simp
  next
    case (Suc n)
    have "of_nat (head_at p) = head_number (proc_head p)" by (simp only: of_nat_unat ucast_id)
    then have "of_nat (Suc n) = head_number (proc_head p)" by (simp only: Suc)
    with b Suc show ?thesis by (simp add: committed_def del: of_nat_Suc upt_Suc)
  qed
  with head_block [OF ok b] show ?thesis by simp
qed

lemma account_answer:
  assumes "processor_inv c L0 p" and "get_account (provider p) a = Ok acc"
  shows "\<exists>seen L. prefix seen (chain_of p) \<and> spec_chain c (proc_chain_id p) seen L0 = Some L \<and>
    L a = Some (unat (acc_balance acc), unat (acc_nonce acc))"
proof (intro exI conjI)
  show "prefix (chain_of p) (chain_of p)" by simp
  show "spec_chain c (proc_chain_id p) (chain_of p) L0 = Some (ledger_of (provider p))"
    using assms(1) by (simp add: processor_inv_def)
  show "ledger_of (provider p) a = Some (unat (acc_balance acc), unat (acc_nonce acc))"
    using assms(2) by (simp add: get_account_def ledger_of_def outcome_iffs)
qed

text \<open>Between steps the processor only ever commits more blocks, so answers that were right stay right.\<close>

lemma node_inv_grow:
  assumes "node_inv c chain_id L0 g s" and "node_alive s" and "settled c L0 chain_id p'"
    and "grows (node_processor s) p'"
  shows "node_inv c chain_id L0 g (s\<lparr>node_processor := p'\<rparr>)"
proof -
  have "map_of (blocks (provider (node_processor s))) 0 = Some g" using assms(1,2) by (simp add: node_inv_def)
  then have "map_of (blocks (provider p')) 0 = Some g"
    using assms(4) unfolding grows_def map_le_def by (metis domI)
  moreover have "list_all (answer_ok c chain_id L0 g (chain_of p') (arrived s)) (to_manager s)"
    using assms(1,2,4) answer_ok_mono [of c chain_id L0 g "chain_of (node_processor s)" "arrived s" _ "chain_of p'" "arrived s"]
    by (auto simp: node_inv_def grows_def list_all_iff)
  ultimately show ?thesis using assms(1-3) by (auto simp: node_inv_def)
qed

lemma node_inv_reply:
  assumes "node_inv c chain_id L0 g s"
    and "node_alive s \<Longrightarrow> answer_ok c chain_id L0 g (chain_of (node_processor s)) (arrived s) (SendMessage peer m)"
  shows "node_inv c chain_id L0 g (reply listens peer m s)"
  using assms by (auto simp: reply_def node_inv_def)

lemma node_inv_halt [simp]: "node_inv c chain_id L0 g (halt p s)"
  by (simp add: node_inv_def halt_def)

lemma adapt_inv:
  assumes "node_inv c chain_id L0 g s" and "net_inbox s = ev # rest" and "waiting s = None"
  shows "node_inv c chain_id L0 g (adapt listens ev (s\<lparr>net_inbox := rest\<rparr>))"
proof (cases ev)
  case (NetNewBlock block peer)
  with assms show ?thesis by (auto simp: adapt_def send_to_processor_def node_inv_def)
next
  case (NetGetAccountState a peer)
  with assms show ?thesis by (auto simp: adapt_def send_to_processor_def node_inv_def)
next
  case (NetGetChainHead peer)
  let ?p = "node_processor s" and ?head = "shared_head (node_processor s)"
  have "answer_ok c chain_id L0 g (chain_of ?p) (arrived s)
      (SendMessage peer (ChainHead (head_number ?head) (head_hash ?head) (head_total_difficulty ?head)))"
    if "node_alive s"
  proof -
    have p: "processor_inv c L0 ?p" "map_of (blocks (provider ?p)) 0 = Some g" "shared_head ?p = proc_head ?p"
      using that assms(1) by (auto simp: node_inv_def settled_def processor_inv_def)
    have "NetGetChainHead peer \<in> set (arrived s)"
      using that assms(1,2) NetGetChainHead by (auto simp: node_inv_def)
    with head_answer [OF p(1,2)] p(3) show ?thesis by (simp add: answer_ok_def)
  qed
  moreover have "node_inv c chain_id L0 g (s\<lparr>net_inbox := rest\<rparr>)" using assms(1,2) by (auto simp: node_inv_def)
  ultimately show ?thesis
    using NetGetChainHead by (auto simp: adapt_def Let_def intro!: node_inv_reply)
qed

lemma attend_inv:
  assumes "node_inv c chain_id L0 g s" and "proc_inbox s = m # rest" and "node_alive s"
  shows "node_inv c chain_id L0 g (attend c listens m (s\<lparr>proc_inbox := rest\<rparr>))"
proof (cases m)
  case (ProcNewBlock b peer)
  let ?s = "s\<lparr>proc_inbox := rest\<rparr>"
  have inv: "node_inv c chain_id L0 g ?s" "node_alive ?s" using assms ProcNewBlock by (auto simp: node_inv_def)
  obtain r p' where r: "handle_new_block c b peer (node_processor s) = (r, p')" by fastforce
  have "node_inv c chain_id L0 g (?s\<lparr>node_processor := p'\<rparr>)" if "r \<noteq> Panic"
  proof -
    have "settled c L0 chain_id (node_processor s)" using assms(1,3) by (simp add: node_inv_def)
    from handle_new_block_settles [OF r that this] node_inv_grow [OF inv, of p'] show ?thesis by simp
  qed
  then show ?thesis using r ProcNewBlock by (cases r) (simp_all add: attend_def)
next
  case (ProcGetAccountState a)
  let ?p = "node_processor s"
  obtain peer where w: "waiting s = Some (a, peer)" "queries rest = []" "NetGetAccountState a peer \<in> set (arrived s)"
    using assms ProcGetAccountState by (auto simp: node_inv_def split: option.splits)
  let ?s = "s\<lparr>proc_inbox := rest, waiting := None\<rparr>"
  have inv: "node_inv c chain_id L0 g ?s" using assms w by (auto simp: node_inv_def)
  show ?thesis
  proof (cases "get_account (provider ?p) a")
    case (Ok acc)
    have "answer_ok c chain_id L0 g (chain_of ?p) (arrived s)
        (SendMessage peer (AccountState a (acc_nonce acc) (acc_balance acc)))"
      using account_answer [OF _ Ok, of c L0] assms(1,3) w(3) by (auto simp: answer_ok_def node_inv_def settled_def)
    then show ?thesis
      using inv ProcGetAccountState Ok w(1) by (auto simp: attend_def answered_def intro!: node_inv_reply)
  qed (use inv ProcGetAccountState w(1) in \<open>simp_all add: attend_def answered_def\<close>)
next
  case ProcShutdown
  then show ?thesis by (simp add: attend_def)
qed

lemma node_step_inv: "node_step c s s' \<Longrightarrow> node_inv c chain_id L0 g s \<Longrightarrow> node_inv c chain_id L0 g s'"
proof (induction rule: node_step.induct)
  case (node_arrive s ev)
  have "answer_ok c chain_id L0 g bs (arrived s @ [ev]) m" if "answer_ok c chain_id L0 g bs (arrived s) m" for bs m
    using answer_ok_mono [OF that, of bs "arrived s @ [ev]"] by auto
  with node_arrive show ?case by (auto simp: node_inv_def list_all_iff split: option.splits)
next
  case (node_adapt s ev rest listens)
  then show ?case by (intro adapt_inv)
next
  case (node_attend s m rest listens)
  then show ?case by (intro attend_inv)
next
  case (node_stop s)
  then show ?case by (auto simp: node_inv_def)
qed

lemma node_reachable_inv:
  assumes "(node_step c)\<^sup>*\<^sup>* s s'" and "node_inv c chain_id L0 g s"
  shows "node_inv c chain_id L0 g s'"
  using assms by (induction rule: rtranclp_induct) (auto intro: node_step_inv)

lemma node_start_settled:
  assumes "node_start c opts = Ok (Some p)"
  shows "settled c (ledger_of (provider p)) (cli_chain_id opts) p"
    and "\<exists>g. map_of (blocks (provider p)) 0 = Some g"
proof -
  from assms obtain g accts head where p: "processor_new c g accts (cli_chain_id opts) head = Ok p"
    and "starts_from c g head"
    by (auto simp: node_start_def outcome_iffs Let_def starts_from_def genesis_header_with_state_root_def
        genesis_header_def case_prod_unfold split: if_splits)
  from processor_new_settled [OF this] show st: "settled c (ledger_of (provider p)) (cli_chain_id opts) p" .
  have "proc_head p = head" using p by (auto simp: processor_new_def outcome_iffs split: prod.splits outcome.splits)
  with st \<open>starts_from c g head\<close> show "\<exists>g. map_of (blocks (provider p)) 0 = Some g"
    by (auto simp: settled_def processor_inv_def chain_ok_def starts_from_def)
qed

lemma node_init_inv:
  assumes "settled c L0 chain_id p" and "map_of (blocks (provider p)) 0 = Some g"
  shows "node_inv c chain_id L0 g (node_init p)"
  using assms by (simp add: node_inv_def node_init_def)

section \<open>A sample run\<close>

definition sample_cli :: cli where
  "sample_cli = \<lparr>cli_chain_id = 1, genesis_account_count = 1, genesis_balance = 1000, cli_genesis_timestamp = 0,
     dry_run = False\<rparr>"

lemma sample_keys_sign: "keys_sign sample_crypto sample_cli"
proof -
  have "genesis_key 0 \<noteq> zero_array" by (simp add: genesis_key_def zero_array_def byte_array_eq_iff)
  then have "\<exists>stx. sign sample_crypto dummy_tx (as_bytes (genesis_key 0)) 1 = Ok stx"
    by (simp add: sign_def dummy_tx_def signing_payload_eq [OF transfer_signing_len] try_from_def sample_crypto_def
        keccak256_def slice_defs signature_v_def checked_mul_def add_or_panic_def
        checked_add_def del: rlp_bytes.simps)
  then show ?thesis by (simp add: keys_sign_def sample_cli_def)
qed

text \<open>A peer asks for the head.\<close>

definition sample_asked :: "block_processor \<Rightarrow> node" where
  "sample_asked p = (node_init p)\<lparr>arrived := [NetGetChainHead (PeerId 1)],
     to_manager := [SendMessage (PeerId 1) (ChainHead (head_number (shared_head p)) (head_hash (shared_head p))
       (head_total_difficulty (shared_head p)))]\<rparr>"

lemma sample_asked_reachable: "(node_step c)\<^sup>*\<^sup>* (node_init p) (sample_asked p)"
proof -
  let ?ev = "NetGetChainHead (PeerId 1)"
  let ?s = "(node_init p)\<lparr>net_inbox := [?ev], arrived := [?ev]\<rparr>"
  have "node_step c (node_init p) ?s"
    using node_arrive [of c "node_init p" ?ev] by (simp add: node_init_def)
  moreover have "node_step c ?s (adapt True ?ev (?s\<lparr>net_inbox := []\<rparr>))"
    by (rule node_adapt) (simp_all add: node_init_def)
  moreover have "adapt True ?ev (?s\<lparr>net_inbox := []\<rparr>) = sample_asked p"
    by (simp add: adapt_def reply_def sample_asked_def node_init_def Let_def)
  ultimately show ?thesis by (metis converse_rtranclp_into_rtranclp rtranclp.rtrancl_refl)
qed

section \<open>Properties\<close>

text \<open>
  C24. The node starts: if signing with the keys of the genesis accounts succeeds for the configured chain id (the
  scheme accepts them and the chain id is small enough for the legacy \<open>v\<close>), \<^verbatim>\<open>main\<close> builds a processor at block zero, with exactly the derived addresses funded, each with the configured balance and
  nonce zero, and with the invariants that the processor's correctness rests on.
\<close>

theorem node_starts:
  assumes "crypto_laws c" and "parity_only c" and "keys_sign c opts" and "\<not> dry_run opts"
  shows "\<exists>p. node_start c opts = Ok (Some p) \<and> settled c (ledger_of (provider p)) (cli_chain_id opts) p \<and>
    ledger_of (provider p) =
      (\<lambda>a. if a \<in> genesis_addresses c opts then Some (unat (genesis_balance opts), 0) else None)"
  using assms by (rule node_start_Ok)

theorem node_starts_witness:
  "\<exists>p. node_start sample_crypto sample_cli = Ok (Some p) \<and>
     ledger_of (provider p) (address_of_key sample_crypto (genesis_key 0)) = Some (1000, 0)"
proof -
  have "\<not> dry_run sample_cli" by (simp add: sample_cli_def)
  from node_starts [OF sample_crypto_laws sample_parity sample_keys_sign this]
  show ?thesis by (auto simp: genesis_addresses_def sample_cli_def)
qed

text \<open>
  C6. Peers are told the truth, only when they asked: as long as the processor runs, every chain head the node ever
  sent is the hash of a block of its present chain, and every account state it ever sent is the one the
  ledger specification gives after some prefix of that chain, whatever the interleaving of network
  events, blocks and queries.
\<close>

theorem node_answers:
  assumes "node_start c opts = Ok (Some p)" and "(node_step c)\<^sup>*\<^sup>* (node_init p) s" and "node_alive s"
  shows "\<exists>g. map_of (blocks (provider p)) 0 = Some g \<and>
    list_all (answer_ok c (cli_chain_id opts) (ledger_of (provider p)) g (chain_of (node_processor s)) (arrived s))
      (to_manager s)"
proof -
  obtain g where g: "map_of (blocks (provider p)) 0 = Some g" using node_start_settled(2) [OF assms(1)] by blast
  from node_reachable_inv [OF assms(2) node_init_inv [OF node_start_settled(1) [OF assms(1)] g]] assms(3) g
  show ?thesis by (auto simp: node_inv_def)
qed

theorem node_answers_witness:
  "\<exists>p g. node_start sample_crypto sample_cli = Ok (Some p) \<and>
     answer_ok sample_crypto 1 (ledger_of (provider p)) g (chain_of p) [NetGetChainHead (PeerId 1)]
       (SendMessage (PeerId 1) (ChainHead (head_number (shared_head p)) (head_hash (shared_head p))
         (head_total_difficulty (shared_head p))))"
proof -
  have "\<not> dry_run sample_cli" by (simp add: sample_cli_def)
  then obtain p where p: "node_start sample_crypto sample_cli = Ok (Some p)"
    using node_start_Ok [OF sample_crypto_laws sample_parity sample_keys_sign] by blast
  have "node_alive (sample_asked p)" by (simp add: sample_asked_def node_init_def)
  from node_answers [OF p sample_asked_reachable this] p show ?thesis
    by (auto simp: sample_asked_def node_init_def sample_cli_def)
qed

end
