(* ===== verification/Client.thy ===== *)
theory Client
  imports Node
begin

text \<open>
  The program \<^verbatim>\<open>node/src/bin/test-client.rs\<close>: it rebuilds the genesis block, shakes hands, resumes from the
  node's head, and for every block queries the senders, builds, sends and polls until the nonces have
  moved. The connection (a framed \<^verbatim>\<open>TcpStream\<close>) and the clock are third-party: the model takes them as a
  record of operations. Logging and the command line are left out.
\<close>

section \<open>The connection\<close>

text \<open>What \<^verbatim>\<open>timeout(.., framed.next())\<close> yields: an item of the stream, its end, or nothing in time.\<close>

datatype reception =
    Received "(message, network_error) outcome"
  | Ended
  | NoAnswer

text \<open>
  \<open>link_sleep\<close> is \<^verbatim>\<open>sleep\<close> for a number of milliseconds, during which the other side goes on; \<open>patience\<close> is the
  number of polls that the deadline of the next wait leaves time for.
\<close>

record 'l link_ops =
  link_send :: "message \<Rightarrow> (unit, network_error, 'l) action"
  link_next :: "'l \<Rightarrow> reception \<times> 'l"
  link_sleep :: "nat \<Rightarrow> 'l \<Rightarrow> 'l"
  patience :: "'l \<Rightarrow> nat"

datatype io_kind = UnexpectedEof | TimedOut | InvalidData | InvalidInput

datatype client_error =
    ClientIo io_kind string
  | ClientNetwork network_error
  | ClientBuilder builder_error
  | ClientSigning signing_error
  | ClientTrie trie_error
  | ClientRlp rlp_error

text \<open>An error of a callee, boxed.\<close>

definition boxed :: "('e \<Rightarrow> client_error) \<Rightarrow> ('a, 'e, 's) action \<Rightarrow> ('a, client_error, 's) action" where
  "boxed f m s = (let (r, s') = m s in (map_err f r, s'))"

definition client_send :: "'l link_ops \<Rightarrow> message \<Rightarrow> (unit, client_error, 'l) action" where
  "client_send ops m = boxed ClientNetwork (link_send ops m)"

section \<open>Queries\<close>

definition await_response :: "'l link_ops \<Rightarrow> string \<Rightarrow> (message, client_error, 'l) action" where
  "await_response ops what l =
     (case link_next ops l of
        (Received m, l') \<Rightarrow> (map_err ClientNetwork m, l')
      | (Ended, l') \<Rightarrow>
          (Err (ClientIo UnexpectedEof (''node disconnected before '' @ what @ '' response'')), l')
      | (NoAnswer, l') \<Rightarrow>
          (Err (ClientIo TimedOut (''timed out waiting for '' @ what @ '' response'')), l'))"

definition query_account_state :: "'l link_ops \<Rightarrow> address \<Rightarrow> (account_snapshot, client_error, 'l) action" where
  "query_account_state ops a =
     then_do (client_send ops (GetAccountState a)) (\<lambda>_.
     then_do (await_response ops ''account-state'') (\<lambda>response.
     case response of
       AccountState response_address nonce balance \<Rightarrow>
         if response_address \<noteq> a
         then pure (Err (ClientIo InvalidData ''account-state response address mismatch''))
         else pure (Ok \<lparr>snap_address = a, snap_nonce = nonce, snap_balance = balance\<rparr>)
     | _ \<Rightarrow> pure (Err (ClientIo InvalidData ''unexpected account-state response''))))"

definition query_chain_head :: "'l link_ops \<Rightarrow> (u64 \<times> b256 \<times> u128, client_error, 'l) action" where
  "query_chain_head ops =
     then_do (client_send ops GetChainHead) (\<lambda>_.
     then_do (await_response ops ''chain-head'') (\<lambda>response.
     case response of
       ChainHead num hash td \<Rightarrow> pure (Ok (num, hash, td))
     | _ \<Rightarrow> pure (Err (ClientIo InvalidData ''unexpected chain-head response''))))"

text \<open>One round over the senders: have all nonces moved?\<close>

definition check_nonces :: "'l link_ops \<Rightarrow> (address \<times> u64) list \<Rightarrow> (bool, client_error, 'l) action" where
  "check_nonces ops = for_each (\<lambda>all_processed (a, expected_nonce).
     then_do (query_account_state ops a) (\<lambda>snapshot.
     pure (Ok (if snap_nonce snapshot < expected_nonce then False else all_processed)))) True"

primrec wait_loop :: "'l link_ops \<Rightarrow> (address \<times> u64) list \<Rightarrow> nat \<Rightarrow> (unit, client_error, 'l) action" where
  "wait_loop ops expected 0 =
     then_do (check_nonces ops expected) (\<lambda>all_processed.
     pure (if all_processed then Ok ()
       else Err (ClientIo TimedOut ''timed out waiting for block processing confirmation'')))"
| "wait_loop ops expected (Suc polls) =
     then_do (check_nonces ops expected) (\<lambda>all_processed.
     if all_processed then pure (Ok ())
     else then_do (mutate (link_sleep ops 50)) (\<lambda>_. wait_loop ops expected polls))"

definition wait_for_sender_nonces :: "'l link_ops \<Rightarrow> (address \<times> u64) list \<Rightarrow> (unit, client_error, 'l) action" where
  "wait_for_sender_nonces ops expected l = wait_loop ops expected (patience ops l) l"

section \<open>Setting up\<close>

record client_cli =
  client_chain_id :: u64
  client_genesis_timestamp :: u64
  block_count :: u64
  transactions_per_block :: u8
  client_account_count :: u8
  client_genesis_balance :: u128
  out_of_order :: bool

definition client_account :: "crypto \<Rightarrow> client_cli \<Rightarrow> u8 \<Rightarrow> (b256 \<times> genesis_account, client_error) outcome" where
  "client_account c opts i =
     and_then (add_or_panic i 1) (\<lambda>b.
     and_then (map_err ClientSigning (derive_address c (client_chain_id opts) (replicate 32 b))) (\<lambda>a.
     Ok (byte_array (replicate 32 b), \<lparr>ga_address = a, ga_balance = client_genesis_balance opts\<rparr>)))"

definition client_genesis ::
  "crypto \<Rightarrow> client_cli \<Rightarrow> (block_builder \<times> address list, client_error) outcome" where
  "client_genesis c opts =
     and_then (try_collect (client_account c opts) (map of_nat [0..<unat (client_account_count opts)])) (\<lambda>derived.
     let config = \<lparr>gc_chain_id = client_chain_id opts, gc_accounts = map snd derived,
           genesis_timestamp = client_genesis_timestamp opts\<rparr>;
         q = fst (fund_all (gc_accounts config))
     in
     and_then (map_err ClientTrie (compute_state_root c q)) (\<lambda>root.
     let hdr = genesis_header_with_state_root config root in
     and_then (map_err ClientRlp (hash_header c hdr)) (\<lambda>genesis_hash.
     and_then (map_err ClientBuilder (builder_new (client_chain_id opts) genesis_hash
         (client_genesis_timestamp opts) (gas_limit hdr) (map fst derived))) (\<lambda>B.
     Ok (B, map ga_address (gc_accounts config))))))"

text \<open>The client's handshake; anything but a matching \<^verbatim>\<open>Status\<close> ends the program quietly.\<close>

definition client_handshake :: "'l link_ops \<Rightarrow> client_cli \<Rightarrow> b256 \<Rightarrow> (bool, client_error, 'l) action" where
  "client_handshake ops opts hash =
     then_do (client_send ops (Status (client_chain_id opts) hash 0)) (\<lambda>_ l.
     case link_next ops l of
       (Received m, l') \<Rightarrow>
         then_do (pure (map_err ClientNetwork m)) (\<lambda>response.
         case response of
           Status chain_id _ _ \<Rightarrow> pure (Ok (chain_id = client_chain_id opts))
         | _ \<Rightarrow> pure (Ok False)) l'
     | (_, l') \<Rightarrow> (Ok False, l'))"

section \<open>The loop over the blocks\<close>

record 'l client =
  client_link :: 'l
  client_builder :: block_builder

definition on_link :: "('a, client_error, 'l) action \<Rightarrow> ('a, client_error, 'l client) action" where
  "on_link m s = (let (r, l) = m (client_link s) in (r, s\<lparr>client_link := l\<rparr>))"

definition on_builder :: "('a, builder_error, block_builder) action \<Rightarrow> ('a, client_error, 'l client) action" where
  "on_builder m s = (let (r, B) = m (client_builder s) in (map_err ClientBuilder r, s\<lparr>client_builder := B\<rparr>))"

record plan =
  plan_specs :: "transaction_spec list"
  plan_snapshots :: "(address, account_snapshot) hash_map"
  plan_nonces :: "(address \<times> u64) list"

definition plan_transaction ::
  "'l link_ops \<Rightarrow> address list \<Rightarrow> u64 \<Rightarrow> plan \<Rightarrow> u8 \<Rightarrow> (plan, client_error, 'l client) action" where
  "plan_transaction ops addrs block_index pl tx_index =
     then_do (pure (add_or_panic block_index (ucast tx_index))) (\<lambda>i.
     let account_count = length addrs;
         sender_index = unat i mod account_count;
         recipient_index = (sender_index + 1) mod account_count
     in
     then_do (pure (index addrs sender_index)) (\<lambda>sender.
     then_do (pure (index addrs recipient_index)) (\<lambda>recipient.
     then_do (on_link (query_account_state ops sender)) (\<lambda>snapshot.
     then_do (pure (ok_or (ClientIo InvalidData ''sender nonce overflow'')
       (checked_add (snap_nonce snapshot) 1))) (\<lambda>expected_nonce.
     pure (Ok \<lparr>plan_specs = plan_specs pl @ [\<lparr>sender_index = sender_index, recipient = recipient,
         spec_value = 1000000000000000000, spec_gas_limit = 21000\<rparr>],
       plan_snapshots = AList.update sender snapshot (plan_snapshots pl),
       plan_nonces = plan_nonces pl @ [(sender, expected_nonce)]\<rparr>))))))"

definition send_block ::
  "crypto \<Rightarrow> 'l link_ops \<Rightarrow> client_cli \<Rightarrow> address list \<Rightarrow> u64 \<Rightarrow> (unit, client_error, 'l client) action" where
  "send_block c ops opts addrs block_index =
     then_do (for_each (plan_transaction ops addrs block_index)
       \<lparr>plan_specs = [], plan_snapshots = [], plan_nonces = []\<rparr>
       (map of_nat [0..<unat (transactions_per_block opts)])) (\<lambda>pl.
     then_do (on_builder (generate_block c \<lparr>spec_transactions = plan_specs pl\<rparr> (plan_snapshots pl))) (\<lambda>b.
     then_do (pure (map_err ClientRlp (hash_header c (block_header b)))) (\<lambda>_.
     then_do (on_link (client_send ops (NewBlock b (ucast (gas_used (block_header b)))))) (\<lambda>_.
     then_do (on_link (wait_for_sender_nonces ops (plan_nonces pl))) (\<lambda>_.
     on_link (mutate (link_sleep ops 100)))))))"

definition send_blocks ::
  "crypto \<Rightarrow> 'l link_ops \<Rightarrow> client_cli \<Rightarrow> address list \<Rightarrow> (unit, client_error, 'l client) action" where
  "send_blocks c ops opts addrs =
     for_each (\<lambda>_. send_block c ops opts addrs) () (map of_nat [0..<unat (block_count opts)])"

text \<open>After the handshake: resume from the node's head, check the options, send the blocks, say goodbye.\<close>

definition client_work ::
  "crypto \<Rightarrow> 'l link_ops \<Rightarrow> client_cli \<Rightarrow> address list \<Rightarrow> (unit, client_error, 'l client) action" where
  "client_work c ops opts addrs =
     then_do (on_link (query_chain_head ops)) (\<lambda>(num, hash, td).
     then_do (on_builder (set_current_head num hash)) (\<lambda>_.
     if client_account_count opts = 0
     then pure (Err (ClientIo InvalidInput ''genesis_account_count must be greater than zero''))
     else if transactions_per_block opts > client_account_count opts
     then pure (Err (ClientIo InvalidInput ''transactions_per_block cannot exceed genesis_account_count''))
     else
       then_do (send_blocks c ops opts addrs) (\<lambda>_.
       then_do (on_link (mutate (link_sleep ops 500))) (\<lambda>_.
       on_link (client_send ops (Disconnect (string_lit ''all blocks sent'')))))))"

definition client_main ::
  "crypto \<Rightarrow> 'l link_ops \<Rightarrow> client_cli \<Rightarrow> (unit, client_error, 'l) action" where
  "client_main c ops opts l =
     (case client_genesis c opts of
        Err e \<Rightarrow> (Err e, l)
      | Panic \<Rightarrow> (Panic, l)
      | Ok (B, addrs) \<Rightarrow>
          if out_of_order opts
          then (Err (ClientIo InvalidInput (''out-of-order mode requires local execution or state prediction '' @
            ''and is disabled with node-backed nonce queries'')), l)
          else
            then_do (client_handshake ops opts (snd (builder_head B))) (\<lambda>go l'.
            if go
            then let (r, s) = client_work c ops opts addrs \<lparr>client_link = l', client_builder = B\<rparr>
                 in (r, client_link s)
            else (Ok (), l')) l)"

section \<open>The small client (networking/src/client.rs)\<close>

text \<open>A failed \<^verbatim>\<open>send\<close> is only reported.\<close>

definition send_or_report :: "(unit, 'e, 's) action \<Rightarrow> (unit, 'e, 's) action" where
  "send_or_report m s = (case m s of (Panic, s') \<Rightarrow> (Panic, s') | (_, s') \<Rightarrow> (Ok (), s'))"

text \<open>\<open>next\<close> is \<^verbatim>\<open>framed.next().await\<close>, an item of the stream or its end.\<close>

definition connect ::
  "(message \<Rightarrow> (unit, network_error, 'l) action) \<Rightarrow> ('l \<Rightarrow> (message, network_error) outcome option \<times> 'l) \<Rightarrow>
     (unit, network_error, 'l) action" where
  "connect send next =
     then_do (send_or_report (send Ping)) (\<lambda>_ l.
     case next l of
       (None, l') \<Rightarrow> (Err PeerDisconnected, l')
     | (Some (Err e), l') \<Rightarrow> (Err e, l')
     | (Some Panic, l') \<Rightarrow> (Panic, l')
     | (Some (Ok _), l') \<Rightarrow>
         then_do (send_or_report (send (Status 1 (byte_array (replicate 32 0x11)) 12345678))) (\<lambda>_.
         then_do (send_or_report (send (Transactions
           [Legacy 0 1000000000 21000 (Some (byte_array (replicate 20 0x22))) 1000 [0xde, 0xad, 0xbe, 0xef]]))) (\<lambda>_.
         then_do (send_or_report (send (GetBlockHeaders (byte_array (replicate 32 0x33)) 64))) (\<lambda>_.
         send_or_report (send Pong)))) l')"

end
