(* ===== verification/Whole_System.thy ===== *)
theory Whole_System
  imports Client
begin

text \<open>
  All parts together: the test client talks to a node made of one connection task, the manager, the adapter
  and the processor, scheduled promptly (every message is handled as soon as it arrives). The schedule is
  one of those the step relations of the parts allow. Messages take no time; time passes, in milliseconds, while
  the client sleeps or waits for an answer, and the manager's interval timer goes off when its turn comes.
\<close>

section \<open>The parts connected\<close>

record system =
  sys_conn :: conn
  sys_manager :: manager
  sys_node :: node
  sys_read :: nat
  sys_timer :: nat

text \<open>
  \<open>sys_read\<close> counts the messages that the client has read from the connection, \<open>sys_timer\<close> the milliseconds to the
  next tick of the manager's interval.
\<close>

definition sys_context :: "u64 \<Rightarrow> connection_context" where
  "sys_context chain_id = \<lparr>ctx_peer_id = PeerId 1, peer_address = ''client'', expected_chain_id = chain_id,
     peer_sender = MsgSender 1\<rparr>"

definition sys_conn_env :: "system \<Rightarrow> conn_env" where
  "sys_conn_env s = \<lparr>wire_ok = True, manager_up = True, env_head = shared_head (node_processor (sys_node s))\<rparr>"

definition sys_mgr_env :: mgr_env where
  "sys_mgr_env = \<lparr>sender_open = (\<lambda>_. True), processor_up = True\<rparr>"

text \<open>What a step added to a log.\<close>

definition news :: "'a list \<Rightarrow> 'a list \<Rightarrow> 'a list" where
  "news old new = drop (length old) new"

text \<open>A message for the peer goes through the connection task.\<close>

definition to_peer :: "u64 \<Rightarrow> msg_sender \<times> message \<Rightarrow> system \<Rightarrow> system" where
  "to_peer chain_id = (\<lambda>(sender, m) s.
     if sender = MsgSender 1
     then s\<lparr>sys_conn := conn_step (sys_context chain_id) (sys_conn_env s, Outbound (Some m)) (sys_conn s)\<rparr>
     else s)"

text \<open>An event for the manager that raises nothing for the processor.\<close>

definition route_reply :: "u64 \<Rightarrow> peer_event \<Rightarrow> system \<Rightarrow> system" where
  "route_reply chain_id ev s =
     (let mgr = sys_manager s; mgr' = manager_step (sys_mgr_env, ManagerEvent (Some ev)) mgr
      in fold (to_peer chain_id) (news (outbox mgr) (outbox mgr')) (s\<lparr>sys_manager := mgr'\<rparr>))"

text \<open>The adapter takes the event; if that left a message for the processor, the processor takes it.\<close>

definition node_handle :: "crypto \<Rightarrow> network_event \<Rightarrow> node \<Rightarrow> node" where
  "node_handle c ev n =
     (let n1 = adapt True ev (n\<lparr>arrived := arrived n @ [ev]\<rparr>)
      in case proc_inbox n1 of
           [] \<Rightarrow> n1
         | m # rest \<Rightarrow> attend c True m (n1\<lparr>proc_inbox := rest\<rparr>))"

definition node_event :: "crypto \<Rightarrow> u64 \<Rightarrow> network_event \<Rightarrow> system \<Rightarrow> system" where
  "node_event c chain_id ev s =
     (let n = sys_node s; n' = node_handle c ev n
      in fold (route_reply chain_id) (news (to_manager n) (to_manager n')) (s\<lparr>sys_node := n'\<rparr>))"

definition manager_event :: "crypto \<Rightarrow> u64 \<Rightarrow> peer_event \<Rightarrow> system \<Rightarrow> system" where
  "manager_event c chain_id ev s =
     (let mgr = sys_manager s; mgr' = manager_step (sys_mgr_env, ManagerEvent (Some ev)) mgr
      in fold (node_event c chain_id) (news (to_processor mgr) (to_processor mgr'))
           (fold (to_peer chain_id) (news (outbox mgr) (outbox mgr')) (s\<lparr>sys_manager := mgr'\<rparr>)))"

definition from_peer :: "crypto \<Rightarrow> u64 \<Rightarrow> message \<Rightarrow> system \<Rightarrow> system" where
  "from_peer c chain_id m s =
     (let k = sys_conn s;
          k' = conn_step (sys_context chain_id) (sys_conn_env s, FromPeer (Some (Ok m))) k
      in fold (manager_event c chain_id) (news (emitted k) (emitted k')) (s\<lparr>sys_conn := k'\<rparr>))"

section \<open>Time\<close>

text \<open>\<^verbatim>\<open>interval(Duration::from_secs(10))\<close>, in milliseconds.\<close>

definition TICK_MS :: nat where
  "TICK_MS = 10000"

text \<open>The manager's timer fires.\<close>

definition ping_tick :: "u64 \<Rightarrow> system \<Rightarrow> system" where
  "ping_tick chain_id s =
     (let mgr = sys_manager s; mgr' = manager_step (sys_mgr_env, Tick) mgr
      in fold (to_peer chain_id) (news (outbox mgr) (outbox mgr')) (s\<lparr>sys_manager := mgr'\<rparr>))"

text \<open>One millisecond passes; \<^verbatim>\<open>sleep\<close> lets a number of them pass.\<close>

definition elapse :: "u64 \<Rightarrow> system \<Rightarrow> system" where
  "elapse chain_id s =
     (if sys_timer s \<le> 1 then (ping_tick chain_id s)\<lparr>sys_timer := TICK_MS\<rparr>
      else s\<lparr>sys_timer := sys_timer s - 1\<rparr>)"

primrec pass :: "u64 \<Rightarrow> nat \<Rightarrow> system \<Rightarrow> system" where
  "pass chain_id 0 s = s"
| "pass chain_id (Suc d) s = pass chain_id d (elapse chain_id s)"

text \<open>What the stream holds now, and \<^verbatim>\<open>timeout\<close> of a wait on it.\<close>

definition look :: "system \<Rightarrow> reception \<times> system" where
  "look s =
     (if sys_read s < length (wire (sys_conn s))
      then (Received (Ok (wire (sys_conn s) ! sys_read s)), s\<lparr>sys_read := sys_read s + 1\<rparr>)
      else if conn_status (sys_conn s) = Running then (NoAnswer, s) else (Ended, s))"

primrec poll :: "u64 \<Rightarrow> nat \<Rightarrow> system \<Rightarrow> reception \<times> system" where
  "poll chain_id 0 s = look s"
| "poll chain_id (Suc d) s =
     (case look s of (NoAnswer, s') \<Rightarrow> poll chain_id d (elapse chain_id s') | found \<Rightarrow> found)"

text \<open>The client's end of the connection: it sends what encodes, and waits five seconds for what the task wrote.\<close>

definition system_ops :: "crypto \<Rightarrow> u64 \<Rightarrow> nat \<Rightarrow> system link_ops" where
  "system_ops c chain_id polls = \<lparr>
     link_send = (\<lambda>m s. case fst (codec_encode m []) of Ok _ \<Rightarrow> (Ok (), from_peer c chain_id m s) | r \<Rightarrow> (r, s)),
     link_next = poll chain_id 5000,
     link_sleep = pass chain_id,
     patience = (\<lambda>_. polls)\<rparr>"

definition system_init :: "nat \<Rightarrow> block_processor \<Rightarrow> system" where
  "system_init t p =
     \<lparr>sys_conn = conn_init, sys_manager = manager_init, sys_node = node_init p, sys_read = 0, sys_timer = t\<rparr>"

lemma poll_unread [simp]:
  "sys_read s < length (wire (sys_conn s)) \<Longrightarrow>
     poll chain_id d s = (Received (Ok (wire (sys_conn s) ! sys_read s)), s\<lparr>sys_read := sys_read s + 1\<rparr>)"
  by (cases d) (simp_all add: look_def)

lemma news_append [simp]: "news xs (xs @ ys) = ys" "news xs xs = []" "news (xs @ [x]) (xs @ x # ys) = ys"
  by (simp_all add: news_def)

section \<open>An established connection\<close>

definition connected :: "system \<Rightarrow> bool" where
  "connected s \<longleftrightarrow>
     conn_status (sys_conn s) = Running \<and> phase (sys_conn s) = Established \<and>
     mgr_running (sys_manager s) \<and> peer_map (sys_manager s) = [(PeerId 1, MsgSender 1)] \<and>
     node_alive (sys_node s) \<and> proc_inbox (sys_node s) = [] \<and> waiting (sys_node s) = None"

text \<open>The client has read everything, or the next thing it will read is a ping.\<close>

definition ready :: "system \<Rightarrow> bool" where
  "ready s \<longleftrightarrow> connected s \<and> sys_read s = length (wire (sys_conn s))"

definition ready_at :: "nat \<Rightarrow> system \<Rightarrow> bool" where
  "ready_at t s \<longleftrightarrow> ready s \<and> sys_timer s = t"

definition pinged :: "system \<Rightarrow> bool" where
  "pinged s \<longleftrightarrow> connected s \<and> sys_read s < length (wire (sys_conn s)) \<and> wire (sys_conn s) ! sys_read s = Ping"

lemmas ready_defs = ready_at_def ready_def connected_def

lemmas part_defs = from_peer_def manager_event_def node_event_def node_handle_def route_reply_def to_peer_def
  conn_step_def on_message_def on_outbound_def framed_send_def event_send_def manager_step_def on_peer_event_def
  on_peer_message_def send_to_peer_def mgr_send_def processor_send_def adapt_def attend_def answered_def reply_def
  send_to_processor_def sys_context_def sys_conn_env_def sys_mgr_env_def

section \<open>The messages fit their frames\<close>

lemma encoded_len_List_9:
  assumes "sum_list (map encoded_len items) \<le> n" and "n < 2 ^ 64"
  shows "encoded_len (List items) \<le> n + 9"
  using encoded_len_List_le [OF assms(1)] length_prefix_len_le [OF assms(2)] by simp

lemma encodes:
  assumes "message_payload m = List items" and "sum_list (map encoded_len items) \<le> n" and "n \<le> 10000000"
  shows "fst (codec_encode m []) = Ok ()"
proof -
  have "encoded_len (message_payload m) \<le> n + 9"
    unfolding assms(1) by (rule encoded_len_List_9 [OF assms(2)]) (use assms(3) in simp)
  then show ?thesis
    using codec_encode_eq [of m "[]"] assms(3) by (simp add: fits_frame_def MAX_FRAME_SIZE_def)
qed

lemma string_lit_len: "length (string_bytes (string_lit t)) \<le> length t"
  by (simp add: string_lit_def from_utf8_def unwrap_or_def Abs_rust_string_inverse ascii_def)

lemma short_messages_encode:
  "fst (codec_encode (GetAccountState a) []) = Ok ()" "fst (codec_encode GetChainHead []) = Ok ()"
  "fst (codec_encode (AccountState a nonce balance) []) = Ok ()" "fst (codec_encode (Status i h td) []) = Ok ()"
  "fst (codec_encode (ChainHead num h td) []) = Ok ()"
  using address_len [of a] u64_len [of nonce] u128_len [of balance] u64_len [of i] b256_len [of h] u128_len [of td]
    u64_len [of num]
  by (auto intro!: encodes [of _ _ 156] simp: message_payload_def message_to_rlp_item_def)

lemma goodbye_encodes:
  assumes "length t \<le> 1000"
  shows "fst (codec_encode (Disconnect (string_lit t)) []) = Ok ()"
proof (rule encodes)
  show "message_payload (Disconnect (string_lit t)) = List [Bytes (string_bytes (string_lit t))]"
    by (simp add: message_payload_def message_to_rlp_item_def)
  have "length (string_bytes (string_lit t)) \<le> 1000" using string_lit_len [of t] assms by simp
  then show "sum_list (map encoded_len [Bytes (string_bytes (string_lit t))]) \<le> 1009"
    using length_prefix_len_le [of "length (string_bytes (string_lit t))"] by (simp add: Let_def)
qed simp

lemma transfer_item_len:
  "encoded_len (signed_transaction_to_rlp_item
     \<lparr>transaction = Legacy nonce price gas to v [], sig_v = sv, sig_r = r, sig_s = ss\<rparr>) \<le> 200"
proof -
  have "sum_list (map encoded_len [u64_to_rlp_item 0, u64_to_rlp_item nonce, u64_to_rlp_item gas, to_to_rlp_item to,
      u128_to_rlp_item v, vec_to_rlp_item [], u128_to_rlp_item price]) \<le> 100"
    using u64_len [of 0] u64_len [of nonce] u64_len [of gas] to_len [of to] u128_len [of v] u128_len [of price]
    by (simp add: vec_to_rlp_item_def length_prefix_len_def)
  from encoded_len_List_9 [OF this]
  have "encoded_len (transaction_to_rlp_item (Legacy nonce price gas to v [])) \<le> 109"
    by (simp add: transaction_to_rlp_item_def del: encoded_len.simps)
  then have "sum_list (map encoded_len [transaction_to_rlp_item (Legacy nonce price gas to v []),
      u64_to_rlp_item sv, b256_to_rlp_item r, b256_to_rlp_item ss]) \<le> 191"
    using u64_len [of sv] b256_len [of r] b256_len [of ss] by simp
  from encoded_len_List_9 [OF this] show ?thesis
    by (simp add: signed_transaction_to_rlp_item_def del: encoded_len.simps)
qed

lemma block_encodes:
  assumes "length (transactions b) \<le> 300"
    and "\<forall>stx \<in> set (transactions b). encoded_len (signed_transaction_to_rlp_item stx) \<le> 200"
  shows "fst (codec_encode (NewBlock b td) []) = Ok ()"
proof (rule encodes)
  show "message_payload (NewBlock b td) = List [block_to_rlp_item b, u128_to_rlp_item td]"
    by (simp add: message_payload_def message_to_rlp_item_def)
  have "sum_list (map encoded_len (map signed_transaction_to_rlp_item (transactions b))) \<le>
      sum_list (map (\<lambda>_. 200) (transactions b))"
    unfolding map_map using assms(2) by (intro sum_list_mono) simp
  also have "\<dots> \<le> 60000" using assms(1) by (simp add: sum_list_triv)
  finally have "encoded_len (List (map signed_transaction_to_rlp_item (transactions b))) \<le> 60009"
    by (intro order_trans [OF encoded_len_List_9]) simp_all
  then have "sum_list (map encoded_len [header_to_rlp_item (block_header b),
      List (map signed_transaction_to_rlp_item (transactions b))]) \<le> 60167"
    using header_len [of "block_header b"] by (simp del: encoded_len.simps)
  from encoded_len_List_9 [OF this] have "encoded_len (block_to_rlp_item b) \<le> 60176"
    by (simp add: block_to_rlp_item_def del: encoded_len.simps)
  then show "sum_list (map encoded_len [block_to_rlp_item b, u128_to_rlp_item td]) \<le> 61000"
    using u128_len [of td] by simp
qed simp

section \<open>What the client observes\<close>

definition proc_of :: "system \<Rightarrow> block_processor" where
  "proc_of s = node_processor (sys_node s)"

lemma query_answered:
  assumes "ready_at t s" and "get_account (provider (proc_of s)) a = Ok acc"
  shows "\<exists>s'. query_account_state (system_ops c chain_id polls) a s =
      (Ok \<lparr>snap_address = a, snap_nonce = acc_nonce acc, snap_balance = acc_balance acc\<rparr>, s') \<and>
    ready_at t s' \<and> proc_of s' = proc_of s"
  using assms
  by (simp add: ready_defs part_defs Let_def query_account_state_def client_send_def boxed_def await_response_def
      system_ops_def then_do_def short_messages_encode proc_of_def)

lemma head_answered:
  assumes "ready_at t s"
  shows "\<exists>s'. query_chain_head (system_ops c chain_id polls) s =
      (Ok (head_number (shared_head (proc_of s)), head_hash (shared_head (proc_of s)),
        head_total_difficulty (shared_head (proc_of s))), s') \<and>
    ready_at t s' \<and> proc_of s' = proc_of s"
  using assms
  by (simp add: ready_defs part_defs Let_def query_chain_head_def client_send_def boxed_def await_response_def
      system_ops_def then_do_def short_messages_encode proc_of_def)

lemma block_delivered:
  assumes "connected s" and "handle_new_block c b (PeerId 1) (proc_of s) = (r, p')" and "r \<noteq> Panic"
    and "fst (codec_encode (NewBlock b td) []) = Ok ()"
  shows "\<exists>s'. client_send (system_ops c chain_id polls) (NewBlock b td) s = (Ok (), s') \<and>
    connected s' \<and> (ready_at t s \<longrightarrow> ready_at t s') \<and> proc_of s' = p'"
  using assms
  by (cases r) (simp_all add: ready_defs part_defs Let_def client_send_def boxed_def system_ops_def proc_of_def)

lemma news_all [simp]: "news [] xs = xs"
  by (simp add: news_def)

lemma handshake_done_ready:
  assumes "client_chain_id opts = chain_id"
  shows "\<exists>s'. client_handshake (system_ops c chain_id polls) opts hash (system_init t p) = (Ok True, s') \<and>
    ready_at t s' \<and> proc_of s' = p"
  using assms
  by (simp add: ready_defs part_defs Let_def client_send_def boxed_def system_ops_def proc_of_def system_init_def
      client_handshake_def then_do_def conn_init_def on_status_def short_messages_encode manager_init_def node_init_def)

lemma ping_encodes: "fst (codec_encode Ping []) = Ok ()"
  by (intro encodes [of _ "[]" 0]) (simp_all add: message_payload_def message_to_rlp_item_def)

text \<open>Time: until the timer goes off nothing happens, and from then on there is a ping to read.\<close>

lemma ping_ticked:
  "connected s \<Longrightarrow> connected (ping_tick chain_id s) \<and> proc_of (ping_tick chain_id s) = proc_of s"
  "ready s \<Longrightarrow> pinged (ping_tick chain_id s)" "pinged s \<Longrightarrow> pinged (ping_tick chain_id s)"
  by (simp_all add: pinged_def ready_def connected_def ping_tick_def part_defs broadcast_def Let_def ping_encodes proc_of_def
      nth_append)

lemma set_timer [simp]:
  "connected (s\<lparr>sys_timer := t\<rparr>) = connected s" "ready (s\<lparr>sys_timer := t\<rparr>) = ready s"
  "pinged (s\<lparr>sys_timer := t\<rparr>) = pinged s" "proc_of (s\<lparr>sys_timer := t\<rparr>) = proc_of s"
  by (simp_all add: pinged_def ready_def connected_def proc_of_def)

lemma elapsed:
  "connected s \<Longrightarrow> connected (elapse chain_id s) \<and> proc_of (elapse chain_id s) = proc_of s"
  "pinged s \<Longrightarrow> pinged (elapse chain_id s)"
  "ready_at (Suc 0) s \<Longrightarrow> pinged (elapse chain_id s)"
  "ready_at (Suc (Suc t)) s \<Longrightarrow> ready_at (Suc t) (elapse chain_id s)"
  by (simp_all add: elapse_def ping_ticked ready_at_def)

lemma passed:
  "connected s \<Longrightarrow> connected (pass chain_id d s) \<and> proc_of (pass chain_id d s) = proc_of s"
  "pinged s \<Longrightarrow> pinged (pass chain_id d s)"
  by (induction d arbitrary: s) (simp_all add: elapsed)

lemma passed_ready:
  "ready_at t s \<Longrightarrow> 0 < t \<Longrightarrow>
     if d < t then ready_at (t - d) (pass chain_id d s) else pinged (pass chain_id d s)"
proof (induction d arbitrary: s t)
  case (Suc d)
  show ?case
  proof (cases "t = 1")
    case True
    with Suc.prems show ?thesis by (simp add: elapsed passed)
  next
    case False
    with Suc.prems obtain t' where t: "t = Suc (Suc t')" by (cases t; cases "t - 1") auto
    with Suc.IH [of "Suc t'" "elapse chain_id s"] Suc.prems elapsed(4) [of t' s chain_id] show ?thesis by simp
  qed
qed simp

lemma ping_read:
  assumes "pinged s"
  shows "\<exists>s'. query_account_state (system_ops c chain_id polls) a s =
      (Err (ClientIo InvalidData ''unexpected account-state response''), s') \<and> proc_of s' = proc_of s"
  using assms
  by (cases "get_account (provider (proc_of s)) a")
     (simp_all add: pinged_def connected_def part_defs Let_def query_account_state_def client_send_def boxed_def
      await_response_def system_ops_def then_do_def short_messages_encode nth_append proc_of_def)

section \<open>The small client is turned away\<close>

text \<open>
  The stream as \<^verbatim>\<open>networking/src/client.rs\<close> reads it, without a deadline: \<open>later\<close> is whatever a wait on a silent
  but open connection would bring.
\<close>

definition stream_next ::
  "(message, network_error) outcome option \<Rightarrow> system \<Rightarrow> (message, network_error) outcome option \<times> system" where
  "stream_next later s =
     (if sys_read s < length (wire (sys_conn s))
      then (Some (Ok (wire (sys_conn s) ! sys_read s)), s\<lparr>sys_read := sys_read s + 1\<rparr>)
      else if conn_status (sys_conn s) = Running then (later, s) else (None, s))"

text \<open>
  C29. The client of the networking crate cannot talk to a node of the same code base: it opens with \<^verbatim>\<open>Ping\<close>,
  the connection task admits nothing but \<^verbatim>\<open>Status\<close> as the first message, and \<^verbatim>\<open>connect\<close> returns
  \<^verbatim>\<open>PeerDisconnected\<close> against every node, which has registered no peer and is unchanged.
\<close>

theorem connect_refused:
  "\<exists>s. connect (link_send (system_ops c chain_id polls)) (stream_next later) (system_init t p) = (Err PeerDisconnected, s) \<and>
     proc_of s = p \<and> peer_map (sys_manager s) = []"
  by (simp add: connect_def then_do_def send_or_report_def system_ops_def ping_encodes stream_next_def system_init_def
      part_defs leave_def remove_peer_def Let_def conn_init_def manager_init_def node_init_def proc_of_def)

section \<open>A ping disturbs the test client\<close>

text \<open>
  C30. The test client has no place for the pings that the manager sends to its peers: if the timer fires on
  an established connection, the client's next account query fails, whatever the account.
\<close>

theorem ping_breaks_query:
  assumes "ready s"
  shows "fst (query_account_state (system_ops c chain_id polls) a (ping_tick chain_id s)) =
    Err (ClientIo InvalidData ''unexpected account-state response'')"
  using ping_read [OF ping_ticked(2) [OF assms, of chain_id], of c chain_id polls a] by auto

definition sample_client :: client_cli where
  "sample_client = \<lparr>client_chain_id = 1, client_genesis_timestamp = 0, block_count = 1, transactions_per_block = 1,
     client_account_count = 1, client_genesis_balance = 1000000000000000, out_of_order = False\<rparr>"

theorem ping_breaks_query_witness:
  "\<exists>p s. sample_node = Ok p \<and>
     client_handshake (system_ops sample_crypto 1 5) sample_client (sample_hash sample_genesis) (system_init 1 p) = (Ok True, s) \<and>
     fst (query_account_state (system_ops sample_crypto 1 5) zero_array (ping_tick 1 s)) =
       Err (ClientIo InvalidData ''unexpected account-state response'')"
proof -
  obtain p where p: "sample_node = Ok p" by (rule sample_node_Ok)
  have "client_chain_id sample_client = 1" by (simp add: sample_client_def)
  from handshake_done_ready [OF this] obtain s where
    s: "client_handshake (system_ops sample_crypto 1 5) sample_client (sample_hash sample_genesis) (system_init 1 p) = (Ok True, s)"
    "ready_at 1 s" by blast
  from s(2) have "ready s" by (simp add: ready_at_def)
  from ping_breaks_query [OF this] p s(1) show ?thesis by blast
qed

end
