(* ===== verification/Tasks.thy ===== *)
theory Tasks
  imports Whole_System
begin

text \<open>
  The tasks that \<^verbatim>\<open>node/src/main.rs\<close> spawns, joined by the bounded channels it creates, and its shutdown. A send to
  a channel of \<^verbatim>\<open>tokio\<close> waits while the channel is full and fails once the receiver is dropped, so an
  iteration of a task is no longer one step: the sends of the iteration are taken from the step functions of
  the parts and made one by one. Every step carries a label that says which peer, if any, acts in it. The
  lemmas are the invariant of the states and the simulation of these tasks by the node with unbounded channels.
  Not modelled: a listener that cannot bind its socket, and a counter of peers that overflows.
\<close>

section \<open>The tasks and their channels\<close>

definition PROCESSOR_CAPACITY :: nat where
  "PROCESSOR_CAPACITY = 256"

definition EVENT_CAPACITY :: nat where
  "EVENT_CAPACITY = 256"

definition NETWORK_CAPACITY :: nat where
  "NETWORK_CAPACITY = 256"

definition PEER_CAPACITY :: nat where
  "PEER_CAPACITY = 32"

lemmas capacities = PROCESSOR_CAPACITY_def EVENT_CAPACITY_def NETWORK_CAPACITY_def PEER_CAPACITY_def

text \<open>
  A connection task: the state of its loop, the channel from the manager, and the message and the event of the
  current iteration that the socket and the event channel have not taken yet.
\<close>

record task_link =
  lk_ctx :: connection_context
  lk_conn :: conn
  lk_inbox :: "message list"
  lk_writing :: "message list"
  lk_telling :: "peer_event list"

datatype mgr_output = ToPeer msg_sender message | ToProcessor network_event

text \<open>The adapter waits for an event, has taken one, or waits for room for its reply.\<close>

datatype adapter = AdapterIdle | AdapterHolds network_event | AdapterReplies peer_event

text \<open>What \<^verbatim>\<open>main\<close> waits for, in this order, until it returns.\<close>

datatype main_phase = AwaitsSignal | JoinsListener | JoinsManager | SendsShutdown | JoinsProcessor | Returned

record flow =
  fl_links :: "u64 \<rightharpoonup> task_link"
  fl_counter :: u64
  fl_listening :: bool
  fl_events :: "peer_event list"
  fl_manager :: manager
  fl_sending :: "mgr_output list"
  fl_adapter :: adapter
  fl_node :: node
  fl_main :: main_phase

definition flow_init :: "block_processor \<Rightarrow> flow" where
  "flow_init p = \<lparr>fl_links = Map.empty, fl_counter = 0, fl_listening = True, fl_events = [], fl_manager = manager_init,
     fl_sending = [], fl_adapter = AdapterIdle, fl_node = node_init p, fl_main = AwaitsSignal\<rparr>"

definition new_link :: "u64 \<Rightarrow> socket_addr \<Rightarrow> u64 \<Rightarrow> task_link" where
  "new_link chain_id addr n =
     \<lparr>lk_ctx = \<lparr>ctx_peer_id = PeerId n, peer_address = addr, expected_chain_id = chain_id, peer_sender = MsgSender n\<rparr>,
      lk_conn = conn_init, lk_inbox = [], lk_writing = [], lk_telling = []\<rparr>"

text \<open>The task is at its \<^verbatim>\<open>select!\<close>, or \<^verbatim>\<open>handle_connection\<close> has returned or unwound.\<close>

definition at_select :: "task_link \<Rightarrow> bool" where
  "at_select lk \<longleftrightarrow> conn_status (lk_conn lk) = Running \<and> lk_writing lk = [] \<and> lk_telling lk = []"

definition ended :: "task_link \<Rightarrow> bool" where
  "ended lk \<longleftrightarrow> conn_status (lk_conn lk) \<noteq> Running \<and> lk_writing lk = [] \<and> lk_telling lk = []"

text \<open>The manager keeps its receiver until the sends of its last iteration are made.\<close>

definition mgr_listens :: "flow \<Rightarrow> bool" where
  "mgr_listens s \<longleftrightarrow> mgr_running (fl_manager s) \<or> fl_sending s \<noteq> []"

definition flow_env :: "bool \<Rightarrow> flow \<Rightarrow> conn_env" where
  "flow_env socket_ok s = \<lparr>wire_ok = socket_ok, manager_up = mgr_listens s,
     env_head = shared_head (node_processor (fl_node s))\<rparr>"

definition take_input :: "conn_env \<Rightarrow> conn_input \<Rightarrow> task_link \<Rightarrow> task_link" where
  "take_input env x lk =
     (let k = lk_conn lk; k' = conn_step (lk_ctx lk) (env, x) k
      in lk\<lparr>lk_conn := k', lk_writing := news (wire k) (wire k'), lk_telling := news (emitted k) (emitted k')\<rparr>)"

definition set_link :: "u64 \<Rightarrow> task_link \<Rightarrow> flow \<Rightarrow> flow" where
  "set_link n lk s = s\<lparr>fl_links := (fl_links s)(n \<mapsto> lk)\<rparr>"

text \<open>One iteration of the manager: the sends that it makes if no receiver is gone are put up to be made.\<close>

definition mgr_outputs :: "manager \<Rightarrow> manager \<Rightarrow> mgr_output list" where
  "mgr_outputs mgr mgr' =
     map (\<lambda>(sender, m). ToPeer sender m) (news (outbox mgr) (outbox mgr')) @
     map ToProcessor (news (to_processor mgr) (to_processor mgr'))"

definition manage_input :: "mgr_input \<Rightarrow> flow \<Rightarrow> flow" where
  "manage_input inp s =
     (let mgr' = manager_step (sys_mgr_env, inp) (fl_manager s)
      in s\<lparr>fl_manager := mgr', fl_sending := mgr_outputs (fl_manager s) mgr'\<rparr>)"

text \<open>What the adapter does after a step of the node: its reply, if there is one, waits to be sent.\<close>

definition replying :: "node \<Rightarrow> node \<Rightarrow> adapter" where
  "replying old new =
     (case news (to_manager old) (to_manager new) of [] \<Rightarrow> AdapterIdle | ev # _ \<Rightarrow> AdapterReplies ev)"

text \<open>Handling the event needs room in the processor's channel, unless its receiver is gone.\<close>

definition adapter_can :: "network_event \<Rightarrow> node \<Rightarrow> bool" where
  "adapter_can ev n \<longleftrightarrow>
     (case ev of NetGetChainHead _ \<Rightarrow> True | _ \<Rightarrow> node_alive n \<longrightarrow> length (proc_inbox n) < PROCESSOR_CAPACITY)"

section \<open>The steps\<close>

text \<open>
  A peer acts when it connects, sends, closes or breaks its connection (\<open>PeerActs\<close>), and when it reads, so
  that its socket takes what was written (\<open>PeerReads\<close>). The kernel's send buffer is part of that label: a socket
  with room takes a message in a \<open>PeerReads\<close> step too. The operator interrupts the program.
\<close>

datatype flow_label = PeerActs u64 | PeerReads u64 | Interrupt | Inside

inductive flow_step :: "crypto \<Rightarrow> u64 \<Rightarrow> flow_label \<Rightarrow> flow \<Rightarrow> flow \<Rightarrow> bool" for c chain_id where
  flow_accept: "fl_listening s \<Longrightarrow> checked_add (fl_counter s) 1 = Some n \<Longrightarrow>
    flow_step c chain_id (PeerActs n) s (set_link n (new_link chain_id addr n) (s\<lparr>fl_counter := n\<rparr>))"
| flow_hear: "fl_links s n = Some lk \<Longrightarrow> at_select lk \<Longrightarrow>
    flow_step c chain_id (PeerActs n) s (set_link n (take_input (flow_env socket_ok s) (FromPeer item) lk) s)"
| flow_outbound: "fl_links s n = Some lk \<Longrightarrow> at_select lk \<Longrightarrow> lk_inbox lk = m # rest \<Longrightarrow>
    flow_step c chain_id Inside s
      (set_link n (take_input (flow_env True s) (Outbound (Some m)) (lk\<lparr>lk_inbox := rest\<rparr>)) s)"
| flow_broken: "fl_links s n = Some lk \<Longrightarrow> at_select lk \<Longrightarrow> lk_inbox lk = m # rest \<Longrightarrow>
    flow_step c chain_id (PeerActs n) s
      (set_link n (take_input (flow_env False s) (Outbound (Some m)) (lk\<lparr>lk_inbox := rest\<rparr>)) s)"
| flow_written: "fl_links s n = Some lk \<Longrightarrow> lk_writing lk = m # rest \<Longrightarrow>
    flow_step c chain_id (PeerReads n) s (set_link n (lk\<lparr>lk_writing := rest\<rparr>) s)"
| flow_write_fails: "fl_links s n = Some lk \<Longrightarrow> lk_writing lk \<noteq> [] \<Longrightarrow>
    flow_step c chain_id (PeerActs n) s
      (set_link n (lk\<lparr>lk_writing := [], lk_telling := [Disconnected (ctx_peer_id (lk_ctx lk))],
         lk_conn := (lk_conn lk)\<lparr>conn_status := Stopped\<rparr>\<rparr>) s)"
| flow_tell: "fl_links s n = Some lk \<Longrightarrow> lk_writing lk = [] \<Longrightarrow> lk_telling lk = ev # rest \<Longrightarrow>
    mgr_listens s \<Longrightarrow> length (fl_events s) < EVENT_CAPACITY \<Longrightarrow>
    flow_step c chain_id Inside s (set_link n (lk\<lparr>lk_telling := rest\<rparr>) (s\<lparr>fl_events := fl_events s @ [ev]\<rparr>))"
| flow_untold: "fl_links s n = Some lk \<Longrightarrow> lk_writing lk = [] \<Longrightarrow> lk_telling lk \<noteq> [] \<Longrightarrow> \<not> mgr_listens s \<Longrightarrow>
    flow_step c chain_id Inside s
      (set_link n (lk\<lparr>lk_telling := [], lk_conn := (lk_conn lk)\<lparr>conn_status := Stopped\<rparr>\<rparr>) s)"
| flow_manage: "mgr_running (fl_manager s) \<Longrightarrow> fl_sending s = [] \<Longrightarrow> fl_events s = ev # rest \<Longrightarrow>
    flow_step c chain_id Inside s (manage_input (ManagerEvent (Some ev)) (s\<lparr>fl_events := rest\<rparr>))"
| flow_tick: "mgr_running (fl_manager s) \<Longrightarrow> fl_sending s = [] \<Longrightarrow>
    flow_step c chain_id Inside s (manage_input Tick s)"
| flow_mgr_shutdown: "mgr_running (fl_manager s) \<Longrightarrow> fl_sending s = [] \<Longrightarrow> fl_main s \<noteq> AwaitsSignal \<Longrightarrow>
    flow_step c chain_id Inside s (manage_input ShutdownSignal s)"
| flow_send_peer: "fl_sending s = ToPeer (MsgSender n) m # rest \<Longrightarrow> fl_links s n = Some lk \<Longrightarrow> \<not> ended lk \<Longrightarrow>
    length (lk_inbox lk) < PEER_CAPACITY \<Longrightarrow>
    flow_step c chain_id Inside s (set_link n (lk\<lparr>lk_inbox := lk_inbox lk @ [m]\<rparr>) (s\<lparr>fl_sending := rest\<rparr>))"
| flow_peer_gone: "fl_sending s = ToPeer (MsgSender n) m # rest \<Longrightarrow> fl_links s n = Some lk \<Longrightarrow> ended lk \<Longrightarrow>
    flow_step c chain_id Inside s (s\<lparr>fl_sending := rest, fl_manager := remove_peer (PeerId n) (fl_manager s)\<rparr>)"
| flow_send_network: "fl_sending s = ToProcessor ev # rest \<Longrightarrow> length (net_inbox (fl_node s)) < NETWORK_CAPACITY \<Longrightarrow>
    flow_step c chain_id Inside s (s\<lparr>fl_sending := rest, fl_node := (fl_node s)
      \<lparr>net_inbox := net_inbox (fl_node s) @ [ev], arrived := arrived (fl_node s) @ [ev]\<rparr>\<rparr>)"
| flow_adapter_takes: "fl_adapter s = AdapterIdle \<Longrightarrow> waiting (fl_node s) = None \<Longrightarrow> net_inbox (fl_node s) = ev # rest \<Longrightarrow>
    flow_step c chain_id Inside s (s\<lparr>fl_adapter := AdapterHolds ev, fl_node := (fl_node s)\<lparr>net_inbox := rest\<rparr>\<rparr>)"
| flow_adapter_acts: "fl_adapter s = AdapterHolds ev \<Longrightarrow> waiting (fl_node s) = None \<Longrightarrow> adapter_can ev (fl_node s) \<Longrightarrow>
    node' = adapt True ev (fl_node s) \<Longrightarrow>
    flow_step c chain_id Inside s (s\<lparr>fl_adapter := replying (fl_node s) node', fl_node := node'\<rparr>)"
| flow_adapter_replies: "fl_adapter s = AdapterReplies ev \<Longrightarrow> mgr_listens s \<Longrightarrow> length (fl_events s) < EVENT_CAPACITY \<Longrightarrow>
    flow_step c chain_id Inside s (s\<lparr>fl_adapter := AdapterIdle, fl_events := fl_events s @ [ev]\<rparr>)"
| flow_reply_lost: "fl_adapter s = AdapterReplies ev \<Longrightarrow> \<not> mgr_listens s \<Longrightarrow>
    flow_step c chain_id Inside s (s\<lparr>fl_adapter := AdapterIdle\<rparr>)"
| flow_attend: "node_alive (fl_node s) \<Longrightarrow> proc_inbox (fl_node s) = m # rest \<Longrightarrow>
    node' = attend c True m ((fl_node s)\<lparr>proc_inbox := rest\<rparr>) \<Longrightarrow>
    flow_step c chain_id Inside s (s\<lparr>fl_node := node',
      fl_adapter := if waiting (fl_node s) = waiting node' then fl_adapter s else replying (fl_node s) node'\<rparr>)"
| flow_interrupt: "fl_main s = AwaitsSignal \<Longrightarrow> flow_step c chain_id Interrupt s (s\<lparr>fl_main := JoinsListener\<rparr>)"
| flow_close_listener: "fl_main s \<noteq> AwaitsSignal \<Longrightarrow> flow_step c chain_id Inside s (s\<lparr>fl_listening := False\<rparr>)"
| flow_join_listener: "fl_main s = JoinsListener \<Longrightarrow> \<not> fl_listening s \<Longrightarrow> \<forall>n lk. fl_links s n = Some lk \<longrightarrow> ended lk \<Longrightarrow>
    flow_step c chain_id Inside s (s\<lparr>fl_main := JoinsManager\<rparr>)"
| flow_join_manager: "fl_main s = JoinsManager \<Longrightarrow> \<not> mgr_listens s \<Longrightarrow>
    flow_step c chain_id Inside s (s\<lparr>fl_main := SendsShutdown\<rparr>)"
| flow_stop: "fl_main s = SendsShutdown \<Longrightarrow> node_alive (fl_node s) \<Longrightarrow>
    length (proc_inbox (fl_node s)) < PROCESSOR_CAPACITY \<Longrightarrow>
    flow_step c chain_id Inside s (s\<lparr>fl_main := JoinsProcessor,
      fl_node := (fl_node s)\<lparr>proc_inbox := proc_inbox (fl_node s) @ [ProcShutdown]\<rparr>\<rparr>)"
| flow_stopped_before: "fl_main s = SendsShutdown \<Longrightarrow> \<not> node_alive (fl_node s) \<Longrightarrow>
    flow_step c chain_id Inside s (s\<lparr>fl_main := JoinsProcessor\<rparr>)"
| flow_return: "fl_main s = JoinsProcessor \<Longrightarrow> \<not> node_alive (fl_node s) \<Longrightarrow>
    flow_step c chain_id Inside s (s\<lparr>fl_main := Returned\<rparr>)"

text \<open>A step with a label of the given set.\<close>

definition flow_by :: "crypto \<Rightarrow> u64 \<Rightarrow> flow_label set \<Rightarrow> flow \<Rightarrow> flow \<Rightarrow> bool" where
  "flow_by c chain_id labels s s' \<longleftrightarrow> (\<exists>label \<in> labels. flow_step c chain_id label s s')"

abbreviation flow_reachable :: "crypto \<Rightarrow> u64 \<Rightarrow> block_processor \<Rightarrow> flow \<Rightarrow> bool" where
  "flow_reachable c chain_id p s \<equiv> (flow_by c chain_id UNIV)\<^sup>*\<^sup>* (flow_init p) s"

section \<open>The tasks refine the node\<close>

text \<open>The node of the unbounded model: an event that the adapter has taken is still in its channel.\<close>

fun held :: "adapter \<Rightarrow> network_event list" where
  "held (AdapterHolds ev) = [ev]"
| "held _ = []"

definition node_of :: "flow \<Rightarrow> node" where
  "node_of s = (fl_node s)\<lparr>net_inbox := held (fl_adapter s) @ net_inbox (fl_node s)\<rparr>"

lemma take_input_simps [simp]:
  "lk_ctx (take_input env x lk) = lk_ctx lk" "lk_inbox (take_input env x lk) = lk_inbox lk"
  by (simp_all add: take_input_def Let_def)

lemma set_link_simps [simp]:
  "fl_links (set_link n lk s) = (fl_links s)(n \<mapsto> lk)" "fl_counter (set_link n lk s) = fl_counter s"
  "fl_listening (set_link n lk s) = fl_listening s" "fl_events (set_link n lk s) = fl_events s"
  "fl_manager (set_link n lk s) = fl_manager s" "fl_sending (set_link n lk s) = fl_sending s"
  "fl_adapter (set_link n lk s) = fl_adapter s" "fl_node (set_link n lk s) = fl_node s"
  "fl_main (set_link n lk s) = fl_main s"
  by (simp_all add: set_link_def)

lemma manage_input_simps [simp]:
  "fl_links (manage_input inp s) = fl_links s" "fl_counter (manage_input inp s) = fl_counter s"
  "fl_listening (manage_input inp s) = fl_listening s" "fl_events (manage_input inp s) = fl_events s"
  "fl_adapter (manage_input inp s) = fl_adapter s" "fl_node (manage_input inp s) = fl_node s"
  "fl_main (manage_input inp s) = fl_main s"
  "fl_manager (manage_input inp s) = manager_step (sys_mgr_env, inp) (fl_manager s)"
  by (simp_all add: manage_input_def Let_def)

lemma adapt_net_inbox: "adapt up ev (n\<lparr>net_inbox := x\<rparr>) = (adapt up ev n)\<lparr>net_inbox := x\<rparr>"
  by (auto simp: adapt_def send_to_processor_def reply_def Let_def split: network_event.split)

lemma attend_net_inbox: "attend c up m (n\<lparr>net_inbox := x\<rparr>) = (attend c up m n)\<lparr>net_inbox := x\<rparr>"
  by (auto simp: attend_def answered_def reply_def halt_def split: processor_message.split prod.split outcome.split option.split)

lemma attend_keeps [simp]: "net_inbox (attend c up m n) = net_inbox n" "arrived (attend c up m n) = arrived n"
  by (auto simp: attend_def answered_def reply_def halt_def split: processor_message.split prod.split outcome.split option.split)

lemma adapt_keeps [simp]: "net_inbox (adapt up ev n) = net_inbox n" "arrived (adapt up ev n) = arrived n"
  by (auto simp: adapt_def send_to_processor_def reply_def Let_def split: network_event.split)

lemma held_replying [simp]: "held (replying old new) = []"
  by (simp add: replying_def split: list.split)

lemma attend_waiting: "waiting (attend c up m n) = waiting n \<or> waiting (attend c up m n) = None"
  by (auto simp: attend_def answered_def reply_def halt_def split: processor_message.split prod.split outcome.split option.split)

lemma attend_told:
  "\<exists>new. to_manager (attend c up m n) = to_manager n @ new \<and> list_all (\<lambda>ev. \<exists>pid m. ev = SendMessage pid m) new"
  by (auto simp: attend_def answered_def reply_def halt_def split: processor_message.split prod.split outcome.split option.split)

lemma adapt_told:
  "waiting n = None \<Longrightarrow> \<exists>new. to_manager (adapt up ev n) = to_manager n @ new \<and>
     list_all (\<lambda>ev. \<exists>pid m. ev = SendMessage pid m) new \<and> (new \<noteq> [] \<longrightarrow> waiting (adapt up ev n) = None)"
  by (auto simp: adapt_def send_to_processor_def reply_def Let_def split: network_event.split)

lemma replying_told:
  assumes "to_manager new = to_manager old @ said"
  shows "replying old new = (case said of [] \<Rightarrow> AdapterIdle | ev # _ \<Rightarrow> AdapterReplies ev)"
  using assms by (simp add: replying_def)

section \<open>The shape of the states\<close>

text \<open>The events of a connection task are about its own peer, and it hands out its own channel.\<close>

definition of_peer :: "u64 \<Rightarrow> peer_event \<Rightarrow> bool" where
  "of_peer n ev \<longleftrightarrow>
     (case ev of
        Connected pid _ sender \<Rightarrow> pid = PeerId n \<and> sender = MsgSender n
      | Disconnected pid \<Rightarrow> pid = PeerId n
      | PeerMessage pid _ \<Rightarrow> pid = PeerId n
      | SendMessage _ _ \<Rightarrow> False)"

definition link_ok :: "u64 \<Rightarrow> task_link \<Rightarrow> bool" where
  "link_ok n lk \<longleftrightarrow>
     ctx_peer_id (lk_ctx lk) = PeerId n \<and> peer_sender (lk_ctx lk) = MsgSender n \<and>
     length (lk_inbox lk) \<le> PEER_CAPACITY \<and> length (lk_writing lk) \<le> 1 \<and> length (lk_telling lk) \<le> 1 \<and>
     list_all (of_peer n) (lk_telling lk)"

definition links_ok :: "flow \<Rightarrow> bool" where
  "links_ok s \<longleftrightarrow> (\<forall>n lk. fl_links s n = Some lk \<longrightarrow> link_ok n lk)"

definition channels_ok :: "flow \<Rightarrow> bool" where
  "channels_ok s \<longleftrightarrow> length (fl_events s) \<le> EVENT_CAPACITY \<and> length (net_inbox (fl_node s)) \<le> NETWORK_CAPACITY \<and>
     length (proc_inbox (fl_node s)) \<le> PROCESSOR_CAPACITY"

text \<open>The manager only knows, and only sends to, channels of connection tasks.\<close>

definition task_of :: "flow \<Rightarrow> peer_id \<Rightarrow> msg_sender \<Rightarrow> bool" where
  "task_of s pid sender \<longleftrightarrow> (\<exists>n \<in> dom (fl_links s). pid = PeerId n \<and> sender = MsgSender n)"

definition senders_ok :: "flow \<Rightarrow> bool" where
  "senders_ok s \<longleftrightarrow>
     (\<forall>pid addr sender. Connected pid addr sender \<in> set (fl_events s) \<longrightarrow> task_of s pid sender) \<and>
     (\<forall>(pid, sender) \<in> set (peer_map (fl_manager s)). task_of s pid sender) \<and>
     (\<forall>sender m. ToPeer sender m \<in> set (fl_sending s) \<longrightarrow> (\<exists>n \<in> dom (fl_links s). sender = MsgSender n))"

text \<open>While the adapter is busy with an event no query of it is with the processor, and the replies are the node's.\<close>

definition adapter_ok :: "flow \<Rightarrow> bool" where
  "adapter_ok s \<longleftrightarrow> (fl_adapter s \<noteq> AdapterIdle \<longrightarrow> waiting (fl_node s) = None) \<and>
     (\<forall>ev. fl_adapter s = AdapterReplies ev \<longrightarrow>
        (\<exists>pid m. ev = SendMessage pid m) \<and> ev \<in> set (to_manager (fl_node s))) \<and>
     (\<forall>pid m. SendMessage pid m \<in> set (fl_events s) \<longrightarrow> SendMessage pid m \<in> set (to_manager (fl_node s)))"

definition flow_ok :: "flow \<Rightarrow> bool" where
  "flow_ok s \<longleftrightarrow> links_ok s \<and> channels_ok s \<and> senders_ok s \<and> adapter_ok s"

lemma flow_ok_init: "flow_ok (flow_init p)"
  by (simp add: flow_ok_def links_ok_def channels_ok_def senders_ok_def adapter_ok_def flow_init_def node_init_def
      manager_init_def)

lemma conn_step_logs:
  assumes "ctx_peer_id ctx = PeerId n" and "peer_sender ctx = MsgSender n"
  shows "\<exists>ws es. wire (conn_step ctx (env, x) k) = wire k @ ws \<and> emitted (conn_step ctx (env, x) k) = emitted k @ es \<and>
    length ws \<le> 1 \<and> length es \<le> 1 \<and> list_all (of_peer n) es"
  using assms
  by (auto simp: conn_step_def on_message_def on_status_def on_outbound_def framed_send_def event_send_def leave_def Let_def
      of_peer_def split: prod.split conn_input.split option.split outcome.split handshake_state.split message.split)

lemma take_input_ok: "link_ok n lk \<Longrightarrow> link_ok n (take_input env x lk)"
  using conn_step_logs [of "lk_ctx lk" n env x "lk_conn lk"]
  by (auto simp: link_ok_def take_input_def Let_def)

lemma link_ok_edits:
  "link_ok n (new_link chain_id addr n)"
  "link_ok n lk \<Longrightarrow> lk_inbox lk = m # ms \<Longrightarrow> link_ok n (lk\<lparr>lk_inbox := ms\<rparr>)"
  "link_ok n lk \<Longrightarrow> length (lk_inbox lk) < PEER_CAPACITY \<Longrightarrow> link_ok n (lk\<lparr>lk_inbox := lk_inbox lk @ [m]\<rparr>)"
  "link_ok n lk \<Longrightarrow> lk_writing lk = m # ms \<Longrightarrow> link_ok n (lk\<lparr>lk_writing := ms\<rparr>)"
  "link_ok n lk \<Longrightarrow> lk_telling lk = ev # evs \<Longrightarrow> link_ok n (lk\<lparr>lk_telling := evs\<rparr>)"
  "link_ok n lk \<Longrightarrow> link_ok n (lk\<lparr>lk_telling := [], lk_conn := k\<rparr>)"
  "link_ok n lk \<Longrightarrow> link_ok n (lk\<lparr>lk_writing := [], lk_telling := [Disconnected (ctx_peer_id (lk_ctx lk))], lk_conn := k\<rparr>)"
  by (simp_all add: link_ok_def new_link_def of_peer_def)

lemma links_ok_step:
  assumes "flow_step c chain_id label s s'" and "links_ok s"
  shows "links_ok s'"
  using assms(1)
  by cases (use assms(2) in \<open>auto simp: links_ok_def intro!: take_input_ok intro: link_ok_edits\<close>)

lemma adapt_proc_inbox:
  "adapter_can ev n \<Longrightarrow> length (proc_inbox n) \<le> PROCESSOR_CAPACITY \<Longrightarrow>
     length (proc_inbox (adapt up ev n)) \<le> PROCESSOR_CAPACITY"
  by (auto simp: adapter_can_def adapt_def send_to_processor_def reply_def Let_def split: network_event.splits)

lemma attend_proc_inbox: "length (proc_inbox (attend c up m n)) \<le> length (proc_inbox n)"
  by (auto simp: attend_def answered_def reply_def halt_def split: processor_message.split prod.split outcome.split option.split)

lemma channels_ok_step:
  assumes "flow_step c chain_id label s s'" and "channels_ok s"
  shows "channels_ok s'"
  using assms(1)
proof cases
  case (flow_attend m rest node')
  then show ?thesis
    using assms(2) attend_proc_inbox [of c True m "(fl_node s)\<lparr>proc_inbox := rest\<rparr>"] by (simp add: channels_ok_def)
qed (use assms(2) adapt_proc_inbox in \<open>auto simp: channels_ok_def\<close>)

lemma told_of_peer:
  assumes "links_ok s" "fl_links s n = Some lk" "lk_telling lk = ev # evs"
  shows "of_peer n ev"
proof -
  have "link_ok n lk" using assms(1,2) by (simp add: links_ok_def)
  with assms(3) show ?thesis by (simp add: link_ok_def)
qed

lemma manager_step_outputs:
  "ToPeer sender m \<in> set (mgr_outputs mgr (manager_step (sys_mgr_env, inp) mgr)) \<Longrightarrow>
     \<exists>pid. (pid, sender) \<in> set (peer_map mgr)"
  by (auto simp: mgr_outputs_def manager_step_def on_peer_event_def on_peer_message_def processor_send_def remove_peer_def
      send_to_peer_def mgr_send_def broadcast_def send_each_eq remove_peers_eq on_shutdown_def
      dest!: map_of_SomeD split: if_splits mgr_input.splits option.splits peer_event.splits message.splits)

lemma manager_step_peers:
  "(pid, sender) \<in> set (peer_map (manager_step (sys_mgr_env, inp) mgr)) \<Longrightarrow>
     (pid, sender) \<in> set (peer_map mgr) \<or> (\<exists>addr. inp = ManagerEvent (Some (Connected pid addr sender)))"
  using manager_event_peers [of pid sender sys_mgr_env _ mgr]
  by (cases inp) (auto simp: manager_step_def on_shutdown_def dest: broadcast_peersD split: if_splits option.splits)

lemma manage_input_senders:
  assumes "senders_ok s"
    and "\<And>pid addr sender. inp = ManagerEvent (Some (Connected pid addr sender)) \<Longrightarrow> task_of s pid sender"
  shows "senders_ok (manage_input inp s)"
proof -
  have same: "task_of (manage_input inp s) = task_of s" by (simp add: task_of_def fun_eq_iff)
  have "task_of s pid sender" if "(pid, sender) \<in> set (peer_map (fl_manager (manage_input inp s)))" for pid sender
    using manager_step_peers [of pid sender inp "fl_manager s"] that assms by (auto simp: senders_ok_def)
  moreover have "\<exists>n \<in> dom (fl_links s). sender = MsgSender n" if "ToPeer sender m \<in> set (fl_sending (manage_input inp s))" for sender m
    using manager_step_outputs [of sender m "fl_manager s" inp] that assms(1)
    by (fastforce simp: senders_ok_def task_of_def manage_input_def Let_def)
  ultimately show ?thesis using assms(1) by (auto simp: senders_ok_def same)
qed

lemma senders_ok_step:
  assumes "flow_step c chain_id label s s'" and "senders_ok s" and "links_ok s" and "adapter_ok s"
  shows "senders_ok s'"
  using assms(1)
proof cases
  case (flow_manage ev rest)
  have "senders_ok (s\<lparr>fl_events := rest\<rparr>)" "ev = Connected pid addr sender \<Longrightarrow> task_of (s\<lparr>fl_events := rest\<rparr>) pid sender"
    for pid addr sender using assms(2) flow_manage by (auto simp: senders_ok_def task_of_def)
  then show ?thesis unfolding flow_manage(2) by (intro manage_input_senders) auto
next
  case (flow_tell n lk ev rest)
  then have "of_peer n ev" using told_of_peer [OF assms(3)] by blast
  then show ?thesis using assms(2) flow_tell by (auto simp: senders_ok_def task_of_def of_peer_def)
next
  case (flow_peer_gone n m rest lk)
  then show ?thesis using assms(2) by (auto simp: senders_ok_def task_of_def remove_peer_def dest: set_hm_deleteD)
next
  case flow_tick
  then show ?thesis using assms(2) by (auto intro: manage_input_senders)
next
  case flow_mgr_shutdown
  then show ?thesis using assms(2) by (auto intro: manage_input_senders)
next
  case (flow_adapter_replies ev)
  then show ?thesis using assms(2,4) by (auto simp: senders_ok_def task_of_def adapter_ok_def)
qed (use assms(2) in \<open>auto simp: senders_ok_def task_of_def\<close>)

lemma adapter_ok_step:
  assumes "flow_step c chain_id label s s'" and "adapter_ok s" and "links_ok s"
  shows "adapter_ok s'"
  using assms(1)
proof cases
  case (flow_tell n lk ev rest)
  then have "of_peer n ev" using told_of_peer [OF assms(3)] by blast
  then show ?thesis using assms(2) flow_tell by (auto simp: adapter_ok_def of_peer_def)
next
  case (flow_adapter_acts ev node')
  obtain said where "to_manager node' = to_manager (fl_node s) @ said"
    "list_all (\<lambda>ev. \<exists>pid m. ev = SendMessage pid m) said" "said \<noteq> [] \<longrightarrow> waiting node' = None"
    using adapt_told [of "fl_node s" True ev] flow_adapter_acts by blast
  then show ?thesis
    using assms(2) flow_adapter_acts by (auto simp: adapter_ok_def replying_told split: list.split)
next
  case (flow_attend m rest node')
  obtain said where "to_manager node' = to_manager (fl_node s) @ said" "list_all (\<lambda>ev. \<exists>pid m. ev = SendMessage pid m) said"
    using attend_told [of c True m "(fl_node s)\<lparr>proc_inbox := rest\<rparr>"] flow_attend by auto
  moreover have "waiting node' = waiting (fl_node s) \<or> waiting node' = None"
    using attend_waiting [of c True m "(fl_node s)\<lparr>proc_inbox := rest\<rparr>"] flow_attend by simp
  ultimately show ?thesis
    using assms(2) flow_attend(2) by (auto simp: adapter_ok_def replying_told split: list.split)
qed (use assms(2) in \<open>auto simp: adapter_ok_def\<close>)

lemma flow_ok_step: "flow_step c chain_id label s s' \<Longrightarrow> flow_ok s \<Longrightarrow> flow_ok s'"
  by (auto simp: flow_ok_def intro: links_ok_step channels_ok_step senders_ok_step adapter_ok_step)

lemma node_of_step:
  assumes "flow_step c chain_id label s s'" and "adapter_ok s"
  shows "node_of s' = node_of s \<or> node_step c (node_of s) (node_of s')"
  using assms(1)
proof cases
  case (flow_send_network ev rest)
  then show ?thesis using node_arrive [of c "node_of s" ev] by (cases "fl_node s") (simp add: node_of_def)
next
  case (flow_adapter_acts ev node')
  have same: "(adapt True ev (fl_node s))\<lparr>net_inbox := net_inbox (fl_node s)\<rparr> = adapt True ev (fl_node s)"
    by (simp flip: adapt_net_inbox)
  from flow_adapter_acts show ?thesis
    using node_adapt [of "node_of s" ev "net_inbox (fl_node s)" c True] by (simp add: node_of_def same)
next
  case (flow_attend m rest node')
  then have "held (fl_adapter s') = held (fl_adapter s)"
    using assms(2) attend_waiting [of c True m "(fl_node s)\<lparr>proc_inbox := rest\<rparr>"]
    by (cases "fl_adapter s") (auto simp: adapter_ok_def)
  moreover have swap: "(node_of s)\<lparr>proc_inbox := rest\<rparr> =
      ((fl_node s)\<lparr>proc_inbox := rest\<rparr>)\<lparr>net_inbox := held (fl_adapter s) @ net_inbox (fl_node s)\<rparr>"
    by (simp add: node_of_def)
  ultimately show ?thesis
    using node_attend [of "node_of s" m rest c True, unfolded swap attend_net_inbox] flow_attend by (simp add: node_of_def)
next
  case flow_stop
  then show ?thesis using node_stop [of "node_of s" c] by (cases "fl_node s") (simp add: node_of_def)
qed (simp_all add: node_of_def)

end
