(* ===== verification/Blocking.thy ===== *)
theory Blocking
  imports Tasks
begin

text \<open>
  What the tasks of the node can and cannot do with their bounded channels: every reachable state has the
  shape of \<open>flow_ok\<close> and belongs to a run of the node with unbounded channels; three ways in which
  waiting sends and receives stop the program, each reached by one peer and then proved to last; and the
  shutdown that returns once nobody is in its way.
\<close>

section \<open>What lasts\<close>

text \<open>A property that every step of a relation keeps, and the runs of the relation.\<close>

locale lasting =
  fixes R :: "'s \<Rightarrow> 's \<Rightarrow> bool" and P :: "'s \<Rightarrow> bool"
  assumes lasts_step: "P s \<Longrightarrow> R s s' \<Longrightarrow> P s'"
begin

lemma lasts: "R\<^sup>*\<^sup>* s s' \<Longrightarrow> P s \<Longrightarrow> P s'"
  by (induction rule: rtranclp_induct) (auto intro: lasts_step)

end

interpretation shape: lasting "flow_by c chain_id UNIV" flow_ok for c chain_id
  by unfold_locales (auto simp: flow_by_def intro: flow_ok_step)

interpretation run: lasting "flow_by c chain_id UNIV" "\<lambda>s. flow_ok s \<and> (node_step c)\<^sup>*\<^sup>* n (node_of s)" for c chain_id n
proof unfold_locales
  fix s s'
  assume ok: "flow_ok s \<and> (node_step c)\<^sup>*\<^sup>* n (node_of s)" and "flow_by c chain_id UNIV s s'"
  then obtain label where step: "flow_step c chain_id label s s'" by (auto simp: flow_by_def)
  have "node_of s' = node_of s \<or> node_step c (node_of s) (node_of s')"
    by (rule node_of_step [OF step]) (use ok in \<open>simp add: flow_ok_def\<close>)
  then have "(node_step c)\<^sup>*\<^sup>* n (node_of s')" using ok by (auto intro: rtranclp.rtrancl_into_rtrancl)
  with flow_ok_step [OF step] ok show "flow_ok s' \<and> (node_step c)\<^sup>*\<^sup>* n (node_of s')" by blast
qed

text \<open>
  C17. In every reachable state of the program the channels hold at most what they were created for, every
  task has at most one message and one event to send, the events of a connection task are about its own
  peer, every sender that the manager holds belongs to a connection task, and the replies that wait for
  the manager are answers of the node.
\<close>

theorem flow_shape:
  assumes "flow_reachable c chain_id p s"
  shows "flow_ok s"
  using assms flow_ok_init by (rule shape.lasts)

text \<open>
  C7. The program with its bounded channels refines the node with unbounded ones: what the adapter and the
  processor do in any schedule of the tasks is a run of \<open>node_step\<close>, so the answers and the chain are the ones proved for
  it, and every answer in the event channel is one of that run.
\<close>

theorem flow_refines_node:
  assumes "flow_reachable c chain_id p s"
  shows "(node_step c)\<^sup>*\<^sup>* (node_init p) (node_of s) \<and>
    (\<forall>pid m. SendMessage pid m \<in> set (fl_events s) \<longrightarrow> SendMessage pid m \<in> set (to_manager (node_of s)))"
proof -
  have "(node_step c)\<^sup>*\<^sup>* (node_init p) (node_of (flow_init p))" by (simp add: node_of_def flow_init_def node_init_def)
  then have "flow_ok s \<and> (node_step c)\<^sup>*\<^sup>* (node_init p) (node_of s)"
    using run.lasts [OF assms] flow_ok_init by blast
  then show ?thesis by (auto simp: flow_ok_def adapter_ok_def node_of_def)
qed

section \<open>Blocked tasks\<close>

text \<open>The manager waits for room in the adapter's channel and the adapter for room in the manager's.\<close>

definition jammed :: "flow \<Rightarrow> bool" where
  "jammed s \<longleftrightarrow>
     (\<exists>ev rest. fl_sending s = ToProcessor ev # rest) \<and> length (net_inbox (fl_node s)) = NETWORK_CAPACITY \<and>
     (\<exists>ev. fl_adapter s = AdapterReplies ev) \<and> waiting (fl_node s) = None \<and> length (fl_events s) = EVENT_CAPACITY \<and>
     fl_main s \<in> {AwaitsSignal, JoinsListener, JoinsManager}"

text \<open>The manager waits for room in the channel of a peer whose task waits for the peer to read.\<close>

definition stalled :: "u64 \<Rightarrow> flow \<Rightarrow> bool" where
  "stalled n s \<longleftrightarrow>
     (\<exists>m rest lk. fl_sending s = ToPeer (MsgSender n) m # rest \<and> fl_links s n = Some lk \<and> lk_writing lk \<noteq> [] \<and>
        length (lk_inbox lk) = PEER_CAPACITY) \<and>
     n \<le> fl_counter s \<and> fl_main s \<in> {AwaitsSignal, JoinsListener}"

text \<open>The manager has said goodbye and is gone, and a connection task waits for its peer.\<close>

definition held_open :: "u64 \<Rightarrow> flow \<Rightarrow> bool" where
  "held_open n s \<longleftrightarrow>
     (\<exists>lk. fl_links s n = Some lk \<and> at_select lk \<and> lk_inbox lk = []) \<and> \<not> mgr_listens s \<and>
     n \<le> fl_counter s \<and> fl_main s = JoinsListener"

text \<open>Nothing happens in the manager any more, and nothing reaches the processor.\<close>

definition same_manager :: "flow \<Rightarrow> flow \<Rightarrow> bool" where
  "same_manager s s' \<longleftrightarrow> fl_manager s' = fl_manager s \<and> fl_sending s' = fl_sending s \<and>
     arrived (fl_node s') = arrived (fl_node s)"

lemma jammed_step:
  assumes "flow_step c chain_id label s s'" and "jammed s"
  shows "jammed s' \<and> same_manager s s'"
  using assms(1)
proof cases
  case (flow_attend m rest node')
  then have "waiting node' = None"
    using assms(2) attend_waiting [of c True m "(fl_node s)\<lparr>proc_inbox := rest\<rparr>"] by (auto simp: jammed_def)
  with flow_attend show ?thesis using assms(2) by (auto simp: jammed_def same_manager_def)
qed (use assms(2) in \<open>auto simp: jammed_def same_manager_def mgr_listens_def capacities\<close>)

lemma next_number:
  fixes k n n' :: u64
  assumes "checked_add k 1 = Some n'" and "n \<le> k"
  shows "n' \<noteq> n" and "n \<le> n'"
proof -
  have "unat n' = unat k + 1" using assms(1) by (simp add: checked_add_unat)
  with assms(2) show "n' \<noteq> n" "n \<le> n'" by (auto simp: word_le_nat_alt)
qed

lemma stalled_step:
  assumes "flow_step c chain_id label s s'" and "label \<notin> {PeerActs n, PeerReads n}" and "stalled n s"
  shows "stalled n s' \<and> same_manager s s'"
  using assms(1)
  by cases (use assms(2,3) in \<open>auto simp: stalled_def same_manager_def mgr_listens_def at_select_def ended_def capacities dest: next_number\<close>)

lemma held_open_step:
  assumes "flow_step c chain_id label s s'" and "label \<noteq> PeerActs n" and "held_open n s"
  shows "held_open n s'"
  using assms(1)
  by cases (use assms(2,3) in \<open>auto simp: held_open_def mgr_listens_def at_select_def ended_def dest: next_number\<close>)

section \<open>Sessions of one peer\<close>

text \<open>From a state, a state with a property can be reached by steps with these labels.\<close>

definition can_reach :: "crypto \<Rightarrow> u64 \<Rightarrow> flow_label set \<Rightarrow> flow \<Rightarrow> (flow \<Rightarrow> bool) \<Rightarrow> bool" where
  "can_reach c chain_id labels s P \<longleftrightarrow> (\<exists>s'. (flow_by c chain_id labels)\<^sup>*\<^sup>* s s' \<and> P s')"

lemma can_now: "P s \<Longrightarrow> can_reach c chain_id labels s P"
  by (auto simp: can_reach_def)

lemma can_step:
  assumes "flow_step c chain_id label s s'" and "label \<in> labels" and "can_reach c chain_id labels s' P"
  shows "can_reach c chain_id labels s P"
proof -
  obtain s2 where s2: "(flow_by c chain_id labels)\<^sup>*\<^sup>* s' s2" "P s2" using assms(3) by (auto simp: can_reach_def)
  have "flow_by c chain_id labels s s'" using assms(1,2) by (auto simp: flow_by_def)
  from converse_rtranclp_into_rtranclp [of "flow_by c chain_id labels", OF this s2(1)] s2(2) show ?thesis
    by (auto simp: can_reach_def)
qed

lemma can_trans:
  assumes "can_reach c chain_id labels s P" and "\<And>s'. P s' \<Longrightarrow> can_reach c chain_id labels s' Q"
  shows "can_reach c chain_id labels s Q"
proof -
  obtain s1 where s1: "(flow_by c chain_id labels)\<^sup>*\<^sup>* s s1" "P s1" using assms(1) by (auto simp: can_reach_def)
  from assms(2) [OF s1(2)] obtain s2 where "(flow_by c chain_id labels)\<^sup>*\<^sup>* s1 s2" "Q s2" by (auto simp: can_reach_def)
  with s1(1) show ?thesis by (auto simp: can_reach_def intro: rtranclp_trans)
qed

lemma can_mono:
  assumes "can_reach c chain_id labels s P" and "labels \<subseteq> labels'"
  shows "can_reach c chain_id labels' s P"
proof -
  have "flow_by c chain_id labels \<le> flow_by c chain_id labels'" using assms(2) by (fastforce simp: flow_by_def)
  from rtranclp_mono [OF this] assms(1) show ?thesis by (auto simp: can_reach_def)
qed

text \<open>
  The first peer is connected, with these messages in the channel of its task, events, sends of the manager,
  state of the adapter, and number of head queries in the adapter's channel.
\<close>

definition in_session :: "message list \<Rightarrow> peer_event list \<Rightarrow> mgr_output list \<Rightarrow> adapter \<Rightarrow> nat \<Rightarrow> flow \<Rightarrow> bool" where
  "in_session ms evs outs ad k s \<longleftrightarrow>
     (\<exists>lk. fl_links s = [1 \<mapsto> lk] \<and> at_select lk \<and> phase (lk_conn lk) = Established \<and>
        ctx_peer_id (lk_ctx lk) = PeerId 1 \<and> lk_inbox lk = ms) \<and>
     fl_counter s = 1 \<and> mgr_running (fl_manager s) \<and> peer_map (fl_manager s) = [(PeerId 1, MsgSender 1)] \<and>
     fl_events s = evs \<and> fl_sending s = outs \<and> fl_adapter s = ad \<and>
     net_inbox (fl_node s) = replicate k (NetGetChainHead (PeerId 1)) \<and> waiting (fl_node s) = None \<and>
     fl_main s = AwaitsSignal"

abbreviation first_peer :: "flow_label set" where
  "first_peer \<equiv> {PeerActs 1, PeerReads 1, Inside}"

lemma hears_status:
  assumes "mgr_listens s"
  shows "\<exists>m. lk_writing (take_input (flow_env True s) (FromPeer (Some (Ok (Status chain_id h td)))) (new_link chain_id addr n)) = [m]"
    and "lk_telling (take_input (flow_env True s) (FromPeer (Some (Ok (Status chain_id h td)))) (new_link chain_id addr n)) =
      [Connected (PeerId n) addr (MsgSender n)]"
    and "conn_status (lk_conn (take_input (flow_env True s) (FromPeer (Some (Ok (Status chain_id h td))))
      (new_link chain_id addr n))) = Running"
    and "phase (lk_conn (take_input (flow_env True s) (FromPeer (Some (Ok (Status chain_id h td))))
      (new_link chain_id addr n))) = Established"
  using assms
  by (simp_all add: new_link_def take_input_def Let_def conn_init_def conn_step_def on_message_def on_status_def
      framed_send_def event_send_def flow_env_def status_encodes)

lemma on_message_established:
  assumes "phase k = Established" and "manager_up env" and "\<not> is_Status m"
  shows "on_message ctx env m k = k\<lparr>emitted := emitted k @ [PeerMessage (ctx_peer_id ctx) m]\<rparr>"
  using assms by (cases m) (simp_all add: on_message_def event_send_def)

lemma hears_message:
  assumes "at_select lk" and "phase (lk_conn lk) = Established" and "mgr_listens s" and "\<not> is_Status m"
  shows "lk_writing (take_input (flow_env True s) (FromPeer (Some (Ok m))) lk) = []"
    and "lk_telling (take_input (flow_env True s) (FromPeer (Some (Ok m))) lk) = [PeerMessage (ctx_peer_id (lk_ctx lk)) m]"
    and "conn_status (lk_conn (take_input (flow_env True s) (FromPeer (Some (Ok m))) lk)) = Running"
    and "phase (lk_conn (take_input (flow_env True s) (FromPeer (Some (Ok m))) lk)) = Established"
  using assms
  by (simp_all add: take_input_def Let_def conn_step_def on_message_established flow_env_def at_select_def)

lemma takes_outbound:
  assumes "at_select lk" and "phase (lk_conn lk) = Established" and "fst (codec_encode m []) = Ok ()"
  shows "lk_writing (take_input (flow_env True s) (Outbound (Some m)) lk) = [m]"
    and "lk_telling (take_input (flow_env True s) (Outbound (Some m)) lk) = []"
    and "conn_status (lk_conn (take_input (flow_env True s) (Outbound (Some m)) lk)) = Running"
    and "phase (lk_conn (take_input (flow_env True s) (Outbound (Some m)) lk)) = Established"
  using assms
  by (simp_all add: take_input_def Let_def conn_step_def on_outbound_def framed_send_def flow_env_def at_select_def)

lemma fl_sending_manage [simp]:
  "fl_sending (manage_input inp s) = mgr_outputs (fl_manager s) (manager_step (sys_mgr_env, inp) (fl_manager s))"
  by (simp add: manage_input_def Let_def)

lemmas session_simps = at_select_def mgr_listens_def mgr_outputs_def capacities manager_step_def on_peer_event_def
  on_peer_message_def send_to_peer_def mgr_send_def processor_send_def sys_mgr_env_def in_session_def

lemma session_opens: "can_reach c chain_id first_peer (flow_init p) (in_session [] [] [] AdapterIdle 0)"
proof -
  let ?ev = "Connected (PeerId 1) [] (MsgSender 1)" and ?lk = "new_link chain_id [] 1"
  define s1 where "s1 = set_link 1 ?lk ((flow_init p)\<lparr>fl_counter := 1\<rparr>)"
  note start = s1_def flow_init_def manager_init_def node_init_def
  define lk where "lk = take_input (flow_env True s1) (FromPeer (Some (Ok (Status chain_id zero_array 0)))) ?lk"
  have "mgr_listens s1" by (simp add: mgr_listens_def start)
  note heard = hears_status [OF this, where addr = "[]" and n = 1, of chain_id zero_array 0, folded lk_def]
  obtain m where m: "lk_writing lk = [m]" using heard(1) by blast
  have lk: "ctx_peer_id (lk_ctx lk) = PeerId 1" "lk_inbox lk = []" by (simp_all add: lk_def new_link_def)
  define s2 where "s2 = set_link 1 lk s1"
  define s3 where "s3 = set_link 1 (lk\<lparr>lk_writing := []\<rparr>) s2"
  define s4 where "s4 = set_link 1 (lk\<lparr>lk_writing := [], lk_telling := []\<rparr>) (s3\<lparr>fl_events := [?ev]\<rparr>)"
  have 1: "flow_step c chain_id (PeerActs 1) (flow_init p) s1"
    unfolding s1_def by (rule flow_accept) (simp_all add: flow_init_def checked_add_def)
  have 2: "flow_step c chain_id (PeerActs 1) s1 s2"
    unfolding s2_def lk_def by (rule flow_hear) (simp_all add: s1_def at_select_def new_link_def conn_init_def)
  have 3: "flow_step c chain_id (PeerReads 1) s2 s3"
    using flow_written [of s2 1 lk m "[]" c chain_id] m by (simp add: s2_def s3_def)
  have 4: "flow_step c chain_id Inside s3 s4"
    using flow_tell [of s3 1 "lk\<lparr>lk_writing := []\<rparr>" ?ev "[]" c chain_id] heard(2)
    by (simp add: s2_def s3_def s4_def start mgr_listens_def capacities)
  have 5: "flow_step c chain_id Inside s4 (manage_input (ManagerEvent (Some ?ev)) (s4\<lparr>fl_events := []\<rparr>))"
    by (rule flow_manage) (simp_all add: s2_def s3_def s4_def start)
  have 6: "in_session [] [] [] AdapterIdle 0 (manage_input (ManagerEvent (Some ?ev)) (s4\<lparr>fl_events := []\<rparr>))"
    using heard(3,4) lk by (simp add: session_simps s2_def s3_def s4_def start) auto
  show ?thesis
    by (rule can_step [OF 1 _ can_step [OF 2 _ can_step [OF 3 _ can_step [OF 4 _ can_step [OF 5 _ can_now [where P = "in_session [] [] [] AdapterIdle 0", OF 6]]]]]]) simp_all
qed

lemma session_hears:
  assumes "in_session ms evs outs ad k s" and "length evs < EVENT_CAPACITY" and "\<not> is_Status m"
  shows "can_reach c chain_id first_peer s (in_session ms (evs @ [PeerMessage (PeerId 1) m]) outs ad k)"
proof -
  let ?ev = "PeerMessage (PeerId 1) m"
  obtain lk where lk: "fl_links s = [1 \<mapsto> lk]" "at_select lk" "phase (lk_conn lk) = Established"
    "ctx_peer_id (lk_ctx lk) = PeerId 1" "lk_inbox lk = ms" using assms(1) by (auto simp: in_session_def)
  define lk1 where "lk1 = take_input (flow_env True s) (FromPeer (Some (Ok m))) lk"
  have up: "mgr_listens s" using assms(1) by (simp add: in_session_def mgr_listens_def)
  note heard = hears_message [OF lk(2,3) up assms(3), folded lk1_def, unfolded lk(4)]
  have lk1: "lk_ctx lk1 = lk_ctx lk" "lk_inbox lk1 = ms" by (simp_all add: lk1_def lk)
  define s1 where "s1 = set_link 1 lk1 s"
  define s2 where "s2 = set_link 1 (lk1\<lparr>lk_telling := []\<rparr>) (s1\<lparr>fl_events := evs @ [?ev]\<rparr>)"
  have 1: "flow_step c chain_id (PeerActs 1) s s1"
    unfolding s1_def lk1_def by (rule flow_hear) (simp_all add: lk)
  have 2: "flow_step c chain_id Inside s1 s2"
    using flow_tell [of s1 1 lk1 ?ev "[]" c chain_id] assms(1,2) heard
    by (simp add: s1_def s2_def in_session_def mgr_listens_def)
  have 3: "in_session ms (evs @ [?ev]) outs ad k s2"
    using assms(1) lk heard lk1 by (simp add: s1_def s2_def in_session_def at_select_def) auto
  show ?thesis by (rule can_step [OF 1 _ can_step [OF 2 _ can_now [where P = "in_session ms (evs @ [?ev]) outs ad k", OF 3]]]) simp_all
qed

abbreviation head_query :: network_event where
  "head_query \<equiv> NetGetChainHead (PeerId 1)"

lemma session_manages:
  assumes "in_session ms (PeerMessage (PeerId 1) m # evs) [] ad k s"
    and "m = GetChainHead \<and> outs = [ToProcessor head_query] \<or> m = Ping \<and> outs = [ToPeer (MsgSender 1) Pong]"
  shows "can_reach c chain_id first_peer s (in_session ms evs outs ad k)"
proof -
  let ?s1 = "manage_input (ManagerEvent (Some (PeerMessage (PeerId 1) m))) (s\<lparr>fl_events := evs\<rparr>)"
  have 1: "flow_step c chain_id Inside s ?s1" by (rule flow_manage) (use assms(1) in \<open>simp_all add: in_session_def\<close>)
  have 2: "in_session ms evs outs ad k ?s1" using assms by (auto simp: session_simps)
  show ?thesis by (rule can_step [OF 1 _ can_now [where P = "in_session ms evs outs ad k", OF 2]]) simp
qed

lemma session_passes:
  assumes "in_session ms evs [ToProcessor head_query] ad k s" and "k < NETWORK_CAPACITY"
  shows "can_reach c chain_id first_peer s (in_session ms evs [] ad (Suc k))"
proof -
  let ?s1 = "s\<lparr>fl_sending := [], fl_node := (fl_node s)
      \<lparr>net_inbox := net_inbox (fl_node s) @ [head_query], arrived := arrived (fl_node s) @ [head_query]\<rparr>\<rparr>"
  have 1: "flow_step c chain_id Inside s ?s1" by (rule flow_send_network) (use assms in \<open>simp_all add: in_session_def\<close>)
  have 2: "in_session ms evs [] ad (Suc k) ?s1"
    using assms(1) by (simp add: in_session_def replicate_append_same)
  show ?thesis by (rule can_step [OF 1 _ can_now [where P = "in_session ms evs [] ad (Suc k)", OF 2]]) simp
qed

lemma session_answers:
  assumes "in_session ms evs outs AdapterIdle (Suc k) s"
  shows "can_reach c chain_id first_peer s (\<lambda>s. \<exists>ev. in_session ms evs outs (AdapterReplies ev) k s)"
proof -
  let ?s1 = "s\<lparr>fl_adapter := AdapterHolds head_query,
      fl_node := (fl_node s)\<lparr>net_inbox := replicate k head_query\<rparr>\<rparr>"
  let ?n = "adapt True head_query (fl_node ?s1)"
  let ?s2 = "?s1\<lparr>fl_adapter := replying (fl_node ?s1) ?n, fl_node := ?n\<rparr>"
  have 1: "flow_step c chain_id Inside s ?s1"
    by (rule flow_adapter_takes) (use assms in \<open>simp_all add: in_session_def\<close>)
  have 2: "flow_step c chain_id Inside ?s1 ?s2"
    by (rule flow_adapter_acts) (use assms in \<open>simp_all add: in_session_def adapter_can_def\<close>)
  have 3: "\<exists>ev. in_session ms evs outs (AdapterReplies ev) k ?s2"
    using assms by (simp add: in_session_def adapt_def reply_def Let_def replying_def)
  show ?thesis
    by (rule can_step [OF 1 _ can_step [OF 2 _ can_now [where P = "\<lambda>s. \<exists>ev. in_session ms evs outs (AdapterReplies ev) k s", OF 3]]])
      simp_all
qed

lemma session_delivers:
  assumes "in_session ms evs [ToPeer (MsgSender 1) m] ad k s" and "length ms < PEER_CAPACITY"
  shows "can_reach c chain_id first_peer s (in_session (ms @ [m]) evs [] ad k)"
proof -
  obtain lk where lk: "fl_links s = [1 \<mapsto> lk]" "at_select lk" "lk_inbox lk = ms"
    using assms(1) by (auto simp: in_session_def)
  let ?s1 = "set_link 1 (lk\<lparr>lk_inbox := lk_inbox lk @ [m]\<rparr>) (s\<lparr>fl_sending := []\<rparr>)"
  have 1: "flow_step c chain_id Inside s ?s1"
    by (rule flow_send_peer) (use assms lk in \<open>simp_all add: in_session_def at_select_def ended_def\<close>)
  have 2: "in_session (ms @ [m]) evs [] ad k ?s1"
    using assms(1) lk by (simp add: in_session_def at_select_def) (auto simp: fun_upd_def fun_eq_iff split: if_splits)
  show ?thesis by (rule can_step [OF 1 _ can_now [where P = "in_session (ms @ [m]) evs [] ad k", OF 2]]) simp
qed

lemma session_floods:
  assumes "in_session ms evs outs ad k s" and "length evs + n \<le> EVENT_CAPACITY" and "\<not> is_Status m"
  shows "can_reach c chain_id first_peer s (in_session ms (evs @ replicate n (PeerMessage (PeerId 1) m)) outs ad k)"
  using assms(1,2)
proof (induction n arbitrary: evs s)
  case (Suc n)
  have "can_reach c chain_id first_peer s (in_session ms (evs @ [PeerMessage (PeerId 1) m]) outs ad k)"
    by (rule session_hears [OF Suc.prems(1)]) (use Suc.prems(2) assms(3) in simp_all)
  then show ?case
  proof (rule can_trans)
    fix s' assume "in_session ms (evs @ [PeerMessage (PeerId 1) m]) outs ad k s'"
    from Suc.IH [OF this] Suc.prems(2)
    show "can_reach c chain_id first_peer s' (in_session ms (evs @ replicate (Suc n) (PeerMessage (PeerId 1) m)) outs ad k)"
      by simp
  qed
qed (simp add: can_now)

lemma session_asks:
  assumes "in_session ms [] [] ad k s"
  shows "can_reach c chain_id first_peer s (in_session ms [] [ToProcessor head_query] ad k)"
proof (rule can_trans [OF session_hears [OF assms, where m = GetChainHead]])
  fix s' assume "in_session ms ([] @ [PeerMessage (PeerId 1) GetChainHead]) [] ad k s'"
  then show "can_reach c chain_id first_peer s' (in_session ms [] [ToProcessor head_query] ad k)"
    by (intro session_manages) simp_all
qed (simp_all add: capacities)

lemma session_fills:
  assumes "in_session ms [] [] ad k s" and "k + n \<le> NETWORK_CAPACITY"
  shows "can_reach c chain_id first_peer s (in_session ms [] [] ad (k + n))"
  using assms
proof (induction n arbitrary: k s)
  case (Suc n)
  show ?case
  proof (rule can_trans [OF can_trans [OF session_asks [OF Suc.prems(1)] session_passes]])
    fix s' assume "in_session ms [] [] ad (Suc k) s'"
    from Suc.IH [OF this] Suc.prems(2) show "can_reach c chain_id first_peer s' (in_session ms [] [] ad (k + Suc n))" by simp
  qed (use Suc.prems(2) in simp_all)
qed (simp add: can_now)

lemma session_pongs:
  assumes "in_session ms (replicate (n + j) (PeerMessage (PeerId 1) Ping)) [] ad k s" and "length ms + n \<le> PEER_CAPACITY"
  shows "can_reach c chain_id first_peer s
    (in_session (ms @ replicate n Pong) (replicate j (PeerMessage (PeerId 1) Ping)) [] ad k)"
  using assms
proof (induction n arbitrary: ms s)
  case (Suc n)
  have m: "can_reach c chain_id first_peer s
      (in_session ms (replicate (n + j) (PeerMessage (PeerId 1) Ping)) [ToPeer (MsgSender 1) Pong] ad k)"
    by (rule session_manages) (use Suc.prems(1) in simp_all)
  show ?case
  proof (rule can_trans [OF can_trans [OF m session_delivers]])
    fix s' assume "in_session (ms @ [Pong]) (replicate (n + j) (PeerMessage (PeerId 1) Ping)) [] ad k s'"
    from Suc.IH [OF this] Suc.prems(2) show "can_reach c chain_id first_peer s'
        (in_session (ms @ replicate (Suc n) Pong) (replicate j (PeerMessage (PeerId 1) Ping)) [] ad k)" by simp
  qed (use Suc.prems(2) in simp_all)
qed (simp add: can_now)

section \<open>The program blocks\<close>

lemma same_manager_trans: "same_manager s s1 \<Longrightarrow> same_manager s1 s2 \<Longrightarrow> same_manager s s2"
  by (simp add: same_manager_def)

interpretation jam: lasting "flow_by c chain_id UNIV" "\<lambda>s'. jammed s' \<and> same_manager s s'" for c chain_id s
  by unfold_locales (auto simp: flow_by_def dest!: jammed_step intro: same_manager_trans)

interpretation stall: lasting "flow_by c chain_id (- {PeerActs n, PeerReads n})" "\<lambda>s'. stalled n s' \<and> same_manager s s'" for c chain_id n s
  by unfold_locales (auto simp: flow_by_def dest!: stalled_step intro: same_manager_trans)

interpretation wait: lasting "flow_by c chain_id (- {PeerActs n})" "held_open n" for c chain_id n
  by unfold_locales (auto simp: flow_by_def dest: held_open_step)

lemma one_peer_can_jam: "can_reach c chain_id first_peer (flow_init p) jammed"
proof -
  let ?can = "can_reach c chain_id first_peer"
  have "?can (flow_init p) (in_session [] [] [] AdapterIdle 1)"
    by (rule can_trans [OF session_opens]) (use session_fills [of "[]" AdapterIdle 0 _ 1] in \<open>simp add: capacities\<close>)
  then have "?can (flow_init p) (\<lambda>s. \<exists>ev. in_session [] [] [] (AdapterReplies ev) 0 s)"
    by (rule can_trans) (use session_answers [of "[]" "[]" "[]" 0] in simp)
  then have "?can (flow_init p) (\<lambda>s. \<exists>ev. in_session [] [] [ToProcessor head_query] (AdapterReplies ev) NETWORK_CAPACITY s)"
  proof (rule can_trans, elim exE)
    fix s ev assume "in_session [] [] [] (AdapterReplies ev) 0 s"
    from can_trans [OF session_fills [OF this, of NETWORK_CAPACITY] session_asks]
    have "?can s (in_session [] [] [ToProcessor head_query] (AdapterReplies ev) NETWORK_CAPACITY)" by simp
    then show "?can s (\<lambda>s. \<exists>ev. in_session [] [] [ToProcessor head_query] (AdapterReplies ev) NETWORK_CAPACITY s)"
      by (rule can_trans) (auto intro: can_now)
  qed
  then show ?thesis
  proof (rule can_trans, elim exE)
    fix s ev assume "in_session [] [] [ToProcessor head_query] (AdapterReplies ev) NETWORK_CAPACITY s"
    from session_floods [OF this, of EVENT_CAPACITY GetChainHead]
    show "?can s jammed" by (rule can_trans) (auto simp: in_session_def jammed_def intro: can_now)
  qed
qed

text \<open>
  C14. One peer that follows the protocol can stop the node for good. It asks for the head of the chain faster
  than it is answered: the channel to the adapter and the event channel fill up, the manager waits to pass a
  query on while the adapter waits to hand a reply back, and from then on, whatever the peers, the
  processor and the operator do, the manager makes no step, nothing reaches the processor, and the
  program does not end.
\<close>

theorem one_peer_jams_node:
  "\<exists>s. (flow_by c chain_id {PeerActs 1, PeerReads 1, Inside})\<^sup>*\<^sup>* (flow_init p) s \<and>
     (\<forall>s'. (flow_by c chain_id UNIV)\<^sup>*\<^sup>* s s' \<longrightarrow> same_manager s s' \<and> fl_main s' \<noteq> Returned)"
proof -
  obtain s where s: "(flow_by c chain_id first_peer)\<^sup>*\<^sup>* (flow_init p) s" "jammed s"
    using one_peer_can_jam [of c chain_id p] by (auto simp: can_reach_def)
  have "same_manager s s' \<and> fl_main s' \<noteq> Returned" if "(flow_by c chain_id UNIV)\<^sup>*\<^sup>* s s'" for s'
    using jam.lasts [OF that, of s] s(2) by (auto simp: same_manager_def jammed_def)
  with s(1) show ?thesis by blast
qed

theorem flow_shape_witness:
  "\<exists>p s. sample_node = Ok p \<and> flow_reachable sample_crypto 1 p s \<and> in_session [] [] [] AdapterIdle 0 s \<and> flow_ok s"
proof -
  obtain p where p: "sample_node = Ok p" by (rule sample_node_Ok)
  obtain s where "flow_reachable sample_crypto 1 p s" "in_session [] [] [] AdapterIdle 0 s"
    using can_mono [OF session_opens [of sample_crypto 1 p], of UNIV] by (auto simp: can_reach_def)
  with p flow_shape show ?thesis by blast
qed

theorem flow_refines_node_witness:
  "\<exists>p s. sample_node = Ok p \<and> jammed s \<and> (node_step sample_crypto)\<^sup>*\<^sup>* (node_init p) (node_of s)"
proof -
  obtain p where p: "sample_node = Ok p" by (rule sample_node_Ok)
  obtain s where "flow_reachable sample_crypto 1 p s" "jammed s"
    using can_mono [OF one_peer_can_jam [of sample_crypto 1 p], of UNIV] by (auto simp: can_reach_def)
  with p flow_refines_node show ?thesis by blast
qed

text \<open>Some step that no peer takes is always possible.\<close>

lemma flow_goes_on: "\<exists>s'. flow_by c chain_id {Interrupt, Inside} s s'"
  using flow_interrupt [of s c chain_id] flow_close_listener [of s c chain_id] by (auto simp: flow_by_def)

theorem one_peer_jams_node_witness:
  "\<exists>p s s'. sample_node = Ok p \<and> (flow_by sample_crypto 1 {PeerActs 1, PeerReads 1, Inside})\<^sup>*\<^sup>* (flow_init p) s \<and>
     flow_by sample_crypto 1 {Interrupt, Inside} s s' \<and> same_manager s s' \<and> fl_main s' \<noteq> Returned"
proof -
  obtain p where p: "sample_node = Ok p" by (rule sample_node_Ok)
  obtain s where s: "(flow_by sample_crypto 1 {PeerActs 1, PeerReads 1, Inside})\<^sup>*\<^sup>* (flow_init p) s"
    "\<forall>s'. (flow_by sample_crypto 1 UNIV)\<^sup>*\<^sup>* s s' \<longrightarrow> same_manager s s' \<and> fl_main s' \<noteq> Returned"
    using one_peer_jams_node by blast
  obtain s' where s': "flow_by sample_crypto 1 {Interrupt, Inside} s s'" using flow_goes_on by blast
  then have "flow_by sample_crypto 1 UNIV s s'" by (auto simp: flow_by_def)
  with p s s' show ?thesis by blast
qed

lemma pong_encodes: "fst (codec_encode Pong []) = Ok ()"
  by (intro encodes [of _ "[]" 0]) (simp_all add: message_payload_def message_to_rlp_item_def)

lemma session_stalls:
  assumes "in_session (replicate PEER_CAPACITY Pong) [PeerMessage (PeerId 1) Ping] [ToPeer (MsgSender 1) Pong] ad k s"
  shows "can_reach c chain_id first_peer s (stalled 1)"
proof -
  obtain lk where lk: "fl_links s = [1 \<mapsto> lk]" "at_select lk" "phase (lk_conn lk) = Established"
    "lk_inbox lk = Pong # replicate 31 Pong"
    using assms by (auto simp: in_session_def capacities numeral_eq_Suc)
  let ?lk = "lk\<lparr>lk_inbox := replicate 31 Pong\<rparr>"
  define lk1 where "lk1 = take_input (flow_env True s) (Outbound (Some Pong)) ?lk"
  have wrote: "lk_writing lk1 = [Pong]" "conn_status (lk_conn lk1) = Running" "lk_inbox lk1 = replicate 31 Pong"
    using takes_outbound [of ?lk Pong s] lk pong_encodes by (simp_all add: lk1_def at_select_def)
  define s1 where "s1 = set_link 1 lk1 s"
  define s2 where "s2 = set_link 1 (lk1\<lparr>lk_inbox := lk_inbox lk1 @ [Pong]\<rparr>) (s1\<lparr>fl_sending := []\<rparr>)"
  define s3 where "s3 = manage_input (ManagerEvent (Some (PeerMessage (PeerId 1) Ping))) (s2\<lparr>fl_events := []\<rparr>)"
  have 1: "flow_step c chain_id Inside s s1"
    unfolding s1_def lk1_def by (rule flow_outbound) (simp_all add: lk)
  have 2: "flow_step c chain_id Inside s1 s2"
    unfolding s2_def by (rule flow_send_peer) (use assms wrote in \<open>simp_all add: s1_def in_session_def ended_def capacities\<close>)
  have 3: "flow_step c chain_id Inside s2 s3"
    unfolding s3_def by (rule flow_manage) (use assms in \<open>simp_all add: s1_def s2_def in_session_def\<close>)
  have 4: "stalled 1 s3"
    using assms wrote by (simp add: s1_def s2_def s3_def stalled_def session_simps)
  show ?thesis by (rule can_step [OF 1 _ can_step [OF 2 _ can_step [OF 3 _ can_now [of "stalled 1", OF 4]]]]) simp_all
qed

lemma one_peer_can_stall: "can_reach c chain_id first_peer (flow_init p) (stalled 1)"
proof -
  let ?can = "can_reach c chain_id first_peer" and ?ping = "PeerMessage (PeerId 1) Ping"
  have "?can (flow_init p) (in_session [] (replicate (PEER_CAPACITY + 2) ?ping) [] AdapterIdle 0)"
    by (rule can_trans [OF session_opens])
      (use session_floods [of "[]" "[]" "[]" AdapterIdle 0 _ "PEER_CAPACITY + 2" Ping] in \<open>simp add: capacities\<close>)
  then have "?can (flow_init p) (in_session (replicate PEER_CAPACITY Pong) (replicate 2 ?ping) [] AdapterIdle 0)"
    by (rule can_trans) (use session_pongs [of "[]" PEER_CAPACITY 2 AdapterIdle 0] in simp)
  then have "?can (flow_init p) (in_session (replicate PEER_CAPACITY Pong) [?ping] [ToPeer (MsgSender 1) Pong] AdapterIdle 0)"
    by (rule can_trans) (auto intro!: session_manages simp: numeral_eq_Suc)
  then show ?thesis by (rule can_trans) (rule session_stalls)
qed

text \<open>
  C16. One peer that stops reading, and keeps its connection open, stops the node: its task waits for the socket,
  the manager waits for room in the channel of that task, and until that peer reads or breaks its
  connection, whatever the other peers and the operator do, the manager makes no step, nothing
  reaches the processor, and the program does not end.
\<close>

theorem slow_peer_stalls_node:
  "\<exists>s. (flow_by c chain_id {PeerActs 1, PeerReads 1, Inside})\<^sup>*\<^sup>* (flow_init p) s \<and>
     (\<forall>s'. (flow_by c chain_id (- {PeerActs 1, PeerReads 1}))\<^sup>*\<^sup>* s s' \<longrightarrow> same_manager s s' \<and> fl_main s' \<noteq> Returned)"
proof -
  obtain s where s: "(flow_by c chain_id first_peer)\<^sup>*\<^sup>* (flow_init p) s" "stalled 1 s"
    using one_peer_can_stall [of c chain_id p] by (auto simp: can_reach_def)
  have "same_manager s s' \<and> fl_main s' \<noteq> Returned" if "(flow_by c chain_id (- {PeerActs 1, PeerReads 1}))\<^sup>*\<^sup>* s s'" for s'
    using stall.lasts [OF that, of s] s(2) by (auto simp: same_manager_def stalled_def)
  with s(1) show ?thesis by blast
qed

theorem slow_peer_stalls_node_witness:
  "\<exists>p s s'. sample_node = Ok p \<and> (flow_by sample_crypto 1 {PeerActs 1, PeerReads 1, Inside})\<^sup>*\<^sup>* (flow_init p) s \<and>
     flow_by sample_crypto 1 {Interrupt, Inside} s s' \<and> same_manager s s' \<and> fl_main s' \<noteq> Returned"
proof -
  obtain p where p: "sample_node = Ok p" by (rule sample_node_Ok)
  obtain s where s: "(flow_by sample_crypto 1 {PeerActs 1, PeerReads 1, Inside})\<^sup>*\<^sup>* (flow_init p) s"
    "\<forall>s'. (flow_by sample_crypto 1 (- {PeerActs 1, PeerReads 1}))\<^sup>*\<^sup>* s s' \<longrightarrow> same_manager s s' \<and> fl_main s' \<noteq> Returned"
    using slow_peer_stalls_node by blast
  obtain s' where s': "flow_by sample_crypto 1 {Interrupt, Inside} s s'" using flow_goes_on by blast
  then have "flow_by sample_crypto 1 (- {PeerActs 1, PeerReads 1}) s s'" by (auto simp: flow_by_def)
  with p s s' show ?thesis by blast
qed

section \<open>Shutdown\<close>

lemma session_shuts_down:
  assumes "in_session [] [] [] ad k s"
  shows "can_reach c chain_id UNIV s (held_open 1)"
proof -
  let ?m = "Disconnect shutdown_reason"
  obtain lk where lk: "fl_links s = [1 \<mapsto> lk]" "at_select lk" "phase (lk_conn lk) = Established" "lk_inbox lk = []"
    using assms by (auto simp: in_session_def)
  define s1 where "s1 = s\<lparr>fl_main := JoinsListener\<rparr>"
  define s2 where "s2 = manage_input ShutdownSignal s1"
  define s3 where "s3 = set_link 1 (lk\<lparr>lk_inbox := lk_inbox lk @ [?m]\<rparr>) (s2\<lparr>fl_sending := []\<rparr>)"
  define lk4 where "lk4 = take_input (flow_env True s3) (Outbound (Some ?m)) (lk\<lparr>lk_inbox := lk_inbox lk @ [?m], lk_inbox := []\<rparr>)"
  define s4 where "s4 = set_link 1 lk4 s3"
  define s5 where "s5 = set_link 1 (lk4\<lparr>lk_writing := []\<rparr>) s4"
  have "fst (codec_encode ?m []) = Ok ()" unfolding shutdown_reason_def by (rule goodbye_encodes) simp
  then have wrote: "lk_writing lk4 = [?m]" "lk_telling lk4 = []" "conn_status (lk_conn lk4) = Running" "lk_inbox lk4 = []"
    using takes_outbound [of "lk\<lparr>lk_inbox := []\<rparr>" ?m s3] lk by (simp_all add: lk4_def at_select_def)
  have 1: "flow_step c chain_id Interrupt s s1"
    unfolding s1_def by (rule flow_interrupt) (use assms in \<open>simp add: in_session_def\<close>)
  have 2: "flow_step c chain_id Inside s1 s2"
    unfolding s2_def by (rule flow_mgr_shutdown) (use assms in \<open>simp_all add: s1_def in_session_def\<close>)
  have outs: "fl_sending s2 = [ToPeer (MsgSender 1) ?m]" "\<not> mgr_running (fl_manager s2)"
    using assms by (simp_all add: s2_def s1_def session_simps on_shutdown_def)
  have 3: "flow_step c chain_id Inside s2 s3"
    unfolding s3_def
    by (rule flow_send_peer [OF outs(1)]) (use lk in \<open>simp_all add: s2_def s1_def at_select_def ended_def capacities\<close>)
  have 4: "flow_step c chain_id Inside s3 s4"
    unfolding s4_def lk4_def by (rule flow_outbound) (use lk in \<open>simp_all add: s3_def at_select_def\<close>)
  have 5: "flow_step c chain_id (PeerReads 1) s4 s5"
    unfolding s5_def by (rule flow_written) (use wrote(1) in \<open>simp_all add: s4_def\<close>)
  have 6: "held_open 1 s5"
    using assms wrote outs(2) by (simp add: s5_def s4_def s3_def held_open_def at_select_def mgr_listens_def) (simp add: s2_def s1_def in_session_def)
  show ?thesis
    by (rule can_step [OF 1 _ can_step [OF 2 _ can_step [OF 3 _ can_step [OF 4 _ can_step [OF 5 _ can_now [of "held_open 1", OF 6]]]]]])
      simp_all
qed

text \<open>
  C26. A connected peer that stays silent keeps the program from ending: the peer has read the goodbye of the
  manager, the manager is gone, and until that peer itself sends, closes or breaks its connection,
  \<^verbatim>\<open>main\<close> waits for the listener, which waits for the peer's task. The task holds the sender of its own
  channel, so the end of the manager does not end it.
\<close>

theorem silent_peer_holds_shutdown:
  "\<exists>s. flow_reachable c chain_id p s \<and> \<not> mgr_listens s \<and>
     (\<forall>s'. (flow_by c chain_id (- {PeerActs 1}))\<^sup>*\<^sup>* s s' \<longrightarrow> fl_main s' = JoinsListener)"
proof -
  have "can_reach c chain_id UNIV (flow_init p) (held_open 1)"
    by (rule can_trans [OF can_mono [OF session_opens]]) (auto intro: session_shuts_down)
  then obtain s where s: "flow_reachable c chain_id p s" "held_open 1 s" by (auto simp: can_reach_def)
  have "fl_main s' = JoinsListener" if "(flow_by c chain_id (- {PeerActs 1}))\<^sup>*\<^sup>* s s'" for s'
    using wait.lasts [OF that s(2)] by (simp add: held_open_def)
  with s show ?thesis by (auto simp: held_open_def)
qed

theorem silent_peer_holds_shutdown_witness:
  "\<exists>p s s'. sample_node = Ok p \<and> flow_reachable sample_crypto 1 p s \<and> \<not> mgr_listens s \<and>
     flow_by sample_crypto 1 {Interrupt, Inside} s s' \<and> fl_main s' = JoinsListener"
proof -
  obtain p where p: "sample_node = Ok p" by (rule sample_node_Ok)
  obtain s where s: "flow_reachable sample_crypto 1 p s" "\<not> mgr_listens s"
    "\<forall>s'. (flow_by sample_crypto 1 (- {PeerActs 1}))\<^sup>*\<^sup>* s s' \<longrightarrow> fl_main s' = JoinsListener"
    using silent_peer_holds_shutdown by blast
  obtain s' where s': "flow_by sample_crypto 1 {Interrupt, Inside} s s'" using flow_goes_on by blast
  then have "flow_by sample_crypto 1 (- {PeerActs 1}) s s'" by (auto simp: flow_by_def)
  with p s s' show ?thesis by blast
qed

lemma attend_cases:
  "\<not> node_alive (attend c up m n) \<or>
     m \<noteq> ProcShutdown \<and> node_alive (attend c up m n) = node_alive n \<and> proc_inbox (attend c up m n) = proc_inbox n"
  by (auto simp: attend_def answered_def reply_def halt_def split: processor_message.split prod.split outcome.split option.split)

text \<open>The processor takes its next message; it has one less to take, or has ended.\<close>

lemma flow_attends:
  assumes "node_alive (fl_node s)" and "proc_inbox (fl_node s) = m # ms"
  obtains s' where "flow_step c chain_id Inside s s'" "fl_main s' = fl_main s"
    "\<not> node_alive (fl_node s') \<or> m \<noteq> ProcShutdown \<and> proc_inbox (fl_node s') = ms"
  using flow_attend [OF assms refl, of c chain_id] attend_cases [of c True m "(fl_node s)\<lparr>proc_inbox := ms\<rparr>"]
  by (fastforce intro: that)

abbreviation can_return :: "crypto \<Rightarrow> u64 \<Rightarrow> flow \<Rightarrow> bool" where
  "can_return c chain_id s \<equiv> can_reach c chain_id {Inside} s (\<lambda>s'. fl_main s' = Returned)"

lemma returns_now:
  assumes "fl_main s = JoinsProcessor" and "\<not> node_alive (fl_node s)"
  shows "can_return c chain_id s"
  by (rule can_step [OF flow_return [OF assms]]) (simp_all add: can_now)

lemma processor_stops:
  "fl_main s = JoinsProcessor \<Longrightarrow> node_alive (fl_node s) \<longrightarrow> ProcShutdown \<in> set (proc_inbox (fl_node s)) \<Longrightarrow>
     can_return c chain_id s"
proof (induction "length (proc_inbox (fl_node s))" arbitrary: s rule: less_induct)
  case less
  show ?case
  proof (cases "node_alive (fl_node s)")
    case True
    with less.prems obtain m ms where ms: "proc_inbox (fl_node s) = m # ms" by (cases "proc_inbox (fl_node s)") auto
    obtain s' where s': "flow_step c chain_id Inside s s'" "fl_main s' = fl_main s"
      "\<not> node_alive (fl_node s') \<or> m \<noteq> ProcShutdown \<and> proc_inbox (fl_node s') = ms"
      using flow_attends [OF True ms] by blast
    then have "can_return c chain_id s'"
      using less.hyps [of s'] less.prems ms True by (cases "node_alive (fl_node s')") (auto intro: returns_now)
    then show ?thesis by (rule can_step [OF s'(1), rotated]) simp
  qed (use less.prems returns_now in blast)
qed

lemma main_stops: "fl_main s = SendsShutdown \<Longrightarrow> can_return c chain_id s"
proof (induction "length (proc_inbox (fl_node s))" arbitrary: s rule: less_induct)
  case less
  consider (dead) "\<not> node_alive (fl_node s)" | (room) "node_alive (fl_node s)" "length (proc_inbox (fl_node s)) < PROCESSOR_CAPACITY"
    | (full) m ms where "node_alive (fl_node s)" "proc_inbox (fl_node s) = m # ms"
    by (cases "proc_inbox (fl_node s)") (auto simp: capacities)
  then show ?case
  proof cases
    case dead
    show ?thesis
      by (rule can_step [OF flow_stopped_before [OF less.prems dead]]) (use dead in \<open>auto intro: processor_stops\<close>)
  next
    case room
    show ?thesis by (rule can_step [OF flow_stop [OF less.prems room]]) (auto intro: processor_stops)
  next
    case full
    obtain s' where s': "flow_step c chain_id Inside s s'" "fl_main s' = fl_main s"
      "\<not> node_alive (fl_node s') \<or> m \<noteq> ProcShutdown \<and> proc_inbox (fl_node s') = ms"
      using flow_attends [OF full] by blast
    have "can_return c chain_id s'"
    proof (cases "node_alive (fl_node s')")
      case True
      with s' full less.prems show ?thesis by (intro less.hyps) auto
    next
      case False
      show ?thesis
        by (rule can_step [OF flow_stopped_before [of s', OF _ False]])
          (use s'(2) less.prems False in \<open>auto intro: processor_stops\<close>)
    qed
    then show ?thesis by (rule can_step [OF s'(1), rotated]) simp
  qed
qed

text \<open>
  C25. Once the program was interrupted, its manager has stopped and the connection tasks have ended, it can
  return by itself, whatever the channels hold: the listener and the manager are joined, there is or will be room
  for the processor's \<^verbatim>\<open>Shutdown\<close>, and the processor works off its channel and ends.
\<close>

theorem shutdown_completes:
  assumes "fl_main s = JoinsListener" and "\<not> mgr_listens s" and "\<forall>n lk. fl_links s n = Some lk \<longrightarrow> ended lk"
  shows "\<exists>s'. (flow_by c chain_id {Inside})\<^sup>*\<^sup>* s s' \<and> fl_main s' = Returned"
proof -
  let ?s1 = "s\<lparr>fl_listening := False\<rparr>"
  let ?s2 = "?s1\<lparr>fl_main := JoinsManager\<rparr>"
  have 1: "flow_step c chain_id Inside s ?s1" by (rule flow_close_listener) (simp add: assms)
  have 2: "flow_step c chain_id Inside ?s1 ?s2" by (rule flow_join_listener) (use assms in simp_all)
  have 3: "flow_step c chain_id Inside ?s2 (?s2\<lparr>fl_main := SendsShutdown\<rparr>)"
    by (rule flow_join_manager) (use assms in \<open>simp_all add: mgr_listens_def\<close>)
  have "can_return c chain_id s"
    by (rule can_step [OF 1 _ can_step [OF 2 _ can_step [OF 3 _ main_stops]]]) simp_all
  then show ?thesis by (simp add: can_reach_def)
qed

theorem shutdown_completes_witness:
  "\<exists>p s s'. sample_node = Ok p \<and> flow_reachable sample_crypto 1 p s \<and> fl_main s = JoinsListener \<and>
     (flow_by sample_crypto 1 {Inside})\<^sup>*\<^sup>* s s' \<and> fl_main s' = Returned"
proof -
  obtain p where p: "sample_node = Ok p" by (rule sample_node_Ok)
  let ?s1 = "(flow_init p)\<lparr>fl_main := JoinsListener\<rparr>"
  let ?s = "manage_input ShutdownSignal ?s1"
  have 1: "flow_step sample_crypto 1 Interrupt (flow_init p) ?s1" by (rule flow_interrupt) (simp add: flow_init_def)
  have 2: "flow_step sample_crypto 1 Inside ?s1 ?s"
    by (rule flow_mgr_shutdown) (simp_all add: flow_init_def manager_init_def)
  have "can_reach sample_crypto 1 UNIV (flow_init p) (\<lambda>s. s = ?s)"
    by (rule can_step [OF 1 _ can_step [OF 2 _ can_now]]) simp_all
  then have "flow_reachable sample_crypto 1 p ?s" by (simp add: can_reach_def)
  moreover have "fl_main ?s = JoinsListener" "\<not> mgr_listens ?s" "\<forall>n lk. fl_links ?s n = Some lk \<longrightarrow> ended lk"
    by (simp_all add: session_simps flow_init_def manager_init_def on_shutdown_def)
  ultimately show ?thesis using p shutdown_completes [of ?s] by blast
qed

end
