(* ===== verification/Session.thy ===== *)
theory Session
  imports Whole_System
begin

text \<open>
  A whole session of the test client with a fresh node under the prompt schedule: every block that the client
  sends is committed, and the client goes on until it has sent all of them or meets a ping of the manager.
\<close>

section \<open>What a block of plain transfers does to the ledger\<close>

definition outlay :: "transaction \<Rightarrow> nat" where
  "outlay tx = unat (fee_cap tx) * unat (tx_gas_limit tx) + unat (tx_value tx)"

lemma spec_transfer_effect:
  assumes "spec_transfer base (tx, sender) L = Some L'" and "is_Legacy tx"
  shows "L a = Some (m, n) \<Longrightarrow>
      \<exists>m'. L' a = Some (m', n + of_bool (a = sender)) \<and> m \<le> m' + of_bool (a = sender) * outlay tx"
    and "L' a = Some (m', n') \<Longrightarrow> n' \<le> (case L a of None \<Rightarrow> 0 | Some (m, n) \<Rightarrow> n + of_bool (a = sender))"
  using assms
  by (cases tx; auto simp: spec_transfer_def Let_def unwrap_or_def outlay_def spec_price_def fee_cap_def
      split: option.splits prod.splits if_splits)+

lemma spec_run_effect:
  assumes "spec_run base xs L = Some L'" and "\<forall>x \<in> set xs. is_Legacy (fst x) \<and> outlay (fst x) \<le> most"
    and "distinct (map snd xs)"
  shows "L a = Some (m, n) \<Longrightarrow>
      \<exists>m'. L' a = Some (m', n + of_bool (a \<in> snd ` set xs)) \<and> m \<le> m' + of_bool (a \<in> snd ` set xs) * most"
    and "L' a = Some (m', n') \<Longrightarrow> n' \<le> (case L a of None \<Rightarrow> 0 | Some (m, n) \<Rightarrow> n) + of_bool (a \<in> snd ` set xs)"
  using assms
proof (induction xs arbitrary: L m n m')
  case (Cons x xs)
  obtain tx sender where x: "x = (tx, sender)" by (cases x)
  {
    fix L m n m'
    assume prems: "spec_run base (x # xs) L = Some L'"
      "\<forall>x \<in> set (x # xs). is_Legacy (fst x) \<and> outlay (fst x) \<le> most" "distinct (map snd (x # xs))"
    from prems(1) x obtain L1 where L1: "spec_transfer base (tx, sender) L = Some L1" "spec_run base xs L1 = Some L'"
      by (auto simp: bind_eq_Some_conv)
    have tx: "is_Legacy tx" "outlay tx \<le> most" using prems(2) x by simp_all
    have rest: "\<forall>x \<in> set xs. is_Legacy (fst x) \<and> outlay (fst x) \<le> most" "distinct (map snd xs)" "sender \<notin> snd ` set xs"
      using prems(2,3) x by auto
    have one: "\<exists>m'. L' a = Some (m', n + of_bool (a \<in> snd ` set (x # xs))) \<and>
        m \<le> m' + of_bool (a \<in> snd ` set (x # xs)) * most" if a: "L a = Some (m, n)"
    proof -
      obtain m1 where m1: "L1 a = Some (m1, n + of_bool (a = sender))" "m \<le> m1 + of_bool (a = sender) * outlay tx"
        using spec_transfer_effect(1) [OF L1(1) tx(1) a] by blast
      from Cons.IH(1) [OF m1(1) L1(2) rest(1,2)] obtain m2 where
        "L' a = Some (m2, n + of_bool (a = sender) + of_bool (a \<in> snd ` set xs))"
        "m1 \<le> m2 + of_bool (a \<in> snd ` set xs) * most" by blast
      with m1 tx(2) rest(3) x show ?thesis by (cases "a = sender") auto
    qed
    have "n' \<le> (case L a of None \<Rightarrow> 0 | Some (m, n) \<Rightarrow> n) + of_bool (a \<in> snd ` set (x # xs))" if a: "L' a = Some (m', n')"
    proof -
      have "n' \<le> (case L1 a of None \<Rightarrow> 0 | Some (m, n) \<Rightarrow> n) + of_bool (a \<in> snd ` set xs)"
        using Cons.IH(2) [OF a L1(2) rest(1,2)] .
      moreover have "(case L1 a of None \<Rightarrow> 0 | Some (m, n) \<Rightarrow> n) \<le>
          (case L a of None \<Rightarrow> 0 | Some (m, n) \<Rightarrow> n) + of_bool (a = sender)"
        using spec_transfer_effect(2) [OF L1(1) tx(1), of a] by (fastforce split: option.splits)
      ultimately show ?thesis using rest(3) x by (cases "a = sender") auto
    qed
    note one this
  }
  note both = this
  { case 1 then show ?case using both(1) by blast }
  { case 2 then show ?case using both(2) by blast }
qed simp_all

section \<open>Signing\<close>

text \<open>The scheme accepts the key and signs every hash with it.\<close>

definition usable_key :: "crypto \<Rightarrow> b256 \<Rightarrow> bool" where
  "usable_key c key \<longleftrightarrow> key_valid c key \<and> (\<forall>hash. sign_prehash c key hash \<noteq> None)"

lemma sign_transfer:
  assumes "usable_key c key" and "parity_only c" and "2 * unat chain_id + 36 < 2 ^ 64"
  shows "\<exists>stx. sign c (Legacy nonce price gas to v []) (as_bytes key) chain_id = Ok stx"
proof -
  have twice: "(checked_mul chain_id 2 :: u64 option) = Some (chain_id * 2)"
    using assms(3) by (simp add: checked_mul_def)
  then have twice': "unat (chain_id * 2) = unat chain_id * 2" by (simp add: checked_mul_unat)
  have v: "\<exists>v. signature_v (Legacy nonce price gas to v' []) rid chain_id = Ok v" if "rid \<le> 1" for rid v'
  proof -
    have "unat rid \<le> 1" using that by (simp add: word_le_nat_alt)
    then obtain x where x: "checked_add (ucast rid) (chain_id * 2) = Some x"
      using checked_add_ex [of "ucast rid" "chain_id * 2"] twice' assms(3) by (auto simp: unsigned_ucast_eq take_bit_nat_eq_self)
    then have "unat x \<le> unat chain_id * 2 + 1"
      using twice' \<open>unat rid \<le> 1\<close> by (simp add: checked_add_unat unsigned_ucast_eq take_bit_nat_eq_self)
    then obtain y where "checked_add x 35 = Some y"
      using checked_add_ex [of x 35] assms(3) by auto
    with x twice show ?thesis by (simp add: signature_v_def add_or_panic_def)
  qed
  obtain sig rid where sig: "sign_prehash c key (keccak256 c (type_prefix (Legacy nonce price gas to v []) @
      rlp_bytes (signing_item (Legacy nonce price gas to v []) chain_id))) = Some (sig, rid)"
    using assms(1) unfolding usable_key_def by (metis not_Some_eq surj_pair)
  then have "rid \<le> 1" using assms(2) by (auto simp: parity_only_def)
  from v [OF this, of v] obtain sv where "signature_v (Legacy nonce price gas to v []) rid chain_id = Ok sv" by blast
  with sig assms(1) show ?thesis
    by (auto simp: sign_def signing_payload_eq [OF transfer_signing_len] usable_key_def try_from_def slice_defs
        simp del: rlp_bytes.simps)
qed

section \<open>Building\<close>

lemma build_total:
  assumes laws: "crypto_laws c" "parity_only c" and chain: "2 * unat (builder_chain_id (builder_state B)) + 36 < 2 ^ 64"
    and "sender_index ts < length (signing_keys (builder_state B))"
    and "usable_key c (signing_keys (builder_state B) ! sender_index ts)"
    and "map_of snaps (spec_sender c B ts) = Some snap"
    and "unat GAS_PRICE * unat (spec_gas_limit ts) + unat (spec_value ts) \<le> unat (snap_balance snap)"
  shows "\<exists>stx. build_signed_transaction c B snaps ts = Ok stx"
proof -
  let ?key = "signing_keys (builder_state B) ! sender_index ts"
  let ?tx = "Legacy (snap_nonce snap) GAS_PRICE (spec_gas_limit ts) (Some (recipient ts)) (spec_value ts) []"
  note signs = sign_transfer [OF assms(5) laws(2) chain]
  obtain stx0 where "sign c (Legacy 0 GAS_PRICE 21000 None 0 []) (as_bytes ?key) (builder_chain_id (builder_state B)) = Ok stx0"
    using signs by blast
  then have sender: "sender_address c B ?key = Ok (spec_sender c B ts)"
    using sign_address [OF laws(1)] laws(2) by (simp add: sender_address_def spec_sender_def)
  have small: "outlay ?tx < 2 ^ LENGTH(128)"
    using assms(7) unsigned_less [of "snap_balance snap", where ?'a = nat] by (simp add: outlay_def fee_cap_def)
  then obtain cost :: u128 where "unat cost = outlay ?tx" using ex_unat by blast
  then have "max_cost ?tx = Ok cost \<and> cost \<le> snap_balance snap"
    using assms(7) small by (simp add: max_cost_Ok_iff outlay_def fee_cap_def word_le_nat_alt)
  moreover obtain stx where "sign c ?tx (as_bytes ?key) (builder_chain_id (builder_state B)) = Ok stx"
    using signs by blast
  ultimately show ?thesis
    using assms(4,6) sender by (auto simp: build_signed_transaction_def list_get_def Let_def not_less outcome_iffs)
qed

lemma add_transactions_total:
  assumes "\<forall>ts \<in> set specs. \<exists>stx. build_signed_transaction c B snaps ts = Ok stx"
    and "unat gas + (\<Sum>ts\<leftarrow>specs. unat (spec_gas_limit ts)) < 2 ^ 64"
  shows "\<exists>r. try_fold (add_transaction c B snaps) (gas, txs) specs = Ok r"
  using assms
proof (induction specs arbitrary: gas txs)
  case (Cons ts specs)
  obtain gas' where gas': "checked_add gas (spec_gas_limit ts) = Some gas'"
    using checked_add_ex [of gas "spec_gas_limit ts"] Cons.prems(2) by auto
  moreover obtain stx where "build_signed_transaction c B snaps ts = Ok stx" using Cons.prems(1) by auto
  moreover obtain r where "try_fold (add_transaction c B snaps) (gas', txs @ [stx]) specs = Ok r"
    using Cons.IH [of gas' "txs @ [stx]"] Cons.prems gas' by (auto simp: checked_add_unat)
  ultimately show ?case by (simp add: add_transaction_def [of c B snaps])
qed simp

lemma generate_total:
  assumes "\<forall>ts \<in> set (spec_transactions spec). \<exists>stx. build_signed_transaction c B snaps ts = Ok stx"
    and "(\<Sum>ts\<leftarrow>spec_transactions spec. unat (spec_gas_limit ts)) < 2 ^ 64"
    and "unat (base_timestamp (builder_state B)) + 12 * (unat (current_number (builder_state B)) + 1) < 2 ^ 64"
  shows "\<exists>b B'. generate_block c spec snaps B = (Ok b, B')"
proof -
  obtain r where r: "try_fold (add_transaction c B snaps) (0, []) (spec_transactions spec) = Ok r"
    using add_transactions_total [OF assms(1), of 0 "[]"] assms(2) by auto
  obtain num where num: "checked_add (current_number (builder_state B)) 1 = Some num"
    using checked_add_ex [of "current_number (builder_state B)" 1] assms(3) by auto
  obtain time :: u64 where "unat time = unat (base_timestamp (builder_state B)) + 12 * (unat (current_number (builder_state B)) + 1)"
    using ex_unat [where ?'a = 64, of "unat (base_timestamp (builder_state B)) + 12 * (unat (current_number (builder_state B)) + 1)"]
      assms(3) by auto
  then have "slot_timestamp B num = Ok time" using num by (simp add: slot_timestamp_Ok checked_add_unat)
  with r num show ?thesis by (cases r) (simp add: generate_block_def then_do_def hash_header_eq)
qed

section \<open>The processor takes the next block\<close>

lemma handle_next_block:
  assumes "process_block c b p = (Ok (), p1)" and "pending_map p = []" and "head_at p + 2 < 2 ^ 64"
  shows "\<exists>p'. handle_new_block c b peer p = (Ok (), p') \<and> same_core p1 p' \<and> pending_map p' = []"
proof -
  let ?n = "number (block_header b)"
  let ?q = "(count_received p)\<lparr>pending_map := [(?n, \<lparr>pending_block = b, pending_peer = peer\<rparr>)]\<rparr>"
  let ?cleared = "(count_received p)\<lparr>pending_map := []\<rparr>"
  have n: "unat ?n = head_at p + 1" using process_block_number [OF assms(1)] by simp
  have core: "same_core p ?cleared" by (simp add: same_core_def count_received_def)
  from respects_coreD [OF respects_process_block core assms(1)] obtain p' where
    p': "process_block c b ?cleared = (Ok (), p')" "same_core p1 p'" by blast
  then have empty: "pending_map p' = []"
    using keepsD [OF process_block_pending, of ?cleared "[]" c b] by simp
  obtain n1 where n1: "checked_add ?n 1 = Some n1" using checked_add_ex [of ?n 1] n assms(3) by auto
  have h: "checked_add (head_number (proc_head p)) 1 = Some ?n" using n by (simp add: checked_add_unat)
  have "drain_loop c n1 p' = (Ok (), p')" using empty by (simp add: drain_loop.simps)
  then have "drain_loop c ?n ?q = (Ok (), p')"
    using p'(1) n1 by (subst drain_loop.simps) simp
  moreover have "\<not> ?n \<le> head_number (proc_head p)" using n by (simp add: word_le_nat_alt)
  ultimately have "handle_new_block c b peer p = (Ok (), p')"
    using h assms(2) by (simp add: handle_new_block_def then_do_def add_or_panic_def try_drain_def count_received_def)
  with p'(2) empty show ?thesis by blast
qed

section \<open>Planning a block\<close>

text \<open>The snapshot the node would send, and the plan that the loop over the transactions makes.\<close>

definition snap_at :: "block_processor \<Rightarrow> address \<Rightarrow> account_snapshot" where
  "snap_at p a = (case accounts (provider p) a of
     None \<Rightarrow> \<lparr>snap_address = a, snap_nonce = 0, snap_balance = 0\<rparr>
   | Some acc \<Rightarrow> \<lparr>snap_address = a, snap_nonce = acc_nonce acc, snap_balance = acc_balance acc\<rparr>)"

definition order_at :: "address list \<Rightarrow> nat \<Rightarrow> transaction_spec" where
  "order_at addrs i = \<lparr>sender_index = i mod length addrs, recipient = addrs ! ((i mod length addrs + 1) mod length addrs),
     spec_value = 1000000000000000000, spec_gas_limit = 21000\<rparr>"

definition sender_at :: "address list \<Rightarrow> nat \<Rightarrow> address" where
  "sender_at addrs i = addrs ! (i mod length addrs)"

definition extend_plan :: "block_processor \<Rightarrow> address list \<Rightarrow> plan \<Rightarrow> nat \<Rightarrow> plan" where
  "extend_plan p addrs pl i = \<lparr>plan_specs = plan_specs pl @ [order_at addrs i],
     plan_snapshots = AList.update (sender_at addrs i) (snap_at p (sender_at addrs i)) (plan_snapshots pl),
     plan_nonces = plan_nonces pl @ [(sender_at addrs i, snap_nonce (snap_at p (sender_at addrs i)) + 1)]\<rparr>"

text \<open>Every address of the list has an account that can still send.\<close>

definition can_send :: "block_processor \<Rightarrow> address list \<Rightarrow> bool" where
  "can_send p addrs \<longleftrightarrow> addrs \<noteq> [] \<and>
     (\<forall>a \<in> set addrs. \<exists>acc. accounts (provider p) a = Some acc \<and> unat (acc_nonce acc) + 1 < 2 ^ 64)"

lemma snap_answered:
  assumes "ready_at t s" and "accounts (provider (proc_of s)) a = Some acc"
  shows "\<exists>s'. query_account_state (system_ops c chain_id polls) a s = (Ok (snap_at (proc_of s) a), s') \<and>
    ready_at t s' \<and> proc_of s' = proc_of s"
  using query_answered [OF assms(1), of a acc] assms(2) by (simp add: snap_at_def get_account_def)

lemma plan_one:
  assumes "ready_at t (client_link s)" and "can_send (proc_of (client_link s)) addrs"
    and "unat block_index + unat tx_index < 2 ^ 64"
  shows "\<exists>l. plan_transaction (system_ops c chain_id polls) addrs block_index pl tx_index s =
      (Ok (extend_plan (proc_of (client_link s)) addrs pl (unat block_index + unat tx_index)), s\<lparr>client_link := l\<rparr>) \<and>
    ready_at t l \<and> proc_of l = proc_of (client_link s)"
proof -
  let ?p = "proc_of (client_link s)" and ?i = "unat block_index + unat tx_index"
  have pos: "0 < length addrs" using assms(2) by (simp add: can_send_def)
  have "sender_at addrs ?i \<in> set addrs" using pos by (simp add: sender_at_def)
  then obtain acc where acc: "accounts (provider ?p) (sender_at addrs ?i) = Some acc" "unat (acc_nonce acc) + 1 < 2 ^ 64"
    using assms(2) unfolding can_send_def by blast
  obtain l where l: "query_account_state (system_ops c chain_id polls) (sender_at addrs ?i) (client_link s) =
      (Ok (snap_at ?p (sender_at addrs ?i)), l)" "ready_at t l" "proc_of l = ?p"
    using snap_answered [OF assms(1) acc(1)] by blast
  have "unat (ucast tx_index :: u64) = unat tx_index" by (rule unat_ucast_up) simp
  then obtain i where i: "checked_add block_index (ucast tx_index) = Some i" "unat i = ?i"
    using checked_add_ex [of block_index "ucast tx_index"] assms(3) by (auto simp: checked_add_unat)
  have "unat (snap_nonce (snap_at ?p (sender_at addrs ?i))) + 1 < 2 ^ 64" using acc by (simp add: snap_at_def)
  then have nonce: "checked_add (snap_nonce (snap_at ?p (sender_at addrs ?i))) 1 =
      Some (snap_nonce (snap_at ?p (sender_at addrs ?i)) + 1)"
    by (simp add: checked_add_def)
  show ?thesis
    using pos l i nonce
    by (intro exI [of _ l]) (simp add: plan_transaction_def then_do_def add_or_panic_def index_def on_link_def extend_plan_def
        order_at_def Let_def flip: sender_at_def)
qed

lemma plan_all:
  assumes "\<forall>j \<in> set js. unat block_index + j < 2 ^ 64 \<and> j < 256"
  shows "ready_at t (client_link s) \<Longrightarrow> can_send (proc_of (client_link s)) addrs \<Longrightarrow>
    \<exists>l. for_each (plan_transaction (system_ops c chain_id polls) addrs block_index) pl (map of_nat js) s =
      (Ok (foldl (extend_plan (proc_of (client_link s)) addrs) pl (map (\<lambda>j. unat block_index + j) js)), s\<lparr>client_link := l\<rparr>) \<and>
    ready_at t l \<and> proc_of l = proc_of (client_link s)"
  using assms
proof (induction js arbitrary: pl s)
  case Nil
  then show ?case by (intro exI [of _ "client_link s"]) simp
next
  case (Cons j js)
  let ?pl = "extend_plan (proc_of (client_link s)) addrs pl (unat block_index + j)"
  have j: "unat (of_nat j :: u8) = j" using Cons.prems(3) by (simp add: unat_of_nat take_bit_nat_eq_self)
  obtain l where l: "plan_transaction (system_ops c chain_id polls) addrs block_index pl (of_nat j) s =
      (Ok ?pl, s\<lparr>client_link := l\<rparr>)" "ready_at t l" "proc_of l = proc_of (client_link s)"
    using plan_one [OF Cons.prems(1,2), of block_index "of_nat j" c chain_id polls pl] Cons.prems(3) j by auto
  from Cons.IH [of "s\<lparr>client_link := l\<rparr>" ?pl] l Cons.prems show ?case by (auto simp: then_do_def)
qed

lemma plan_fields:
  "plan_specs (foldl (extend_plan p addrs) pl is) = plan_specs pl @ map (order_at addrs) is"
  "plan_nonces (foldl (extend_plan p addrs) pl is) =
     plan_nonces pl @ map (\<lambda>i. (sender_at addrs i, snap_nonce (snap_at p (sender_at addrs i)) + 1)) is"
  by (induction "is" arbitrary: pl) (simp_all add: extend_plan_def)

lemma plan_snaps:
  assumes "hm_ok (plan_snapshots pl)"
  shows "hm_ok (plan_snapshots (foldl (extend_plan p addrs) pl is)) \<and>
    map_of (plan_snapshots (foldl (extend_plan p addrs) pl is)) a =
      (if a \<in> sender_at addrs ` set is then Some (snap_at p a) else map_of (plan_snapshots pl) a)"
  using assms by (induction "is" arbitrary: pl) (auto simp: extend_plan_def hm_ok_update update_conv')

section \<open>Waiting\<close>

lemma nonces_checked:
  "ready_at t s \<Longrightarrow>
   \<forall>(a, n) \<in> set expected. \<exists>acc. accounts (provider (proc_of s)) a = Some acc \<and> n \<le> acc_nonce acc \<Longrightarrow>
   \<exists>s'. check_nonces (system_ops c chain_id polls) expected s = (Ok True, s') \<and> ready_at t s' \<and> proc_of s' = proc_of s"
proof (induction expected arbitrary: s)
  case (Cons e expected)
  obtain a n where e: "e = (a, n)" by (cases e)
  with Cons.prems obtain acc where acc: "accounts (provider (proc_of s)) a = Some acc" "n \<le> acc_nonce acc" by auto
  obtain s1 where s1: "query_account_state (system_ops c chain_id polls) a s = (Ok (snap_at (proc_of s) a), s1)"
    "ready_at t s1" "proc_of s1 = proc_of s" using snap_answered [OF Cons.prems(1) acc(1)] by blast
  have "\<not> snap_nonce (snap_at (proc_of s) a) < n" using acc by (simp add: snap_at_def not_less)
  with Cons.IH [of s1] s1 Cons.prems(2) e show ?case by (simp add: check_nonces_def then_do_def)
qed (simp add: check_nonces_def)

lemma wait_done:
  assumes "expected = [] \<or> ready_at t s"
    and "\<forall>(a, n) \<in> set expected. \<exists>acc. accounts (provider (proc_of s)) a = Some acc \<and> n \<le> acc_nonce acc"
  shows "\<exists>s'. wait_for_sender_nonces (system_ops c chain_id polls) expected s = (Ok (), s') \<and>
    (s' = s \<or> ready_at t s') \<and> proc_of s' = proc_of s"
proof -
  have "\<exists>s'. check_nonces (system_ops c chain_id polls) expected s = (Ok True, s') \<and> (s' = s \<or> ready_at t s') \<and>
      proc_of s' = proc_of s"
    using nonces_checked [OF _ assms(2), of t c chain_id polls] assms(1) by (auto simp: check_nonces_def)
  then have "\<exists>s'. wait_loop (system_ops c chain_id polls) expected k s = (Ok (), s') \<and> (s' = s \<or> ready_at t s') \<and>
      proc_of s' = proc_of s" for k
    by (cases k) (auto simp: then_do_def)
  then show ?thesis by (simp add: wait_for_sender_nonces_def)
qed

section \<open>One block\<close>

text \<open>What one transfer of the client costs its sender at most.\<close>

definition transfer_outlay :: nat where
  "transfer_outlay = 1000000000000000000 + 1000000000 * 21000"

definition client_addresses :: "crypto \<Rightarrow> client_cli \<Rightarrow> address list" where
  "client_addresses c opts = map (\<lambda>i. address_of_key c (genesis_key i)) [0..<unat (client_account_count opts)]"

text \<open>Options under which a session can succeed, and a scheme that can sign for its accounts.\<close>

definition feasible :: "crypto \<Rightarrow> client_cli \<Rightarrow> bool" where
  "feasible c opts \<longleftrightarrow>
     (let n = unat (client_account_count opts); m = unat (transactions_per_block opts);
          k = unat (block_count opts); balance = unat (client_genesis_balance opts)
      in 0 < n \<and> m \<le> n \<and> m \<le> 100 \<and> \<not> out_of_order opts \<and>
         (\<forall>i<n. usable_key c (genesis_key i)) \<and> distinct (client_addresses c opts) \<and>
         k * transfer_outlay \<le> balance \<and> n * balance < 2 ^ 128 \<and>
         unat (client_genesis_timestamp opts) + 12 * k < 2 ^ 64 \<and> 2 * unat (client_chain_id opts) + 36 < 2 ^ 64)"

text \<open>The state after \<open>k\<close> blocks.\<close>

definition on_course :: "crypto \<Rightarrow> client_cli \<Rightarrow> ledger \<Rightarrow> nat \<Rightarrow> block_processor \<Rightarrow> block_builder \<Rightarrow> bool" where
  "on_course c opts L0 k p B \<longleftrightarrow>
     settled c L0 (client_chain_id opts) p \<and> pending_map p = [] \<and> head_at p = k \<and>
     total_balance (provider p) < 2 ^ 128 \<and> unat (head_total_difficulty (proc_head p)) \<le> k * unat GAS_LIMIT_PER_BLOCK \<and>
     (\<forall>a \<in> set (client_addresses c opts). \<exists>m n. ledger_of (provider p) a = Some (m, n) \<and>
        unat (client_genesis_balance opts) \<le> m + k * transfer_outlay) \<and>
     (\<forall>a m n. ledger_of (provider p) a = Some (m, n) \<longrightarrow> n \<le> k) \<and>
     in_sync B p \<and> signing_keys (builder_state B) = map genesis_key [0..<unat (client_account_count opts)] \<and>
     genesis_gas_limit B = GAS_LIMIT_PER_BLOCK \<and> base_timestamp (builder_state B) = client_genesis_timestamp opts"

lemma mod_distinct:
  assumes "m \<le> n"
  shows "distinct (map (\<lambda>j. (k + j) mod n) [0..<m])"
proof -
  have "i = j" if "i \<le> j" "j < m" "(k + i) mod n = (k + j) mod n" for i j
  proof -
    have "n dvd (k + j) - (k + i)" using that by (metis add_le_cancel_left mod_eq_dvd_iff_nat)
    then have "n dvd j - i" by simp
    moreover have "j - i < n" using that assms by simp
    ultimately show ?thesis using that(1) nat_dvd_not_less by fastforce
  qed
  then have "i = j" if "i < m" "j < m" "(k + i) mod n = (k + j) mod n" for i j
    using that by (metis nat_le_linear)
  then show ?thesis by (auto simp: distinct_map inj_on_def)
qed

lemma order_sender:
  assumes "signing_keys (builder_state B) = map genesis_key [0..<n]" and "0 < n"
    and "addrs = map (\<lambda>i. address_of_key c (genesis_key i)) [0..<n]"
  shows "spec_sender c B (order_at addrs i) = sender_at addrs i"
  using assms by (simp add: spec_sender_def order_at_def sender_at_def)

lemma process_block_td:
  "process_block c b p = (Ok (), p') \<Longrightarrow>
     unat (head_total_difficulty (proc_head p')) = unat (head_total_difficulty (proc_head p)) + unat (gas_used (block_header b))"
  by (elim process_block_OkE) (simp add: count_committed_def)

lemma process_block_balance:
  assumes "process_block c b p = (Ok (), p')" and "processor_inv c L0 p"
  shows "total_balance (provider p') \<le> total_balance (provider p)"
  using assms(1)
proof (rule process_block_OkE)
  fix parent bws out q h q' td
  assume run: "strict_pipeline c 100 bws (provider p) = (Ok out, q)" and stored: "insert_block c b q = (Ok (), q')"
    and p': "p' = count_committed (of_nat (length (out_receipts out))) (out_gas_used out) (p\<lparr>provider := q',
      proc_head := \<lparr>head_number = number (block_header b), head_hash = h, head_total_difficulty = td\<rparr>,
      shared_head := \<lparr>head_number = number (block_header b), head_hash = h, head_total_difficulty = td\<rparr>\<rparr>)"
  have ok: "journal (provider p) = None" "provider_ok (provider p)" using assms(2) by (simp_all add: processor_inv_def)
  obtain r where r: "execute c bws ((provider p)\<lparr>journal := Some []\<rparr>) = (Ok out, r)" "q = commit_journal r"
    using ok(1) run by (rule strict_transfers.pipeline_Ok)
  have "total_balance q' = total_balance r"
    using stored r(2) by (auto elim!: insert_block_Ok simp: total_balance_def commit_journal_def)
  with execute_balance_le [OF r(1)] ok(2) show ?thesis by (simp add: p' count_committed_def)
qed

text \<open>The orders of block \<open>k\<close>.\<close>

definition block_orders :: "crypto \<Rightarrow> client_cli \<Rightarrow> nat \<Rightarrow> nat list" where
  "block_orders c opts k = map (\<lambda>j. k + j) [0..<unat (transactions_per_block opts)]"

lemma course_account:
  assumes "on_course c opts L0 k p B" and "a \<in> set (client_addresses c opts)"
  obtains acc where "accounts (provider p) a = Some acc" "unat (acc_nonce acc) \<le> k"
    "unat (client_genesis_balance opts) \<le> unat (acc_balance acc) + k * transfer_outlay"
proof -
  obtain m n where L: "ledger_of (provider p) a = Some (m, n)" "unat (client_genesis_balance opts) \<le> m + k * transfer_outlay"
    using assms unfolding on_course_def by blast
  moreover have "n \<le> k" using assms(1) L(1) unfolding on_course_def by blast
  ultimately show ?thesis by (auto simp: ledger_of_def intro: that)
qed

lemma course_can_send:
  assumes "on_course c opts L0 k p B" and "feasible c opts" and "k < unat (block_count opts)"
  shows "can_send p (client_addresses c opts)"
proof -
  have "k + 1 < 2 ^ 64" "client_addresses c opts \<noteq> []"
    using assms(2,3) by (auto simp: feasible_def Let_def client_addresses_def)
  moreover have "\<exists>acc. accounts (provider p) a = Some acc \<and> unat (acc_nonce acc) + 1 < 2 ^ 64"
    if "a \<in> set (client_addresses c opts)" for a
    using assms(1) that by (rule course_account) (use \<open>k + 1 < 2 ^ 64\<close> in auto)
  ultimately show ?thesis unfolding can_send_def by blast
qed

lemma sender_at_member: "feasible c opts \<Longrightarrow> sender_at (client_addresses c opts) i \<in> set (client_addresses c opts)"
  by (simp add: sender_at_def feasible_def Let_def client_addresses_def)

lemma course_senders:
  assumes "on_course c opts L0 k p B" and "feasible c opts"
  shows "spec_sender c B (order_at (client_addresses c opts) i) = sender_at (client_addresses c opts) i"
  using assms by (intro order_sender) (auto simp: on_course_def feasible_def Let_def client_addresses_def)

lemma course_generates:
  assumes course: "on_course c opts L0 k p B" and ok: "feasible c opts" "crypto_laws c" "parity_only c"
    and k: "k < unat (block_count opts)"
    and snaps: "\<forall>i \<in> set (block_orders c opts k). map_of snaps (sender_at (client_addresses c opts) i) =
      Some (snap_at p (sender_at (client_addresses c opts) i))"
  shows "\<exists>b B'. generate_block c \<lparr>spec_transactions = map (order_at (client_addresses c opts)) (block_orders c opts k)\<rparr> snaps B
    = (Ok b, B')"
proof (rule generate_total)
  let ?addrs = "client_addresses c opts"
  have num: "current_number (builder_state B) = head_number (proc_head p)" "head_at p = k"
    "builder_chain_id (builder_state B) = client_chain_id opts"
    using course by (auto simp: on_course_def in_sync_def builder_head_def settled_def)
  have "Suc k * transfer_outlay \<le> unat (client_genesis_balance opts)"
    using k ok(1) mult_le_mono1 [of "Suc k" "unat (block_count opts)" transfer_outlay] by (simp add: feasible_def Let_def)
  then have funds: "transfer_outlay + k * transfer_outlay \<le> unat (client_genesis_balance opts)" by simp
  have "\<exists>stx. build_signed_transaction c B snaps (order_at ?addrs i) = Ok stx" if i: "i \<in> set (block_orders c opts k)" for i
  proof (rule build_total [OF ok(2,3)])
    have len: "length ?addrs = unat (client_account_count opts)" "0 < length ?addrs"
      using ok(1) by (auto simp: client_addresses_def feasible_def Let_def)
    have keys: "signing_keys (builder_state B) = map genesis_key [0..<unat (client_account_count opts)]"
      using course by (simp add: on_course_def)
    show "2 * unat (builder_chain_id (builder_state B)) + 36 < 2 ^ 64" using num(3) ok(1) by (simp add: feasible_def Let_def)
    show idx: "sender_index (order_at ?addrs i) < length (signing_keys (builder_state B))"
      using len keys by (simp add: order_at_def)
    show "usable_key c (signing_keys (builder_state B) ! sender_index (order_at ?addrs i))"
      using idx keys ok(1) by (simp add: feasible_def Let_def)
    show "map_of snaps (spec_sender c B (order_at ?addrs i)) = Some (snap_at p (sender_at ?addrs i))"
      using snaps i course_senders [OF course ok(1)] by simp
    obtain acc where "accounts (provider p) (sender_at ?addrs i) = Some acc"
      "unat (client_genesis_balance opts) \<le> unat (acc_balance acc) + k * transfer_outlay"
      using course sender_at_member [OF ok(1)] by (rule course_account)
    with funds show "unat GAS_PRICE * unat (spec_gas_limit (order_at ?addrs i)) + unat (spec_value (order_at ?addrs i))
        \<le> unat (snap_balance (snap_at p (sender_at ?addrs i)))"
      by (simp add: snap_at_def order_at_def transfer_outlay_def GAS_PRICE_def)
  qed
  then show "\<forall>ts\<in>set (spec_transactions \<lparr>spec_transactions = map (order_at ?addrs) (block_orders c opts k)\<rparr>).
      \<exists>stx. build_signed_transaction c B snaps ts = Ok stx" by simp
  show "(\<Sum>ts\<leftarrow>spec_transactions \<lparr>spec_transactions = map (order_at ?addrs) (block_orders c opts k)\<rparr>. unat (spec_gas_limit ts)) < 2 ^ 64"
    using ok(1) by (simp add: order_at_def block_orders_def comp_def sum_list_triv feasible_def Let_def)
  show "unat (base_timestamp (builder_state B)) + 12 * (unat (current_number (builder_state B)) + 1) < 2 ^ 64"
    using course ok(1) num k by (simp add: on_course_def feasible_def Let_def)
qed

lemma course_distinct:
  assumes "on_course c opts L0 k p B" and ok: "feasible c opts"
  shows "distinct (map (spec_sender c B) (map (order_at (client_addresses c opts)) (block_orders c opts j)))"
proof -
  let ?addrs = "client_addresses c opts" and ?m = "unat (transactions_per_block opts)"
  have len: "length ?addrs = unat (client_account_count opts)" by (simp add: client_addresses_def)
  have "distinct (map (\<lambda>i. (j + i) mod length ?addrs) [0..<?m])"
    using ok by (intro mod_distinct) (simp add: len feasible_def Let_def)
  moreover have "inj_on (\<lambda>i. ?addrs ! i) {..<length ?addrs}"
    using ok by (auto simp: feasible_def Let_def intro: inj_on_nth)
  moreover have "set (map (\<lambda>i. (j + i) mod length ?addrs) [0..<?m]) \<subseteq> {..<length ?addrs}"
    using ok len by (auto simp: feasible_def Let_def)
  ultimately have "distinct (map (\<lambda>i. ?addrs ! i) (map (\<lambda>i. (j + i) mod length ?addrs) [0..<?m]))"
    using inj_on_subset distinct_map by blast
  then show ?thesis by (simp add: course_senders [OF assms] comp_def block_orders_def sender_at_def)
qed

lemma course_accepts:
  assumes course: "on_course c opts L0 k p B" and ok: "feasible c opts" "crypto_laws c" "parity_only c"
    and k: "k < unat (block_count opts)"
    and gen: "generate_block c \<lparr>spec_transactions = map (order_at (client_addresses c opts)) (block_orders c opts k)\<rparr> snaps B
      = (Ok b, B')"
    and snaps: "snapshots_of (ledger_of (provider p)) snaps"
  shows "\<exists>p'. process_block c b p = (Ok (), p') \<and> in_sync B' p' \<and>
    spec_block c (proc_chain_id p) b (ledger_of (provider p)) = Some (ledger_of (provider p'))"
proof (rule generated_accepted [OF ok(2,3) _ _ gen snaps])
  let ?addrs = "client_addresses c opts"
  show "processor_inv c L0 p" "in_sync B p" using course by (simp_all add: on_course_def settled_def)
  show "distinct (map (spec_sender c B) (spec_transactions \<lparr>spec_transactions = map (order_at ?addrs) (block_orders c opts k)\<rparr>))"
    using course_distinct [OF course ok(1)] by simp
  have "k * unat GAS_LIMIT_PER_BLOCK + unat GAS_LIMIT_PER_BLOCK < 2 ^ 128" "k + 100 < 2 ^ 64"
    using ok(1) k by (simp_all add: feasible_def Let_def GAS_LIMIT_PER_BLOCK_def)
  then show "room_for \<lparr>spec_transactions = map (order_at ?addrs) (block_orders c opts k)\<rparr> B p"
    using course ok(1)
    by (fastforce simp: room_for_def on_course_def feasible_def Let_def block_orders_def comp_def order_at_def
        sum_list_triv GAS_LIMIT_PER_BLOCK_def nonces_below_def)
qed

lemma generated_effect:
  assumes laws: "crypto_laws c" "parity_only c" and gen: "generate_block c \<lparr>spec_transactions = specs\<rparr> snaps B = (Ok b, B')"
    and spec: "spec_block c (builder_chain_id (builder_state B)) b L = Some L'"
    and distinct: "distinct (map (spec_sender c B) specs)"
    and most: "\<forall>ts \<in> set specs. unat GAS_PRICE * unat (spec_gas_limit ts) + unat (spec_value ts) \<le> most"
  shows "L a = Some (m, n) \<Longrightarrow> \<exists>m'. L' a = Some (m', n + of_bool (a \<in> spec_sender c B ` set specs)) \<and> m \<le> m' + most"
    and "L' a = Some (m', n') \<Longrightarrow> n' \<le> (case L a of None \<Rightarrow> 0 | Some (m, n) \<Rightarrow> n) + 1"
proof -
  let ?xs = "transfers \<lparr>bws_block = b, senders = map (spec_sender c B) specs\<rparr>"
  from gen have made: "list_all2 (made_from c B snaps) specs (transactions b)"
    by (rule generate_block_Ok) (use generated_made [OF laws(1)] in simp)
  have run: "spec_run (unat (base_fee_per_gas (block_header b))) ?xs L = Some L'"
    using spec made_senders [OF laws(2) made] by (simp add: spec_block_def)
  have snds: "map snd ?xs = map (spec_sender c B) specs" by (rule made_transfers(1) [OF made])
  have set: "snd ` set ?xs = spec_sender c B ` set specs" using arg_cong [OF snds, of set] by simp
  have "is_Legacy (fst x) \<and> outlay (fst x) \<le> most" if "x \<in> set ?xs" for x
  proof -
    from that obtain i where "i < length ?xs" "x = ?xs ! i" by (metis in_set_conv_nth)
    then have i: "i < length specs" "x = (transaction (transactions b ! i), spec_sender c B (specs ! i))"
      using list_all2_lengthD [OF made] by (simp_all add: transfers_def)
    then have "made_from c B snaps (specs ! i) (transactions b ! i)" using made by (simp add: list_all2_nthD)
    moreover have "specs ! i \<in> set specs" using i(1) by simp
    ultimately show ?thesis using i(2) most by (auto simp: made_from_def outlay_def fee_cap_def)
  qed
  then have txs: "\<forall>x \<in> set ?xs. is_Legacy (fst x) \<and> outlay (fst x) \<le> most" by blast
  note effect = spec_run_effect [OF run txs, unfolded snds set, OF distinct]
  show "\<exists>m'. L' a = Some (m', n + of_bool (a \<in> spec_sender c B ` set specs)) \<and> m \<le> m' + most" if "L a = Some (m, n)"
    using effect(1) [OF that] by (auto split: if_splits)
  show "n' \<le> (case L a of None \<Rightarrow> 0 | Some (m, n) \<Rightarrow> n) + 1" if "L' a = Some (m', n')"
    using effect(2) [OF that] by (cases "a \<in> spec_sender c B ` set specs") simp_all
qed

lemma course_effect:
  assumes course: "on_course c opts L0 k p B" and ok: "feasible c opts" "crypto_laws c" "parity_only c"
    and gen: "generate_block c \<lparr>spec_transactions = map (order_at (client_addresses c opts)) (block_orders c opts k)\<rparr> snaps B
      = (Ok b, B')"
    and spec: "spec_block c (proc_chain_id p) b (ledger_of (provider p)) = Some L'"
  shows "ledger_of (provider p) a = Some (m, n) \<Longrightarrow>
      \<exists>m'. L' a = Some (m', n + of_bool (a \<in> sender_at (client_addresses c opts) ` set (block_orders c opts k))) \<and>
        m \<le> m' + transfer_outlay"
    and "L' a = Some (m', n') \<Longrightarrow> n' \<le> Suc k"
proof -
  let ?specs = "map (order_at (client_addresses c opts)) (block_orders c opts k)"
  have spec': "spec_block c (builder_chain_id (builder_state B)) b (ledger_of (provider p)) = Some L'"
    using spec course by (simp add: on_course_def in_sync_def)
  have most: "\<forall>ts \<in> set ?specs. unat GAS_PRICE * unat (spec_gas_limit ts) + unat (spec_value ts) \<le> transfer_outlay"
    by (simp add: order_at_def transfer_outlay_def GAS_PRICE_def)
  note effect = generated_effect [OF ok(2,3) gen spec' course_distinct [OF course ok(1)] most]
  show "\<exists>m'. L' a = Some (m', n + of_bool (a \<in> sender_at (client_addresses c opts) ` set (block_orders c opts k))) \<and>
      m \<le> m' + transfer_outlay" if "ledger_of (provider p) a = Some (m, n)"
    using effect(1) [OF that] by (simp add: image_image course_senders [OF course ok(1)])
  have "(case ledger_of (provider p) a of None \<Rightarrow> 0 | Some (m, n) \<Rightarrow> n) \<le> k"
    using course by (auto simp: on_course_def split: option.split)
  then show "n' \<le> Suc k" if "L' a = Some (m', n')" using effect(2) [OF that] by simp
qed

lemma course_advances:
  assumes course: "on_course c opts L0 k p B" and ok: "feasible c opts" "crypto_laws c" "parity_only c"
    and gen: "generate_block c \<lparr>spec_transactions = map (order_at (client_addresses c opts)) (block_orders c opts k)\<rparr> snaps B
      = (Ok b, B')"
    and block: "process_block c b p = (Ok (), p1)" "in_sync B' p1" and p': "same_core p1 p'" "pending_map p' = []"
  shows "on_course c opts L0 (Suc k) p' B'"
proof -
  have inv: "processor_inv c L0 p" using course by (simp add: on_course_def settled_def)
  note commits = process_block_commits [OF inv block(1)]
  have core: "provider p' = provider p1" "proc_head p' = proc_head p1" "proc_chain_id p' = proc_chain_id p1"
    "shared_head p' = shared_head p1" using p'(1) by (simp_all add: same_core_def)
  have "processor_inv c L0 p' = processor_inv c L0 p1" using core by (simp add: processor_inv_def)
  then have settled: "settled c L0 (client_chain_id opts) p'"
    using commits course p'(2) core by (simp add: settled_def on_course_def queue_from_def)
  have effect: "spec_block c (proc_chain_id p) b (ledger_of (provider p)) = Some (ledger_of (provider p'))"
    using commits core by simp
  have head: "head_at p' = Suc k" using commits course core by (simp add: on_course_def)
  from gen have gas: "unat (gas_used (block_header b)) \<le> unat GAS_LIMIT_PER_BLOCK"
    by (rule generate_block_Ok) (use ok(1) in \<open>simp add: block_orders_def comp_def order_at_def sum_list_triv
      feasible_def Let_def GAS_LIMIT_PER_BLOCK_def\<close>)
  have bal: "total_balance (provider p') < 2 ^ 128"
    using process_block_balance [OF block(1) inv] course core by (simp add: on_course_def)
  have td: "unat (head_total_difficulty (proc_head p')) \<le> Suc k * unat GAS_LIMIT_PER_BLOCK"
    using process_block_td [OF block(1)] gas course core by (simp add: on_course_def)
  have funds: "\<exists>m n. ledger_of (provider p') a = Some (m, n) \<and>
      unat (client_genesis_balance opts) \<le> m + Suc k * transfer_outlay" if "a \<in> set (client_addresses c opts)" for a
  proof -
    obtain m n where "ledger_of (provider p) a = Some (m, n)" "unat (client_genesis_balance opts) \<le> m + k * transfer_outlay"
      using course \<open>a \<in> _\<close> unfolding on_course_def by blast
    with course_effect(1) [OF course ok gen effect] show ?thesis by fastforce
  qed
  have nonces: "n \<le> Suc k" if "ledger_of (provider p') a = Some (m, n)" for a m n
    using course_effect(2) [OF course ok gen effect that] .
  have builder: "signing_keys (builder_state B') = map genesis_key [0..<unat (client_account_count opts)] \<and>
     genesis_gas_limit B' = GAS_LIMIT_PER_BLOCK \<and> base_timestamp (builder_state B') = client_genesis_timestamp opts"
    using gen by (rule generate_block_Ok) (use course in \<open>simp add: on_course_def move_head_def\<close>)
  have "in_sync B' p'" using block(2) core by (auto simp: in_sync_def split: option.splits)
  with settled head bal td funds nonces builder p'(2) show ?thesis unfolding on_course_def by blast
qed

lemma generated_encodes:
  assumes "crypto_laws c" and "length specs \<le> 300"
    and "generate_block c \<lparr>spec_transactions = specs\<rparr> snaps B = (Ok b, B')"
  shows "fst (codec_encode (NewBlock b td) []) = Ok ()"
proof (rule block_encodes)
  from assms(3) have made: "list_all2 (made_from c B snaps) specs (transactions b)"
    by (rule generate_block_Ok) (use generated_made [OF assms(1)] in simp)
  then show "length (transactions b) \<le> 300" using assms(2) by (simp add: list_all2_lengthD)
  have "encoded_len (signed_transaction_to_rlp_item stx) \<le> 200" if "made_from c B snaps ts stx" for ts stx
    using that transfer_item_len by (cases stx) (auto simp: made_from_def simp del: encoded_len.simps)
  then show "\<forall>stx \<in> set (transactions b). encoded_len (signed_transaction_to_rlp_item stx) \<le> 200"
    using made by (metis in_set_conv_nth list_all2_conv_all_nth)
qed

lemma snapshots_taken:
  assumes "can_send p addrs" and "hm_ok snaps" and "\<forall>a. map_of snaps a = (if a \<in> sender_at addrs ` set is then Some (snap_at p a) else None)"
  shows "snapshots_of (ledger_of (provider p)) snaps"
proof -
  have "ledger_of (provider p) a = Some (unat (snap_balance snap), unat (snap_nonce snap))" if "(a, snap) \<in> set snaps" for a snap
  proof -
    have "map_of snaps a = Some snap" using that assms(2) by simp
    then have a: "snap = snap_at p a" "a \<in> sender_at addrs ` set is" using assms(3) by (simp_all split: if_splits)
    then have "a \<in> set addrs" using assms(1) by (auto simp: sender_at_def can_send_def)
    then obtain acc where "accounts (provider p) a = Some acc" using assms(1) by (auto simp: can_send_def)
    with a(1) show ?thesis by (simp add: ledger_of_def snap_at_def)
  qed
  then show ?thesis by (auto simp: snapshots_of_def)
qed

text \<open>
  A link on which a block can be sent with the timer at \<open>t\<close>. Without transactions the client makes no queries, and
  what there is to read does not matter.
\<close>

definition usable :: "client_cli \<Rightarrow> nat \<Rightarrow> system \<Rightarrow> bool" where
  "usable opts t s \<longleftrightarrow> connected s \<and> (transactions_per_block opts = 0 \<or> ready_at t s)"

lemma ready_connected: "ready_at t s \<Longrightarrow> connected s"
  by (simp add: ready_at_def ready_def)

lemma plan_block:
  assumes "usable opts t (client_link s)" and "can_send (proc_of (client_link s)) (client_addresses c opts)"
    and "k + 256 < 2 ^ 64"
  shows "\<exists>l. for_each (plan_transaction (system_ops c chain_id polls) (client_addresses c opts) (of_nat k))
      \<lparr>plan_specs = [], plan_snapshots = [], plan_nonces = []\<rparr> (map of_nat [0..<unat (transactions_per_block opts)]) s =
      (Ok (foldl (extend_plan (proc_of (client_link s)) (client_addresses c opts))
         \<lparr>plan_specs = [], plan_snapshots = [], plan_nonces = []\<rparr> (block_orders c opts k)), s\<lparr>client_link := l\<rparr>) \<and>
    usable opts t l \<and> proc_of l = proc_of (client_link s)"
proof (cases "transactions_per_block opts = 0")
  case True
  with assms(1) show ?thesis by (intro exI [of _ "client_link s"]) (simp add: block_orders_def)
next
  case False
  have kw: "unat (of_nat k :: u64) = k" using assms(3) by (simp add: unat_of_nat take_bit_nat_eq_self)
  have "ready_at t (client_link s)" using assms(1) False by (simp add: usable_def)
  from plan_all [OF _ this assms(2), of "[0..<unat (transactions_per_block opts)]" "of_nat k" c chain_id polls] assms(3)
    unsigned_less [of "transactions_per_block opts", where ?'a = nat]
  show ?thesis by (fastforce simp: kw block_orders_def usable_def ready_connected)
qed

lemma send_block_ok:
  assumes course: "on_course c opts L0 k (proc_of (client_link s)) (client_builder s)" and link: "usable opts t (client_link s)"
    and ok: "feasible c opts" "crypto_laws c" "parity_only c" and k: "k < unat (block_count opts)"
  shows "\<exists>l s'. send_block c (system_ops c chain_id polls) opts (client_addresses c opts) (of_nat k) s = (Ok (), s') \<and>
    client_link s' = pass chain_id 100 l \<and> usable opts t l \<and>
    on_course c opts L0 (Suc k) (proc_of (client_link s')) (client_builder s')"
proof -
  let ?p = "proc_of (client_link s)" and ?addrs = "client_addresses c opts" and ?is = "block_orders c opts k"
  let ?ops = "system_ops c chain_id polls"
  let ?pl = "foldl (extend_plan ?p ?addrs) \<lparr>plan_specs = [], plan_snapshots = [], plan_nonces = []\<rparr> ?is"
  have small: "k + 256 < 2 ^ 64" using ok(1) k by (simp add: feasible_def Let_def)
  note can = course_can_send [OF course ok(1) k]
  obtain l1 where l1: "for_each (plan_transaction ?ops ?addrs (of_nat k)) \<lparr>plan_specs = [], plan_snapshots = [], plan_nonces = []\<rparr>
      (map of_nat [0..<unat (transactions_per_block opts)]) s = (Ok ?pl, s\<lparr>client_link := l1\<rparr>)" "usable opts t l1" "proc_of l1 = ?p"
    using plan_block [OF link can small] by blast
  have snaps: "hm_ok (plan_snapshots ?pl)"
    "\<forall>a. map_of (plan_snapshots ?pl) a = (if a \<in> sender_at ?addrs ` set ?is then Some (snap_at ?p a) else None)"
    using plan_snaps [of "\<lparr>plan_specs = [], plan_snapshots = [], plan_nonces = []\<rparr>" ?p ?addrs ?is] by auto
  have specs: "plan_specs ?pl = map (order_at ?addrs) ?is" by (simp add: plan_fields)
  obtain b B' where gen: "generate_block c \<lparr>spec_transactions = map (order_at ?addrs) ?is\<rparr> (plan_snapshots ?pl) (client_builder s) = (Ok b, B')"
    using course_generates [OF course ok k, of "plan_snapshots ?pl"] snaps(2) by auto
  obtain p1 where p1: "process_block c b ?p = (Ok (), p1)" "in_sync B' p1"
    using course_accepts [OF course ok k gen snapshots_taken [OF can snaps]] by blast
  obtain p' where p': "handle_new_block c b (PeerId 1) ?p = (Ok (), p')" "same_core p1 p'" "pending_map p' = []"
    using handle_next_block [OF p1(1)] course small by (fastforce simp: on_course_def)
  note course' = course_advances [OF course ok gen p1 p'(2,3)]
  have "fst (codec_encode (NewBlock b td) []) = Ok ()" for td
    by (rule generated_encodes [OF ok(2) _ gen]) (use ok(1) in \<open>simp add: block_orders_def feasible_def Let_def\<close>)
  then obtain l2 where l2: "client_send ?ops (NewBlock b (ucast (gas_used (block_header b)))) l1 = (Ok (), l2)"
    "usable opts t l2" "proc_of l2 = p'"
    using block_delivered [of l1 c b "Ok ()" p' _ chain_id polls t] p'(1) l1(2,3) by (fastforce simp: usable_def)
  have "spec_block c (proc_chain_id ?p) b (ledger_of (provider ?p)) = Some (ledger_of (provider p'))"
    using course_accepts [OF course ok k gen snapshots_taken [OF can snaps]] p1(1) p'(2) by (auto simp: same_core_def)
  note sent = course_effect(1) [OF course ok gen this]
  have nonces: "\<exists>acc. accounts (provider p') a = Some acc \<and> n \<le> acc_nonce acc" if "(a, n) \<in> set (plan_nonces ?pl)" for a n
  proof -
    from that obtain i where i: "i \<in> set ?is" "a = sender_at ?addrs i" "n = snap_nonce (snap_at ?p a) + 1"
      by (auto simp: plan_fields)
    obtain acc where acc: "accounts (provider ?p) a = Some acc" "unat (acc_nonce acc) \<le> k"
      using course sender_at_member [OF ok(1)] i(2) by (metis course_account)
    then have "ledger_of (provider ?p) a = Some (unat (acc_balance acc), unat (acc_nonce acc))" by (simp add: ledger_of_def)
    with sent i(1,2) obtain m' where "ledger_of (provider p') a = Some (m', unat (acc_nonce acc) + 1)" by fastforce
    then obtain acc' where "accounts (provider p') a = Some acc'" "unat (acc_nonce acc') = unat (acc_nonce acc) + 1"
      by (auto simp: ledger_of_def)
    moreover have "unat n = unat (acc_nonce acc) + 1"
      using i(3) acc small unat_add_of_nat [of "acc_nonce acc" 1] by (simp add: snap_at_def)
    ultimately show ?thesis by (auto simp: word_le_nat_alt)
  qed
  have "plan_nonces ?pl = [] \<or> ready_at t l2" using l2(2) by (auto simp: usable_def plan_fields block_orders_def)
  moreover have "\<forall>(a, n) \<in> set (plan_nonces ?pl). \<exists>acc. accounts (provider (proc_of l2)) a = Some acc \<and> n \<le> acc_nonce acc"
    using nonces l2(3) by blast
  ultimately obtain l3 where "wait_for_sender_nonces ?ops (plan_nonces ?pl) l2 = (Ok (), l3)" "l3 = l2 \<or> ready_at t l3" "proc_of l3 = p'"
    using wait_done l2(3) by blast
  with l2(2) have l3: "wait_for_sender_nonces ?ops (plan_nonces ?pl) l2 = (Ok (), l3)" "usable opts t l3" "proc_of l3 = p'"
    by (auto simp: usable_def ready_connected)
  have "proc_of (pass chain_id 100 l3) = p'" using passed(1) [of l3 chain_id 100] l3(2,3) by (simp add: usable_def)
  with l1(1) l2(1) l3 gen course' show ?thesis
    by (intro exI [of _ l3]) (simp add: send_block_def then_do_def on_builder_def on_link_def hash_header_eq specs system_ops_def
        del: pass.simps)
qed

section \<open>All blocks\<close>

text \<open>The first query of a block meets the ping.\<close>

lemma send_block_pinged:
  assumes "pinged (client_link s)" and "addrs \<noteq> []" and "transactions_per_block opts \<noteq> 0"
  shows "\<exists>l. send_block c (system_ops c chain_id polls) opts addrs block_index s =
      (Err (ClientIo InvalidData ''unexpected account-state response''), s\<lparr>client_link := l\<rparr>) \<and>
    proc_of l = proc_of (client_link s)"
proof -
  have js: "[0..<unat (transactions_per_block opts)] = 0 # [1..<unat (transactions_per_block opts)]"
    using assms(3) by (simp add: upt_conv_Cons unat_gt_0)
  let ?a = "addrs ! (unat block_index mod length addrs)"
  obtain l where l: "query_account_state (system_ops c chain_id polls) ?a (client_link s) =
      (Err (ClientIo InvalidData ''unexpected account-state response''), l)" "proc_of l = proc_of (client_link s)"
    using ping_read [OF assms(1)] by blast
  have "checked_add block_index 0 = Some block_index" by (simp add: checked_add_unat)
  with l assms(2) show ?thesis
    by (intro exI [of _ l]) (simp add: send_block_def js plan_transaction_def then_do_def add_or_panic_def index_def on_link_def Let_def)
qed

text \<open>
  With \<open>n\<close> blocks to send and the timer at \<open>t\<close>, the sleeps between the blocks reach the tick unless
  \<open>100 * n < t + 100\<close>; then the block after it, number \<open>(t + 99) div 100\<close> of the rest, is not sent.
\<close>

lemma send_rest:
  assumes ok: "feasible c opts" "crypto_laws c" "parity_only c"
  shows "k \<le> unat (block_count opts) \<Longrightarrow> on_course c opts L0 k (proc_of (client_link s)) (client_builder s) \<Longrightarrow>
    usable opts t (client_link s) \<Longrightarrow> 0 < t \<Longrightarrow>
    \<exists>r s'. for_each (\<lambda>_. send_block c (system_ops c chain_id polls) opts (client_addresses c opts)) ()
        (map of_nat [k..<unat (block_count opts)]) s = (r, s') \<and>
      (if transactions_per_block opts = 0 \<or> 100 * (unat (block_count opts) - k) < t + 100
       then r = Ok () \<and> connected (client_link s') \<and>
         on_course c opts L0 (unat (block_count opts)) (proc_of (client_link s')) (client_builder s')
       else r = Err (ClientIo InvalidData ''unexpected account-state response'') \<and>
         on_course c opts L0 (k + (t + 99) div 100) (proc_of (client_link s')) (client_builder s'))"
proof (induction "unat (block_count opts) - k" arbitrary: k s t)
  case 0
  then show ?case by (simp add: usable_def)
next
  case (Suc d)
  let ?send = "send_block c (system_ops c chain_id polls) opts (client_addresses c opts)"
  have k: "k < unat (block_count opts)" and d: "d = unat (block_count opts) - Suc k" using Suc.hyps(2) by simp_all
  obtain l s1 where s1: "?send (of_nat k) s = (Ok (), s1)" "client_link s1 = pass chain_id 100 l" "usable opts t l"
    "on_course c opts L0 (Suc k) (proc_of (client_link s1)) (client_builder s1)"
    using send_block_ok [OF Suc.prems(2,3) ok k] by blast
  have step: "for_each (\<lambda>_. ?send) () (map of_nat [k..<unat (block_count opts)]) s =
      for_each (\<lambda>_. ?send) () (map of_nat [Suc k..<unat (block_count opts)]) s1"
    using k s1(1) by (simp add: upt_conv_Cons then_do_def)
  have con: "connected (client_link s1)" using passed(1) [of l chain_id 100] s1(2,3) by (simp add: usable_def)
  consider (go) t' where "usable opts t' (client_link s1)" "0 < t'" "transactions_per_block opts = 0 \<or> t = t' + 100"
    | (stop) "pinged (client_link s1)" "t \<le> 100" "transactions_per_block opts \<noteq> 0"
    using passed_ready [of t l 100 chain_id] s1(2,3) Suc.prems(4) con
    by (cases "transactions_per_block opts = 0"; cases "100 < t") (force simp: usable_def)+
  then show ?case
  proof cases
    case go
    have n: "unat (block_count opts) - k = Suc d" "unat (block_count opts) - Suc k = d" using Suc.hyps(2) by simp_all
    have "(199 + t') div 100 = Suc ((t' + 99) div 100)" by simp
    with Suc.hyps(1) [OF d _ s1(4) go(1,2)] k go(3) show ?thesis
      unfolding step n by (auto split: if_split_asm)
  next
    case stop
    have one: "(t + 99) div 100 = 1" using stop(2) Suc.prems(4) by simp
    show ?thesis
    proof (cases "Suc k = unat (block_count opts)")
      case True
      then have "[Suc k..<unat (block_count opts)] = []" "unat (block_count opts) - k = 1" by simp_all
      with s1(4) con Suc.prems(4) show ?thesis unfolding step by (simp add: True)
    next
      case False
      have "client_addresses c opts \<noteq> []" using ok(1) by (simp add: client_addresses_def feasible_def Let_def)
      from send_block_pinged [OF stop(1) this stop(3)] obtain l' where
        "?send (of_nat (Suc k)) s1 = (Err (ClientIo InvalidData ''unexpected account-state response''), s1\<lparr>client_link := l'\<rparr>)"
        "proc_of l' = proc_of (client_link s1)" by blast
      moreover have "\<not> 100 * (unat (block_count opts) - k) < t + 100" using False k stop(2) by simp
      ultimately show ?thesis
        using s1(4) stop(3) False k unfolding step one by (simp add: upt_conv_Cons then_do_def del: of_nat_Suc)
    qed
  qed
qed

lemma goodbye_sent:
  assumes "connected s"
  shows "\<exists>s'. client_send (system_ops c chain_id polls) (Disconnect (string_lit ''all blocks sent'')) s = (Ok (), s') \<and>
    proc_of s' = proc_of s"
  using assms
  by (simp add: connected_def part_defs Let_def client_send_def boxed_def system_ops_def proc_of_def goodbye_encodes)

end
