(* ===== verification/End_To_End.thy ===== *)
theory End_To_End
  imports Session
begin

text \<open>
  The test client against the node that \<^verbatim>\<open>main.rs\<close> starts with the same options: both derive the same
  genesis block, and the session ends with all blocks committed, or at the first ping of the manager that falls
  into it.
\<close>

section \<open>The same genesis\<close>

text \<open>The node's options when it is started like the client.\<close>

definition node_options :: "client_cli \<Rightarrow> cli" where
  "node_options opts = \<lparr>cli_chain_id = client_chain_id opts, genesis_account_count = client_account_count opts,
     genesis_balance = client_genesis_balance opts, cli_genesis_timestamp = client_genesis_timestamp opts, dry_run = False\<rparr>"

lemma feasible_keys_sign:
  assumes "feasible c opts" and "parity_only c"
  shows "keys_sign c (node_options opts)"
  using assms sign_transfer [OF _ assms(2)]
  by (simp add: keys_sign_def node_options_def feasible_def Let_def dummy_tx_def)

lemma client_account_Ok:
  assumes "crypto_laws c" "parity_only c" "feasible c opts" "i < unat (client_account_count opts)"
  shows "client_account c opts (of_nat i) =
    Ok (genesis_key i, \<lparr>ga_address = address_of_key c (genesis_key i), ga_balance = client_genesis_balance opts\<rparr>)"
proof -
  have i: "i < 255" using assms(4) unsigned_less [of "client_account_count opts", where ?'a = nat] by simp
  then have "unat (of_nat i :: u8) + 1 < 256" by (simp add: unat_of_nat)
  then have "(add_or_panic (of_nat i) 1 :: (u8, client_error) outcome) = Ok (of_nat (i + 1))"
    by (simp add: add_or_panic_def checked_add_def)
  moreover obtain stx where stx: "sign c dummy_tx (as_bytes (genesis_key i)) (client_chain_id opts) = Ok stx"
    using feasible_keys_sign [OF assms(3,2)] assms(4) by (auto simp: keys_sign_def node_options_def)
  moreover have "as_bytes (genesis_key i) = replicate 32 (of_nat (i + 1))" by (simp add: genesis_key_def)
  ultimately show ?thesis
    using sign_address [OF assms(1) stx] assms(2)
    by (simp add: client_account_def derive_address_def genesis_key_def)
qed

lemma client_accounts_Ok:
  assumes "crypto_laws c" "parity_only c" "feasible c opts"
  shows "try_collect (client_account c opts) (map of_nat [0..<unat (client_account_count opts)]) =
    Ok (zip (map genesis_key [0..<unat (client_account_count opts)]) (genesis_accounts c (node_options opts)))"
proof -
  have "try_collect (client_account c opts) (map of_nat is) = Ok (map (\<lambda>i. (genesis_key i,
      \<lparr>ga_address = address_of_key c (genesis_key i), ga_balance = client_genesis_balance opts\<rparr>)) is)"
    if "set is \<subseteq> {0..<unat (client_account_count opts)}" for "is"
    using that by (induction "is") (auto simp: client_account_Ok [OF assms])
  from this [of "[0..<unat (client_account_count opts)]"] show ?thesis
    by (simp add: genesis_accounts_def node_options_def zip_map_map zip_same_conv_map comp_def)
qed

lemma client_genesis_Ok:
  assumes "crypto_laws c" "parity_only c" "feasible c opts"
    and "compute_state_root c (fst (fund_all (genesis_accounts c (node_options opts)))) = Ok state_hash"
    and "hash_header c (block_header (genesis_block_of c (node_options opts) state_hash)) = Ok h"
  shows "client_genesis c opts =
    Ok (\<lparr>builder_state = \<lparr>signing_keys = map genesis_key [0..<unat (client_account_count opts)], current_number = 0,
           current_hash = h, base_timestamp = client_genesis_timestamp opts,
           current_timestamp = client_genesis_timestamp opts, builder_chain_id = client_chain_id opts\<rparr>,
         genesis_gas_limit = GAS_LIMIT_PER_BLOCK\<rparr>, client_addresses c opts)"
proof -
  let ?gas = "genesis_accounts c (node_options opts)"
  have len: "length ?gas = unat (client_account_count opts)" by (simp add: genesis_accounts_def node_options_def)
  have "map ga_address ?gas = client_addresses c opts"
    by (simp add: genesis_accounts_def client_addresses_def node_options_def)
  then have "map (ga_address \<circ> snd) (zip (map genesis_key [0..<unat (client_account_count opts)]) ?gas) = client_addresses c opts"
    using len by (simp flip: map_map)
  then show ?thesis
    using client_accounts_Ok [OF assms(1-3)] assms(4,5) len
    by (simp add: client_genesis_def genesis_block_of_def node_options_def genesis_header_with_state_root_def
        genesis_header_def builder_new_def Let_def)
qed

section \<open>The fresh processor\<close>

lemma processor_new_fields:
  assumes "processor_new c g accts chain_id head = Ok p" and "transactions g = []"
  shows "pending_map p = []" "proc_head p = head" "proc_chain_id p = chain_id"
    "blocks (provider p) = [(number (block_header g), g)]"
    "total_balance (provider p) \<le> (\<Sum>e\<leftarrow>accts. unat (acc_balance (snd e)))"
proof -
  obtain q where q: "insert_block c g default_provider = (Ok (), q)"
    using insert_block_total [of g c default_provider] assms(2) by auto
  with assms(1) have p: "p = \<lparr>pending_map = [], proc_chain_id = chain_id, proc_head = head,
      provider = fold (\<lambda>(a, acc). set_account a acc) accts q, proc_accounts = accts, shared_head = head,
      proc_metrics = zero_metrics\<rparr>"
    by (simp add: processor_new_def set_accounts_total [unfolded Let_def] Let_def)
  then show "pending_map p = []" "proc_head p = head" "proc_chain_id p = chain_id" by simp_all
  have blocks: "blocks (fold (\<lambda>(a, acc). set_account a acc) accts r) = blocks r" for r
    by (induction accts arbitrary: r) auto
  show "blocks (provider p) = [(number (block_header g), g)]"
    using q blocks p by (auto elim!: insert_block_Ok simp: default_provider_def)
  have "total_balance (fold (\<lambda>(a, acc). set_account a acc) accts r) \<le>
      total_balance r + (\<Sum>e\<leftarrow>accts. unat (acc_balance (snd e)))" if "provider_ok r" for r
    using that
  proof (induction accts arbitrary: r)
    case (Cons x accts)
    obtain a acc where x: "x = (a, acc)" by (cases x)
    have "total_balance (set_account a acc r) \<le> total_balance r + unat (acc_balance acc)"
      using total_balance_set_account [OF Cons.prems, of a acc] by simp
    moreover have "provider_ok (set_account a acc r)" using Cons.prems by (rule provider_ok_set_account)
    ultimately show ?case using Cons.IH [of "set_account a acc r"] x by simp
  qed simp
  moreover have "provider_ok q" using keepsD [OF provider_ok_insert_block default_provider_ok, of c g] q by simp
  moreover have "total_balance q = 0"
    using q by (auto elim!: insert_block_Ok simp: total_balance_def default_provider_def)
  ultimately show "total_balance (provider p) \<le> (\<Sum>e\<leftarrow>accts. unat (acc_balance (snd e)))"
    using p by fastforce
qed

lemma genesis_total:
  "(\<Sum>e\<leftarrow>snd (fund_all (genesis_accounts c opts)). unat (acc_balance (snd e))) \<le>
     unat (genesis_account_count opts) * unat (genesis_balance opts)"
proof -
  let ?m = "snd (fund_all (genesis_accounts c opts))"
  note funds = genesis_funds [of c opts]
  have "unat (acc_balance (snd e)) = unat (genesis_balance opts)" if "e \<in> set ?m" for e
  proof -
    have "map_of ?m (fst e) = Some (snd e)" using that funds(1) by simp
    then have "snd e = default_account\<lparr>acc_balance := genesis_balance opts\<rparr>"
      using funds(2) by (metis option.distinct(1) option.inject)
    then show ?thesis by simp
  qed
  then have "map (\<lambda>e. unat (acc_balance (snd e))) ?m = map (\<lambda>_. unat (genesis_balance opts)) ?m"
    by (intro map_cong) simp_all
  then have "(\<Sum>e\<leftarrow>?m. unat (acc_balance (snd e))) = length ?m * unat (genesis_balance opts)"
    by (simp only: sum_list_triv of_nat_id)
  moreover have "length ?m \<le> unat (genesis_account_count opts)"
  proof -
    have "fst ` set ?m \<subseteq> genesis_addresses c opts"
      using funds(2) by (metis map_of_eq_None_iff option.distinct(1) subsetI)
    then have "card (fst ` set ?m) \<le> unat (genesis_account_count opts)"
      unfolding genesis_addresses_def
      by (metis (no_types, lifting) card_atLeastLessThan card_image_le card_mono diff_zero finite_atLeastLessThan finite_imageI le_trans)
    with funds(1) show ?thesis by (metis distinct_card length_map set_map)
  qed
  ultimately show ?thesis by simp
qed

section \<open>The session\<close>

text \<open>The client adopts the head the node answers with, and is then on course.\<close>

lemma first_course:
  assumes ok: "feasible c opts" and start: "hash_header c (block_header (genesis_block_of c (node_options opts) state_hash)) = Ok h"
    "processor_new c (genesis_block_of c (node_options opts) state_hash) (snd (fund_all (genesis_accounts c (node_options opts))))
       (client_chain_id opts) \<lparr>head_number = 0, head_hash = h, head_total_difficulty = 0\<rparr> = Ok p"
    "accounts (provider p) = map_of (snd (fund_all (genesis_accounts c (node_options opts))))"
    and B: "signing_keys (builder_state B) = map genesis_key [0..<unat (client_account_count opts)]"
      "builder_head B = (0, h)" "base_timestamp (builder_state B) = client_genesis_timestamp opts"
      "builder_chain_id (builder_state B) = client_chain_id opts" "genesis_gas_limit B = GAS_LIMIT_PER_BLOCK"
  shows "on_course c opts (ledger_of (provider p)) 0 p B"
proof -
  let ?g = "genesis_block_of c (node_options opts) state_hash" and ?n = "node_options opts"
  have g: "transactions ?g = []" "number (block_header ?g) = 0" "timestamp (block_header ?g) = client_genesis_timestamp opts"
    by (simp_all add: genesis_block_of_def genesis_header_with_state_root_def genesis_header_def node_options_def)
  note fields = processor_new_fields [OF start(2) g(1)]
  have "settled c (ledger_of (provider p)) (client_chain_id opts) p"
    using start(1) g(2) by (intro processor_new_settled [OF start(2)]) (simp add: starts_from_def)
  moreover have "total_balance (provider p) < 2 ^ 128"
    using order_trans [OF fields(5) genesis_total] ok by (simp add: feasible_def Let_def node_options_def)
  moreover have ledger: "ledger_of (provider p) a = (if a \<in> set (client_addresses c opts)
      then Some (unat (client_genesis_balance opts), 0) else None)" for a
    using start(3) genesis_funds(2) [of c ?n]
    by (auto simp: ledger_of_def default_account_def genesis_addresses_def client_addresses_def node_options_def)
  moreover have "in_sync B p" using B fields g(2,3) by (simp add: in_sync_def)
  ultimately show ?thesis using B fields by (simp add: on_course_def)
qed

lemma work_done:
  assumes ok: "feasible c opts" "crypto_laws c" "parity_only c" and ready: "ready_at t (client_link s)" and t: "0 < t"
    and course: "on_course c opts L0 0 (proc_of (client_link s)) (client_builder s)"
  shows "\<exists>r s'. client_work c (system_ops c chain_id polls) opts (client_addresses c opts) s = (r, s') \<and>
    settled c L0 (client_chain_id opts) (proc_of (client_link s')) \<and>
    (if transactions_per_block opts = 0 \<or> 100 * unat (block_count opts) < t + 100
     then r = Ok () \<and> head_at (proc_of (client_link s')) = unat (block_count opts)
     else r = Err (ClientIo InvalidData ''unexpected account-state response'') \<and>
       head_at (proc_of (client_link s')) = (t + 99) div 100)"
proof -
  let ?p = "proc_of (client_link s)" and ?B = "client_builder s" and ?ops = "system_ops c chain_id polls"
  have "head_at p = 0 \<longleftrightarrow> head_number (proc_head p) = 0" for p by (simp add: unat_eq_zero)
  then have sync: "builder_head ?B = (0, head_hash (proc_head ?p))" "shared_head ?p = proc_head ?p" "head_number (proc_head ?p) = 0"
    using course by (simp_all add: on_course_def in_sync_def settled_def processor_inv_def)
  obtain l1 where l1: "query_chain_head ?ops (client_link s) =
      (Ok (0, head_hash (proc_head ?p), head_total_difficulty (proc_head ?p)), l1)" "ready_at t l1" "proc_of l1 = ?p"
    using head_answered [OF ready] sync by fastforce
  let ?C = "move_head 0 (head_hash (proc_head ?p)) (client_genesis_timestamp opts) ?B"
  have "slot_timestamp ?B 0 = Ok (client_genesis_timestamp opts)"
    using course by (simp add: on_course_def slot_timestamp_Ok)
  then have adopt: "set_current_head 0 (head_hash (proc_head ?p)) ?B = (Ok (), ?C)"
    by (simp add: set_current_head_def then_do_def)
  have "on_course c opts L0 0 ?p ?C"
    using course sync(1,3) by (auto simp: on_course_def in_sync_def move_head_def builder_head_def split: option.splits)
  moreover have "usable opts t l1" using l1(2) by (simp add: usable_def ready_connected)
  ultimately obtain r s' where s': "send_blocks c ?ops opts (client_addresses c opts) (s\<lparr>client_link := l1, client_builder := ?C\<rparr>) = (r, s')"
    "if transactions_per_block opts = 0 \<or> 100 * unat (block_count opts) < t + 100
     then r = Ok () \<and> connected (client_link s') \<and>
       on_course c opts L0 (unat (block_count opts)) (proc_of (client_link s')) (client_builder s')
     else r = Err (ClientIo InvalidData ''unexpected account-state response'') \<and>
       on_course c opts L0 ((t + 99) div 100) (proc_of (client_link s')) (client_builder s')"
    using send_rest [OF ok, of 0 L0 "s\<lparr>client_link := l1, client_builder := ?C\<rparr>" t chain_id polls, unfolded add_0] l1(3) t
    by (auto simp: send_blocks_def)
  have go: "\<not> client_account_count opts = 0" "\<not> client_account_count opts < transactions_per_block opts"
    using ok(1) by (auto simp: feasible_def Let_def word_less_nat_alt)
  note run = client_work_def then_do_def on_link_def on_builder_def
  show ?thesis
  proof (cases "transactions_per_block opts = 0 \<or> 100 * unat (block_count opts) < t + 100")
    case True
    with s'(2) have r: "r = Ok ()" "connected (client_link s')"
      "on_course c opts L0 (unat (block_count opts)) (proc_of (client_link s')) (client_builder s')" by simp_all
    note later = passed(1) [OF r(2), of chain_id 500]
    obtain l2 where l2: "client_send ?ops (Disconnect (string_lit ''all blocks sent'')) (pass chain_id 500 (client_link s')) = (Ok (), l2)"
      "proc_of l2 = proc_of (client_link s')"
      using goodbye_sent [of "pass chain_id 500 (client_link s')"] later by metis
    have sleep: "link_sleep ?ops = pass chain_id" by (simp add: system_ops_def)
    have "client_work c ?ops opts (client_addresses c opts) s = (Ok (), s'\<lparr>client_link := l2\<rparr>)"
      using l1(1) adopt go s'(1) r(1) l2(1) sleep by (simp add: run)
    then show ?thesis using True r(3) l2(2) by (simp add: on_course_def)
  next
    case False
    with s'(2) have r: "r = Err (ClientIo InvalidData ''unexpected account-state response'')"
      "on_course c opts L0 ((t + 99) div 100) (proc_of (client_link s')) (client_builder s')" by (simp_all only: if_False)
    have "client_work c ?ops opts (client_addresses c opts) s = (r, s')"
      using l1(1) adopt go s'(1) r(1) by (simp add: run)
    then show ?thesis using False r by (simp only: if_False) (simp add: on_course_def)
  qed
qed

text \<open>
  C4. The whole system works, until the manager pings. Start the node and the test client with the same options,
  under which the transfers are affordable and the machine's numbers suffice, and with a signature scheme that
  obeys its laws and signs for the genesis keys, whose addresses differ. Let every message be handled as it
  arrives, taking no time, so that time passes only while the client sleeps, 100 ms after each block, and let the
  manager's timer be \<open>t\<close> ms from its next tick when the client connects. If no tick falls between two blocks
  (the sleeps between them add up to less than \<open>t\<close> ms), or the blocks have no transactions and so need no
  query, the client ends without an error and the node has committed exactly the requested number of blocks.
  Otherwise the client takes the ping for the answer to its next query and ends with an error, and
  the node has committed exactly the blocks sent before the tick, one per started 100 ms. In both cases the
  node's ledger is the one the specification computes for the committed blocks.
\<close>

theorem session_commits_all:
  assumes "crypto_laws c" and "parity_only c" and "feasible c opts" and "0 < t"
  shows "\<exists>p r s. node_start c (node_options opts) = Ok (Some p) \<and>
    client_main c (system_ops c (client_chain_id opts) polls) opts (system_init t p) = (r, s) \<and>
    (if transactions_per_block opts = 0 \<or> 100 * unat (block_count opts) < t + 100
     then r = Ok () \<and> length (chain_of (proc_of s)) = unat (block_count opts)
     else r = Err (ClientIo InvalidData ''unexpected account-state response'') \<and>
       length (chain_of (proc_of s)) = (t + 99) div 100) \<and>
    spec_chain c (client_chain_id opts) (chain_of (proc_of s)) (ledger_of (provider p)) =
      Some (ledger_of (provider (proc_of s)))"
proof -
  have "\<not> dry_run (node_options opts)" by (simp add: node_options_def)
  with assms(1,2) feasible_keys_sign [OF assms(3,2)] obtain state_hash h p where
    state: "compute_state_root c (fst (fund_all (genesis_accounts c (node_options opts)))) = Ok state_hash" and
    h: "hash_header c (block_header (genesis_block_of c (node_options opts) state_hash)) = Ok h" and
    p: "processor_new c (genesis_block_of c (node_options opts) state_hash) (snd (fund_all (genesis_accounts c (node_options opts))))
       (cli_chain_id (node_options opts)) \<lparr>head_number = 0, head_hash = h, head_total_difficulty = 0\<rparr> = Ok p"
      "accounts (provider p) = map_of (snd (fund_all (genesis_accounts c (node_options opts))))"
      "node_start c (node_options opts) = Ok (Some p)"
    by (rule node_start_new)
  let ?B = "\<lparr>builder_state = \<lparr>signing_keys = map genesis_key [0..<unat (client_account_count opts)], current_number = 0,
           current_hash = h, base_timestamp = client_genesis_timestamp opts,
           current_timestamp = client_genesis_timestamp opts, builder_chain_id = client_chain_id opts\<rparr>,
         genesis_gas_limit = GAS_LIMIT_PER_BLOCK\<rparr>"
  let ?ops = "system_ops c (client_chain_id opts) polls"
  note genesis = client_genesis_Ok [OF assms(1-3) state h]
  have course: "on_course c opts (ledger_of (provider p)) 0 p ?B"
    using h p by (intro first_course [OF assms(3) h]) (simp_all add: builder_head_def node_options_def)
  obtain l where l: "client_handshake ?ops opts h (system_init t p) = (Ok True, l)" "ready_at t l" "proc_of l = p"
    using handshake_done_ready [of opts "client_chain_id opts" c polls h t p] by blast
  obtain r s where s: "client_work c ?ops opts (client_addresses c opts) \<lparr>client_link = l, client_builder = ?B\<rparr> = (r, s)"
    "settled c (ledger_of (provider p)) (client_chain_id opts) (proc_of (client_link s))"
    "if transactions_per_block opts = 0 \<or> 100 * unat (block_count opts) < t + 100
     then r = Ok () \<and> head_at (proc_of (client_link s)) = unat (block_count opts)
     else r = Err (ClientIo InvalidData ''unexpected account-state response'') \<and>
       head_at (proc_of (client_link s)) = (t + 99) div 100"
    using work_done [OF assms(3,1,2), of t "\<lparr>client_link = l, client_builder = ?B\<rparr>" "ledger_of (provider p)" "client_chain_id opts" polls]
      l(2,3) course assms(4) by auto
  have "\<not> out_of_order opts" using assms(3) by (simp add: feasible_def Let_def)
  with genesis l(1) s(1) have run: "client_main c ?ops opts (system_init t p) = (r, client_link s)"
    by (simp add: client_main_def then_do_def builder_head_def)
  have "length (chain_of (proc_of (client_link s))) = head_at (proc_of (client_link s))"
    "spec_chain c (client_chain_id opts) (chain_of (proc_of (client_link s))) (ledger_of (provider p)) =
      Some (ledger_of (provider (proc_of (client_link s))))"
    using s(2) by (auto simp: settled_def processor_inv_def committed_def)
  with p(3) run s(3) show ?thesis by (intro exI conjI) auto
qed

definition sample_opts :: client_cli where
  "sample_opts = \<lparr>client_chain_id = 1, client_genesis_timestamp = 1700000000, block_count = 2, transactions_per_block = 2,
     client_account_count = 3, client_genesis_balance = 5000000000000000000, out_of_order = False\<rparr>"

lemma sample_feasible: "feasible sample_crypto sample_opts"
proof -
  have keys: "usable_key sample_crypto (genesis_key i)" if "i < 3" for i
  proof -
    have "(of_nat (i + 1) :: u8) \<noteq> 0" using that by (auto simp: numeral_3_eq_3 less_Suc_eq)
    then have "genesis_key i \<noteq> zero_array"
      by (simp add: genesis_key_def zero_array_def byte_array_eq_iff)
    then show ?thesis by (simp add: usable_key_def sample_crypto_def)
  qed
  have "address_of_key sample_crypto (genesis_key i) = byte_array (replicate 20 (of_nat (i + 1)))" for i
    by (simp add: address_of_key_def sample_crypto_def keccak256_def genesis_key_def byte_array_eq_iff as_bytes_byte_array)
  then have "distinct (client_addresses sample_crypto sample_opts)"
    by (simp add: client_addresses_def sample_opts_def upt_rec byte_array_eq_iff)
  with keys show ?thesis by (simp add: feasible_def sample_opts_def transfer_outlay_def)
qed

theorem session_commits_all_witness:
  "(\<exists>p s. node_start sample_crypto (node_options sample_opts) = Ok (Some p) \<and>
     client_main sample_crypto (system_ops sample_crypto 1 5) sample_opts (system_init 10000 p) = (Ok (), s) \<and>
     length (chain_of (proc_of s)) = 2) \<and>
   (\<exists>p s. node_start sample_crypto (node_options sample_opts) = Ok (Some p) \<and>
     client_main sample_crypto (system_ops sample_crypto 1 5) sample_opts (system_init 70 p) =
       (Err (ClientIo InvalidData ''unexpected account-state response''), s) \<and>
     length (chain_of (proc_of s)) = 1)"
  using session_commits_all [OF sample_crypto_laws sample_parity sample_feasible, of 10000 5]
    session_commits_all [OF sample_crypto_laws sample_parity sample_feasible, of 70 5]
  by (auto simp: sample_opts_def)

end
