(* ===== verification/Spec2Isabelle.thy ===== *)
theory Spec2Isabelle
  imports Cached_Provider Deposits Fixtures Blocking End_To_End
begin

text \<open>
  A verification of rust-eth-playground, a small Ethereum-like node written in Rust: its data types, RLP
  codec, signatures and state trie, block execution, networking, the block processor, the block
  builder, the node program and the test client that drives it.

  \<^bold>\<open>The program and how its parts interact\<close>

  A peer connects over TCP. The listener (\<^verbatim>\<open>core/networking/src/server.rs\<close>) numbers the connection and starts a
  connection task (\<^verbatim>\<open>connection.rs\<close>), which exchanges length-prefixed frames (\<^verbatim>\<open>codec.rs\<close>) of RLP messages
  (\<^verbatim>\<open>message.rs\<close>) and admits the peer after a handshake. What an admitted peer says goes to the manager
  (\<^verbatim>\<open>manager.rs\<close>), which answers pings, gossips transactions and hands blocks and queries to the adapter of
  the node program (\<^verbatim>\<open>node/src/main.rs\<close>). The adapter queries the processor (\<^verbatim>\<open>processor/src/block_processor.rs\<close>),
  which orders blocks by number and runs each through the pipeline (\<^verbatim>\<open>core/execution/src/pipeline.rs\<close>): find the
  parent, validate, open a journal, execute the transfers on the in-memory provider, commit or roll
  back. The state root is the root of a Merkle-Patricia trie (\<^verbatim>\<open>core/rlp-codec/src/trie.rs\<close>) over RLP-encoded
  accounts; hashes and signatures are in \<^verbatim>\<open>signing.rs\<close>. The block builder (\<^verbatim>\<open>block-builder\<close>) makes signed blocks,
  and the test client (\<^verbatim>\<open>node/src/bin/test-client.rs\<close>) sends them.

  \<^bold>\<open>Conventions of the model\<close>

  \<^item> \<open>Prelude\<close>: a Rust \<^verbatim>\<open>Result\<close> is an \<open>outcome\<close> with a third case for a panic; \<open>and_then\<close> is the operator \<^verbatim>\<open>?\<close>. A method
    that mutates its receiver is an \<open>action\<close>, a function from the state to an outcome and a state;
    \<open>then_do\<close> sequences actions, and the mutations made before an error remain, as in the code.
  \<^item> Machine integers are words of their width. \<^verbatim>\<open>checked_add\<close> and its like are functions to an option;
    an unchecked \<open>+\<close> or \<open>*\<close> that overflows, an index or slice out of range and \<^verbatim>\<open>todo!()\<close> are panics. Counters that
    are atomics wrap. \<^verbatim>\<open>usize\<close> is a natural number.
  \<^item> A struct is a record, an enum a datatype; a \<^verbatim>\<open>HashMap\<close> is an association list with distinct keys whose order
    stands for the unspecified iteration order.
  \<^item> The crates \<^verbatim>\<open>sha3\<close> and \<^verbatim>\<open>k256\<close> are a record of functions (\<open>crypto\<close>), an argument of every definition that
    uses them. \<open>crypto_laws\<close> says that a signature recovers the key it was made with; \<open>parity_only\<close>, where it is
    needed, that the recovery id is 0 or 1, all that the wire format can carry; \<open>usable_key\<close>
    that the scheme accepts a key. Properties about hashes as commitments conclude an equality or
    exhibit a collision. \<open>sample_crypto\<close> satisfies all of these and is used by the witnesses.
  \<^item> A task is a step function or step relation on its state; what the operating system and the other
    tasks decide is an input of the step. Channels are lists; their capacity, and the sends that wait for it,
    are in \<open>Tasks\<close>.

  \<^bold>\<open>The theories\<close>

  \<^item> \<open>Eth_Types\<close>: \<^verbatim>\<open>core/types\<close>, files \<^verbatim>\<open>error.rs\<close>, \<^verbatim>\<open>macros.rs\<close>, \<^verbatim>\<open>bloom.rs\<close>, \<^verbatim>\<open>opcode.rs\<close>. Hexadecimal text round trips; bloom bits.
  \<^item> \<open>Chain_Types\<close>: the rest of \<^verbatim>\<open>core/types\<close>. The fee arithmetic is exact or an error; the price charged is covered
    by the maximal cost.
  \<^item> \<open>Rlp\<close>: \<^verbatim>\<open>encoder.rs\<close> and \<^verbatim>\<open>decoder.rs\<close>. Round trip, exact lengths, the decoder terminates and never panics.
  \<^item> \<open>Rlp_Traits\<close>: \<^verbatim>\<open>traits.rs\<close>. The locale \<open>rlp_codable\<close> is the contract of the two traits, interpreted for every pair of
    impls but that of accounts, whose decoder never succeeds.
  \<^item> \<open>Signing\<close>: \<^verbatim>\<open>signing.rs\<close>. Payloads are injective; the recovered sender of a signature is the signer.
  \<^item> \<open>Merkle_Trie\<close>, \<open>Trie_Root\<close>: \<^verbatim>\<open>trie.rs\<close>. The locale \<open>map_trie\<close>: for keys of one length insertion is map update on a
    canonical shape, while a key and its extension lose the nibbles they share; the root commits to the contents.
  \<^item> \<open>Provider\<close>, \<open>Cached_Provider\<close>: \<^verbatim>\<open>in_memory.rs\<close>, \<^verbatim>\<open>providers.rs\<close>, \<^verbatim>\<open>cached.rs\<close>. Lookups after inserts, the journal,
    and (locale \<open>chain_reader\<close>) that the cache is transparent.
  \<^item> \<open>Validator\<close>: \<^verbatim>\<open>validator.rs\<close>. The trait is the locale \<open>consensus_validator\<close>, interpreted by both validators.
  \<^item> \<open>State_Root\<close>, \<open>Executor\<close>: \<^verbatim>\<open>executor.rs\<close>. Execution refines a ledger of balances and nonces over the natural numbers
    (\<open>spec_run\<close>), conserves money up to the recorded fees, and succeeds whenever the specification does and the
    machine's numbers suffice. The errors and panics are characterised.
  \<^item> \<open>Pipeline\<close>: \<^verbatim>\<open>pipeline.rs\<close>. The locales \<open>block_executor\<close> and \<open>validated_executor\<close>; blocks are applied entirely or not at all,
    and a panic of the executor leaves the journal open.
  \<^item> \<open>Message\<close>, \<open>Codec\<close>: \<^verbatim>\<open>message.rs\<close>, \<^verbatim>\<open>chain.rs\<close>, \<^verbatim>\<open>codec.rs\<close>. Streams of frames round trip however they are cut;
    bounds of frames and the frames on which the decoder panics.
  \<^item> \<open>Connection\<close>, \<open>Manager\<close>, \<open>Network\<close>: \<^verbatim>\<open>connection.rs\<close>, \<^verbatim>\<open>manager.rs\<close>, \<^verbatim>\<open>server.rs\<close>. The handshake protocol, gossip, and an
    invariant of all interleavings of the tasks.
  \<^item> \<open>Processor\<close>, \<open>Delivery\<close>: \<^verbatim>\<open>block_processor.rs\<close>. The chain and ledger invariant \<open>processor_inv\<close>, that the queue drains
    (\<open>settled\<close>) in unbroken runs, and that the order of delivery does not matter.
  \<^item> \<open>Builder\<close>: \<^verbatim>\<open>block_builder.rs\<close>. Generated blocks of distinct senders are accepted, others never.
  \<^item> \<open>Node\<close>: \<^verbatim>\<open>node/src/main.rs\<close>. The genesis state, and the answers of the adapter under every interleaving.
  \<^item> \<open>Client\<close>: \<^verbatim>\<open>test-client.rs\<close> and \<^verbatim>\<open>networking/src/client.rs\<close>, over a record \<open>link_ops\<close> of the operations of the connection.
  \<^item> \<open>Whole_System\<close>, \<open>Session\<close>, \<open>End_To_End\<close>: the step functions of connection, manager, adapter and processor composed under
    one schedule, in which every message is handled as it arrives and takes no time. Time passes in milliseconds
    while the client sleeps or waits (\<open>elapse\<close>), and drives the manager's ten-second interval. Under this schedule
    every block that the test client sends is committed, and it sends all of them unless a tick falls between two
    blocks: a ping makes its next query fail. The client of the networking crate is turned away. The connection's numbers (peer 1, sender 1) are those of the first peer.
  \<^item> \<open>Tasks\<close>, \<open>Blocking\<close>: the tasks, channels and shutdown of \<^verbatim>\<open>node/src/main.rs\<close>, with \<^verbatim>\<open>server.rs\<close>. A state \<open>flow\<close> holds all
    connection tasks, the manager, the adapter, the processor and what \<^verbatim>\<open>main\<close> waits for; \<open>flow_step\<close> makes every send that
    may wait a step of its own, labelled with the peer that acts. Its states are well formed and it refines
    \<open>node_step\<close>; full channels, a peer that does not read and a silent peer are each proved (locale
    \<open>lasting\<close>) to stop the program for as long as they last; without them the shutdown returns.
  \<^item> \<open>Deposits\<close>: the arms that the feature \<^verbatim>\<open>optimism\<close> adds. They change nothing for other transactions, and no block
    with a deposit executes.
  \<^item> \<open>Test_Harness\<close>, \<open>Fixtures\<close>: \<^verbatim>\<open>core/execution/src/test_harness.rs\<close>, and \<^verbatim>\<open>test_helpers.rs\<close> of \<^verbatim>\<open>core/types\<close> and \<^verbatim>\<open>core/execution\<close>.
    The harness keeps a linked chain and mines; the fixtures have one sender.

  \<^bold>\<open>Bounds and fuel\<close>

  The loops of the code are structural recursions or functions with a termination proof (the decoder,
  trie insertion, the drain loop of the processor). The only fuel is \<open>patience\<close>, the number of polls
  that the deadline of a wait of the test client leaves time for; the session needs none of it, so the
  result holds for every value. The five seconds it waits for an answer are 5000 steps of the clock. Bounds appear where the code has them: encodings shorter
  than \<open>2 ^ 64\<close> bytes, frames of 10 MiB, a hundred transactions per block, channels of 256 and 32 entries, and where a number would
  overflow (the hypotheses \<open>room_for\<close>, \<open>executable_on\<close> and \<open>feasible\<close> list them).

  \<^bold>\<open>Not modelled\<close>

  \<^item> Command line parsing, logging and socket set-up, a listener that cannot bind included: they only
    call libraries.
  \<^item> The serde and alloy derives, whose formats are third-party.
  \<^item> Unit and integration tests, benchmarks, and the demo program \<^verbatim>\<open>networking/src/main.rs\<close>,
    which spawns parts that are modelled.
\<close>

end
